(* ===== verification/Prelude.thy ===== *)
theory Prelude
  imports Main "HOL-Library.Word"
begin

text \<open>
  Shared vocabulary of the development: the Python exceptions the code raises, results as
  sums, bytes and text, Python slicing and searching, dictionaries as association
  lists, each with the lemmas the components use. Text is a list of Unicode code points, so that
  \<open>UnicodeEncodeError\<close> is a branch of the model; bytes are 8-bit words.
\<close>

section \<open>Results and exceptions\<close>

datatype exn =
    ValueError | StructError | UnicodeEncodeError | UnicodeDecodeError | OverflowError
  | KeyError | IndexError | TypeError | AttributeError | NotImplementedError
  | StateError | EndOfQueue | InvalidSoupMessage | ConnectionRefusedError
  | DuplicateMessageException | DecodeError | CompileError | ParseError
  | RecursionError | TimeoutError | ConnectionError | ClickException
  | FileNotFoundError | Diverges

text \<open>
  \<open>Diverges\<close> is no Python exception: it is the value of a loop whose body would make no
  progress. The components that use it prove that it never occurs.
\<close>

type_synonym 'a result = "exn + 'a"
type_synonym byte = "8 word"
type_synonym bytes = "byte list"
type_synonym pystr = "nat list"

named_theorems result_simps \<open>evaluation of sequenced results\<close>
named_theorems slice_simps \<open>Python slices at the positions the code uses\<close>
named_theorems codec_simps \<open>evaluation of encoders and decoders on valid input\<close>

fun rbind :: "'a result \<Rightarrow> ('a \<Rightarrow> 'b result) \<Rightarrow> 'b result" where
  "rbind (Inl e) f = Inl e"
| "rbind (Inr x) f = f x"

lemma rbind_eq_Inr [result_simps]: "rbind m f = Inr y \<longleftrightarrow> (\<exists>x. m = Inr x \<and> f x = Inr y)"
  by (cases m) auto

lemma rbind_eq_Inl [result_simps]:
  "rbind m f = Inl e \<longleftrightarrow> m = Inl e \<or> (\<exists>x. m = Inr x \<and> f x = Inl e)"
  by (cases m) auto

lemma rbind_assoc: "rbind (rbind m f) g = rbind m (\<lambda>x. rbind (f x) g)"
  by (cases m) auto

lemma rbind_cong [fundef_cong]:
  "m = m' \<Longrightarrow> (\<And>x. m' = Inr x \<Longrightarrow> f x = f' x) \<Longrightarrow> rbind m f = rbind m' f'"
  by (cases m') auto

fun map_result :: "('a \<Rightarrow> 'b result) \<Rightarrow> 'a list \<Rightarrow> 'b list result" where
  "map_result f [] = Inr []"
| "map_result f (x # xs) = rbind (f x) (\<lambda>y. rbind (map_result f xs) (\<lambda>ys. Inr (y # ys)))"

lemma map_result_cong [fundef_cong]:
  "xs = ys \<Longrightarrow> (\<And>x. x \<in> set ys \<Longrightarrow> f x = g x) \<Longrightarrow> map_result f xs = map_result g ys"
  by (induction ys arbitrary: xs) auto

lemma map_result_Inr_iff:
  "(\<exists>ys. map_result f xs = Inr ys) \<longleftrightarrow> (\<forall>x \<in> set xs. \<exists>y. f x = Inr y)"
proof (induction xs)
  case (Cons x xs)
  then show ?case by (cases "f x"; cases "map_result f xs") auto
qed simp

lemma map_result_Inr_set:
  "map_result f xs = Inr ys \<Longrightarrow> x \<in> set xs \<Longrightarrow> \<exists>y \<in> set ys. f x = Inr y"
  by (induction xs arbitrary: ys) (auto simp: result_simps)

lemma map_result_all: "(\<And>x. x \<in> set xs \<Longrightarrow> f x = Inr (h x)) \<Longrightarrow> map_result f xs = Inr (map h xs)"
  by (induction xs) auto

lemma map_result_length: "map_result f xs = Inr ys \<Longrightarrow> length ys = length xs"
  by (induction xs arbitrary: ys) (auto simp: result_simps)

lemma map_result_mem: "map_result f xs = Inr ys \<Longrightarrow> y \<in> set ys \<Longrightarrow> \<exists>x \<in> set xs. f x = Inr y"
  by (induction xs arbitrary: ys) (auto simp: result_simps)

text \<open>A literal of the source, as text and as bytes.\<close>

definition lit :: "string \<Rightarrow> pystr" where
  "lit s = map of_char s"

definition blit :: "string \<Rightarrow> bytes" where
  "blit s = map (\<lambda>c. of_nat (of_char c)) s"

section \<open>Slices, search and padding\<close>

text \<open>\<open>xs[i:j]\<close> with Python's treatment of negative and too large indices.\<close>

definition py_idx :: "nat \<Rightarrow> int \<Rightarrow> nat" where
  "py_idx n i = nat (if i < 0 then max 0 (int n + i) else min (int n) i)"

definition py_slice :: "'a list \<Rightarrow> int \<Rightarrow> int \<Rightarrow> 'a list" where
  "py_slice xs i j = drop (py_idx (length xs) i) (take (py_idx (length xs) j) xs)"

definition py_from :: "'a list \<Rightarrow> int \<Rightarrow> 'a list" where
  "py_from xs i = drop (py_idx (length xs) i) xs"

lemma py_idx_le [simp]: "py_idx n i \<le> n"
  by (auto simp: py_idx_def)

lemma py_idx_nonneg: "0 \<le> i \<Longrightarrow> py_idx n i = min n (nat i)"
  by (auto simp: py_idx_def)

lemma py_idx_of_nat [slice_simps]: "py_idx n (int k) = min n k"
  by (simp add: py_idx_nonneg)

lemma py_from_nat [slice_simps]: "py_from xs (int k) = drop k xs"
  by (cases "k \<le> length xs") (simp_all add: py_from_def slice_simps min_def)

lemma py_from_append [slice_simps]: "py_from (xs @ ys) (int (length xs)) = ys"
  by (simp add: slice_simps)

lemma py_from_0 [simp]: "py_from xs 0 = xs"
  by (simp add: py_from_def py_idx_def)

lemma py_from_left: "0 \<le> i \<Longrightarrow> i \<le> int (length xs) \<Longrightarrow> py_from (xs @ ys) i = py_from xs i @ ys"
  by (simp add: py_from_def py_idx_nonneg)

lemma py_slice_nat [slice_simps]: "py_slice xs (int i) (int j) = drop i (take j xs)"
  by (auto simp add: py_slice_def slice_simps min_def)

lemma py_slice_upto [slice_simps]: "py_slice xs 0 (int j) = take j xs"
  using py_slice_nat [of xs 0 j] by simp

lemma length_py_from_le: "length (py_from xs i) \<le> length xs"
  by (simp add: py_from_def)

text \<open>\<open>xs.find(pat)\<close>: the first position of a non-empty pattern, or -1.\<close>

fun find_from :: "'a list \<Rightarrow> 'a list \<Rightarrow> nat \<Rightarrow> int" where
  "find_from pat [] k = (if pat = [] then int k else -1)"
| "find_from pat (x # xs) k =
     (if take (length pat) (x # xs) = pat then int k else find_from pat xs (Suc k))"

definition py_find :: "'a list \<Rightarrow> 'a list \<Rightarrow> int" where
  "py_find xs pat = find_from pat xs 0"

definition py_find_after :: "'a list \<Rightarrow> 'a list \<Rightarrow> nat \<Rightarrow> int" where
  "py_find_after xs pat start = find_from pat (drop start xs) start"

lemma find_from_absent: "c \<notin> set xs \<Longrightarrow> find_from [c] xs k = -1"
  by (induction xs arbitrary: k) auto

lemma find_from_first: "c \<notin> set xs \<Longrightarrow> find_from [c] (xs @ c # ys) k = int (k + length xs)"
  by (induction xs arbitrary: k) auto

lemma find_from_bounds:
  "find_from [c] xs k = -1 \<or> (int k \<le> find_from [c] xs k \<and> find_from [c] xs k < int (k + length xs))"
proof (induction xs arbitrary: k)
  case (Cons x xs)
  from Cons.IH [of "Suc k"] show ?case by auto
qed simp

lemma py_find_absent [simp]: "c \<notin> set xs \<Longrightarrow> py_find xs [c] = -1"
  by (simp add: py_find_def find_from_absent)

lemma py_find_first [simp]: "c \<notin> set xs \<Longrightarrow> py_find (xs @ c # ys) [c] = int (length xs)"
  by (simp add: py_find_def find_from_first)

lemma py_find_bounds: "py_find xs [c] = -1 \<or> (0 \<le> py_find xs [c] \<and> py_find xs [c] < int (length xs))"
  using find_from_bounds [of c xs 0] by (simp add: py_find_def)

definition strip_by :: "('a \<Rightarrow> bool) \<Rightarrow> 'a list \<Rightarrow> 'a list" where
  "strip_by p xs = rev (dropWhile p (rev (dropWhile p xs)))"

text \<open>The code points \<open>str.strip()\<close> removes.\<close>

definition is_space :: "nat \<Rightarrow> bool" where
  "is_space c \<longleftrightarrow> c \<in> {9, 10, 11, 12, 13, 28, 29, 30, 31, 32, 133, 160, 5760, 8192, 8193, 8194,
     8195, 8196, 8197, 8198, 8199, 8200, 8201, 8202, 8232, 8233, 8239, 8287, 12288}"

text \<open>For evaluation: the ranges first.\<close>

lemma is_space_code [code]:
  "is_space c \<longleftrightarrow>
     (if c < 14 then 9 \<le> c else if c < 33 then 28 \<le> c else if c < 256 then c = 133 \<or> c = 160
      else c \<in> {5760, 8192, 8193, 8194, 8195, 8196, 8197, 8198, 8199, 8200, 8201, 8202, 8232, 8233, 8239, 8287,
        12288})"
  by (auto simp: is_space_def)

definition py_strip :: "pystr \<Rightarrow> pystr" where
  "py_strip s = strip_by is_space s"

definition ljust :: "pystr \<Rightarrow> nat \<Rightarrow> pystr" where
  "ljust s n = s @ replicate (n - length s) 32"

definition rjust :: "pystr \<Rightarrow> nat \<Rightarrow> pystr" where
  "rjust s n = replicate (n - length s) 32 @ s"

text \<open>Text that no strip changes: what survives padding to a fixed width.\<close>

definition unpadded :: "pystr \<Rightarrow> bool" where
  "unpadded s \<longleftrightarrow> (s \<noteq> [] \<longrightarrow> \<not> is_space (hd s) \<and> \<not> is_space (last s))"

lemma is_space_32 [simp]: "is_space 32"
  by (simp add: is_space_def)

lemma dropWhile_replicate_append:
  "p x \<Longrightarrow> dropWhile p (replicate n x @ xs) = dropWhile p xs"
  by (induction n) auto

lemma strip_by_idle:
  assumes "xs \<noteq> [] \<Longrightarrow> \<not> p (hd xs)" and "xs \<noteq> [] \<Longrightarrow> \<not> p (last xs)"
  shows "strip_by p xs = xs"
proof (cases xs)
  case Nil
  then show ?thesis by (simp add: strip_by_def)
next
  case (Cons y ys)
  with assms have first: "dropWhile p xs = xs" by simp
  have "rev xs \<noteq> []" and "hd (rev xs) = last xs"
    using Cons by (simp_all add: hd_rev)
  with assms Cons have "dropWhile p (rev xs) = rev xs"
    by (cases "rev xs") auto
  with first show ?thesis by (simp add: strip_by_def)
qed

lemma strip_by_right_pad:
  assumes "p x" and "xs \<noteq> [] \<Longrightarrow> \<not> p (hd xs)" and "xs \<noteq> [] \<Longrightarrow> \<not> p (last xs)"
  shows "strip_by p (xs @ replicate n x) = xs"
proof (cases "xs = []")
  case True
  have "dropWhile p (replicate n x) = []"
    using assms(1) by (simp add: dropWhile_eq_Nil_conv)
  with True show ?thesis by (simp add: strip_by_def)
next
  case False
  with assms(2) have "dropWhile p (xs @ replicate n x) = xs @ replicate n x"
    by (cases xs) auto
  then have "strip_by p (xs @ replicate n x) = rev (dropWhile p (rev xs))"
    using assms(1) by (simp add: strip_by_def dropWhile_replicate_append)
  also have "dropWhile p (rev xs) = rev xs"
    using assms(3) False by (cases "rev xs") (auto simp: last_rev hd_rev dest: arg_cong [of _ _ rev])
  finally show ?thesis by simp
qed

lemma strip_by_left_pad:
  assumes "p x" and "xs \<noteq> [] \<Longrightarrow> \<not> p (hd xs)" and "xs \<noteq> [] \<Longrightarrow> \<not> p (last xs)"
  shows "strip_by p (replicate n x @ xs) = xs"
  using assms strip_by_idle [of xs p]
  by (simp add: strip_by_def dropWhile_replicate_append)

lemma py_strip_ljust [simp]: "unpadded s \<Longrightarrow> py_strip (ljust s n) = s"
  by (auto simp: py_strip_def ljust_def unpadded_def intro: strip_by_right_pad)

lemma py_strip_rjust [simp]: "unpadded s \<Longrightarrow> py_strip (rjust s n) = s"
  by (auto simp: py_strip_def rjust_def unpadded_def intro: strip_by_left_pad)

lemma length_ljust: "length (ljust s n) = max n (length s)"
  by (simp add: ljust_def)

lemma length_rjust: "length (rjust s n) = max n (length s)"
  by (simp add: rjust_def)

lemma length_just_fit [simp]:
  "length s \<le> n \<Longrightarrow> length (ljust s n) = n"
  "length s \<le> n \<Longrightarrow> length (rjust s n) = n"
  by (simp_all add: length_ljust length_rjust)

section \<open>Dictionaries\<close>

text \<open>\<open>d[k] = v\<close> on a dictionary in insertion order.\<close>

fun dict_set :: "('k \<times> 'v) list \<Rightarrow> 'k \<Rightarrow> 'v \<Rightarrow> ('k \<times> 'v) list" where
  "dict_set [] k v = [(k, v)]"
| "dict_set (p # d) k v = (if fst p = k then (k, v) # d else p # dict_set d k v)"

lemma map_of_dict_set [simp]: "map_of (dict_set d k v) = (map_of d)(k \<mapsto> v)"
  by (induction d) (auto simp: fun_upd_twist)

lemma dict_set_keys: "map fst (dict_set d k v) = (if k \<in> set (map fst d) then map fst d else map fst d @ [k])"
  by (induction d) auto

lemma dict_set_distinct: "distinct (map fst d) \<Longrightarrow> distinct (map fst (dict_set d k v))"
  by (auto simp: dict_set_keys)

lemma dict_set_new: "k \<notin> set (map fst d) \<Longrightarrow> dict_set d k v = d @ [(k, v)]"
  by (induction d) auto

end
