(* ===== verification/PyCodec.thy ===== *)
theory PyCodec
  imports Prelude
begin

text \<open>
  What the code uses of Python's standard encodings: \<open>str.encode\<close> / \<open>bytes.decode\<close> for
  ASCII and ISO-8859-1, \<open>int.to_bytes\<close> / \<open>int.from_bytes\<close> for both byte orders and
  signednesses, and the decimal notation read by \<open>int(...)\<close> and written by \<open>str(...)\<close>.
  Each is executable, raises where Python raises, and comes with its round trip.
\<close>

section \<open>Text encodings\<close>

datatype encoding = Ascii | Latin1

fun enc_limit :: "encoding \<Rightarrow> nat" where
  "enc_limit Ascii = 128"
| "enc_limit Latin1 = 256"

definition encodable :: "encoding \<Rightarrow> pystr \<Rightarrow> bool" where
  "encodable e s \<longleftrightarrow> list_all (\<lambda>c. c < enc_limit e) s"

definition encode :: "encoding \<Rightarrow> pystr \<Rightarrow> bytes result" where
  "encode e s = (if encodable e s then Inr (map of_nat s) else Inl UnicodeEncodeError)"

definition decode :: "encoding \<Rightarrow> bytes \<Rightarrow> pystr result" where
  "decode e bs = (if list_all (\<lambda>b. unat b < enc_limit e) bs
                  then Inr (map unat bs) else Inl UnicodeDecodeError)"

lemma encodable_simps [simp]:
  "encodable e []"
  "encodable e (c # s) \<longleftrightarrow> c < enc_limit e \<and> encodable e s"
  "encodable e (s @ t) \<longleftrightarrow> encodable e s \<and> encodable e t"
  by (simp_all add: encodable_def)

lemma encodable_take [simp]: "encodable e s \<Longrightarrow> encodable e (take n s)"
  by (auto simp: encodable_def list_all_iff dest: in_set_takeD)

lemma encodable_replicate_32 [simp]: "encodable e (replicate n 32)"
  by (cases e) (auto simp: encodable_def list_all_iff)

lemma encodable_pad [simp]:
  "encodable e (ljust s n) \<longleftrightarrow> encodable e s"
  "encodable e (rjust s n) \<longleftrightarrow> encodable e s"
  by (simp_all add: ljust_def rjust_def)

lemma enc_limit_le: "enc_limit e \<le> 256"
  by (cases e) simp_all

lemma unat_of_nat_byte: "c < 256 \<Longrightarrow> unat (of_nat c :: byte) = c"
  by (simp add: unat_of_nat)

lemma encode_ok [codec_simps]: "encodable e s \<Longrightarrow> encode e s = Inr (map of_nat s)"
  by (simp add: encode_def)

lemma encode_eq_Inr: "encode e s = Inr bs \<longleftrightarrow> encodable e s \<and> bs = map of_nat s"
  by (auto simp: encode_def)

lemma decode_map_of_nat [codec_simps]:
  assumes "encodable e s"
  shows "decode e (map of_nat s) = Inr s"
proof -
  have small: "unat (of_nat c :: byte) = c" if "c \<in> set s" for c
    using assms that enc_limit_le [of e]
    by (intro unat_of_nat_byte) (auto simp: encodable_def list_all_iff)
  then have "map (unat \<circ> (of_nat :: nat \<Rightarrow> byte)) s = s"
    by (intro map_idI) simp
  moreover have "list_all (\<lambda>b. unat b < enc_limit e) (map (of_nat :: nat \<Rightarrow> byte) s)"
    using assms small by (auto simp: encodable_def list_all_iff)
  ultimately show ?thesis
    by (simp add: decode_def)
qed

lemma decode_eq_Inr:
  "decode e bs = Inr s \<Longrightarrow> encodable e s \<and> map of_nat s = bs \<and> length s = length bs"
  by (auto simp: decode_def encodable_def list_all_iff split: if_splits intro!: map_idI)

section \<open>Integers as bytes\<close>

datatype endian = Little | Big

definition int_fits :: "bool \<Rightarrow> nat \<Rightarrow> int \<Rightarrow> bool" where
  "int_fits sg n v =
     (if sg then - (2 ^ (8 * n - 1)) \<le> v \<and> v < 2 ^ (8 * n - 1)
      else 0 \<le> v \<and> v < 2 ^ (8 * n))"

primrec le_bytes :: "nat \<Rightarrow> int \<Rightarrow> bytes" where
  "le_bytes 0 v = []"
| "le_bytes (Suc n) v = word_of_int v # le_bytes n (v div 256)"

primrec le_value :: "bytes \<Rightarrow> int" where
  "le_value [] = 0"
| "le_value (b # bs) = uint b + 256 * le_value bs"

fun order_bytes :: "endian \<Rightarrow> bytes \<Rightarrow> bytes" where
  "order_bytes Little bs = bs"
| "order_bytes Big bs = rev bs"

definition py_int_to_bytes :: "endian \<Rightarrow> bool \<Rightarrow> nat \<Rightarrow> int \<Rightarrow> bytes result" where
  "py_int_to_bytes e sg n v =
     (if int_fits sg n v then Inr (order_bytes e (le_bytes n v)) else Inl OverflowError)"

definition py_int_from_bytes :: "endian \<Rightarrow> bool \<Rightarrow> bytes \<Rightarrow> int" where
  "py_int_from_bytes e sg bs =
     (let v = le_value (order_bytes e bs); n = length bs
      in if sg \<and> 0 < n \<and> 2 ^ (8 * n - 1) \<le> v then v - 2 ^ (8 * n) else v)"

lemma length_le_bytes [simp]: "length (le_bytes n v) = n"
  by (induction n arbitrary: v) simp_all

lemma length_order_bytes [simp]: "length (order_bytes e bs) = length bs"
  by (cases e) simp_all

lemma order_bytes_twice [simp]: "order_bytes e (order_bytes e bs) = bs"
  by (cases e) simp_all

lemma le_value_bounds: "0 \<le> le_value bs \<and> le_value bs < 2 ^ (8 * length bs)"
proof (induction bs)
  case (Cons b bs)
  have "uint b < 256" and "0 \<le> uint b"
    using uint_bounded [of b] by simp_all
  with Cons show ?case
    by (auto simp: power_add)
qed simp

lemma uint_byte_of_int: "uint (word_of_int v :: byte) = v mod 256"
  by (simp add: uint_word_of_int)

lemma le_value_le_bytes: "le_value (le_bytes n v) = v mod 2 ^ (8 * n)"
proof (induction n arbitrary: v)
  case (Suc n)
  have "v mod (256 * 2 ^ (8 * n)) = 256 * (v div 256 mod 2 ^ (8 * n)) + v mod 256"
    by (rule zmod_zmult2_eq) simp
  with Suc show ?case
    by (simp add: uint_byte_of_int power_add)
qed simp

lemma mod_signed:
  assumes "0 < (n::nat)" and "- (2 ^ (n - 1)) \<le> (v::int)" and "v < 2 ^ (n - 1)"
  shows "(let w = v mod 2 ^ n in if 2 ^ (n - 1) \<le> w then w - 2 ^ n else w) = v"
proof -
  have two: "(2::int) ^ n = 2 * 2 ^ (n - 1)"
    using assms(1) by (cases n) simp_all
  show ?thesis
  proof (cases "0 \<le> v")
    case True
    with assms two have "v mod 2 ^ n = v" by simp
    with assms True show ?thesis by (simp add: Let_def)
  next
    case False
    have "v mod 2 ^ n = (v + 2 ^ n) mod 2 ^ n" by simp
    also have "\<dots> = v + 2 ^ n"
      using assms two False by (intro mod_pos_pos_trivial) auto
    finally show ?thesis
      using assms two False by (simp add: Let_def)
  qed
qed

lemma py_int_roundtrip [codec_simps]:
  assumes "0 < n" and "int_fits sg n v"
  shows "py_int_from_bytes e sg (order_bytes e (le_bytes n v)) = v"
proof (cases sg)
  case True
  with assms mod_signed [of "8 * n" v] show ?thesis
    by (simp add: py_int_from_bytes_def int_fits_def le_value_le_bytes Let_def)
next
  case False
  with assms show ?thesis
    by (simp add: py_int_from_bytes_def int_fits_def le_value_le_bytes)
qed

lemma py_int_from_bytes_bounds:
  "int_fits sg (length bs) (py_int_from_bytes e sg bs)"
proof -
  let ?v = "le_value (order_bytes e bs)" and ?n = "8 * length bs"
  have v: "0 \<le> ?v" "?v < 2 ^ ?n"
    using le_value_bounds [of "order_bytes e bs"] by simp_all
  show ?thesis
  proof (cases "bs = []")
    case True
    then show ?thesis
      by (cases e) (simp_all add: py_int_from_bytes_def int_fits_def)
  next
    case False
    then obtain m where m: "?n = Suc m" by (cases "length bs") auto
    show ?thesis
      using v False unfolding m
      by (auto simp: py_int_from_bytes_def int_fits_def Let_def m)
  qed
qed

lemma py_int_from_bytes_unsigned_nonneg: "0 \<le> py_int_from_bytes e False bs"
  using py_int_from_bytes_bounds [of False bs e] by (simp add: int_fits_def)

section \<open>Decimal notation\<close>

fun show_nat :: "nat \<Rightarrow> pystr" where
  "show_nat n = (if n < 10 then [48 + n] else show_nat (n div 10) @ [48 + n mod 10])"

declare show_nat.simps [simp del]

definition show_int :: "int \<Rightarrow> pystr" where
  "show_int i = (if i < 0 then 45 # show_nat (nat (- i)) else show_nat (nat i))"

definition is_digit :: "nat \<Rightarrow> bool" where
  "is_digit c \<longleftrightarrow> 48 \<le> c \<and> c \<le> 57"

text \<open>\<open>isdecimal\<close> and \<open>isdigit\<close> of an ASCII text.\<close>

definition is_decimal :: "string \<Rightarrow> bool" where
  "is_decimal s \<longleftrightarrow> s \<noteq> [] \<and> list_all is_digit (lit s)"

text \<open>
  \<open>digits_val d acc s\<close>: the digits of \<open>s\<close> after the digits already read into \<open>acc\<close>; single
  underscores may stand between digits (\<open>d\<close>: the previous character was a digit).
\<close>

fun digits_val :: "bool \<Rightarrow> nat \<Rightarrow> pystr \<Rightarrow> nat option" where
  "digits_val d acc [] = (if d then Some acc else None)"
| "digits_val d acc (c # cs) =
     (if is_digit c then digits_val True (10 * acc + (c - 48)) cs
      else if c = 95 \<and> d then digits_val False acc cs
      else None)"

definition is_int_space :: "nat \<Rightarrow> bool" where
  "is_int_space c \<longleftrightarrow> (9 \<le> c \<and> c \<le> 13) \<or> c = 32"

definition nat_result :: "(nat \<Rightarrow> int) \<Rightarrow> nat option \<Rightarrow> int result" where
  "nat_result f r = (case r of None \<Rightarrow> Inl ValueError | Some n \<Rightarrow> Inr (f n))"

text \<open>\<open>int(s)\<close> for ASCII text \<open>s\<close>, and \<open>int(b)\<close> for bytes.\<close>

definition parse_int :: "pystr \<Rightarrow> int result" where
  "parse_int s =
     (case strip_by is_int_space s of
        [] \<Rightarrow> Inl ValueError
      | c # cs \<Rightarrow>
          if c = 45 then nat_result (\<lambda>n. - int n) (digits_val False 0 cs)
          else if c = 43 then nat_result int (digits_val False 0 cs)
          else nat_result int (digits_val False 0 (c # cs)))"

lemma show_nat_digits: "c \<in> set (show_nat n) \<Longrightarrow> is_digit c"
proof (induction n rule: show_nat.induct)
  case (1 n)
  then show ?case
    by (cases "n < 10") (auto simp: show_nat.simps [of n] is_digit_def)
qed

lemma show_nat_nonempty [simp]: "show_nat n \<noteq> []"
  by (subst show_nat.simps) simp

lemma digits_val_append:
  "\<forall>c \<in> set s. is_digit c \<Longrightarrow>
   digits_val d acc (s @ t) =
     digits_val (d \<or> s \<noteq> []) (foldl (\<lambda>a c. 10 * a + (c - 48)) acc s) t"
  by (induction s arbitrary: d acc) auto

lemma show_nat_value: "foldl (\<lambda>a c. 10 * a + (c - 48)) 0 (show_nat n) = n"
proof (induction n rule: show_nat.induct)
  case (1 n)
  then show ?case
    by (cases "n < 10") (simp_all add: show_nat.simps [of n])
qed

lemma digits_val_show_nat: "digits_val False 0 (show_nat n) = Some n"
  using digits_val_append [of "show_nat n" False 0 "[]"] show_nat_digits [of _ n]
  by (simp add: show_nat_value)

lemma digit_facts:
  "is_digit c \<Longrightarrow> \<not> is_space c \<and> \<not> is_int_space c \<and> c \<noteq> 45 \<and> c \<noteq> 43 \<and> c < 128"
  by (auto simp: is_digit_def is_space_def is_int_space_def)

lemma show_int_chars: "c \<in> set (show_int i) \<Longrightarrow> is_digit c \<or> c = 45"
  by (auto simp: show_int_def split: if_splits dest: show_nat_digits)

lemma show_int_not_space:
  assumes "c \<in> set (show_int i)"
  shows "\<not> is_space c \<and> \<not> is_int_space c \<and> c < 128"
  using show_int_chars [OF assms] digit_facts [of c]
  by (auto simp: is_space_def is_int_space_def)

lemma show_int_nonempty [simp]: "show_int i \<noteq> []"
  by (simp add: show_int_def)

lemma unpadded_show_int [simp]: "unpadded (show_int i)"
  using show_int_not_space [of _ i] by (auto simp: unpadded_def)

lemma encodable_show_int [simp]: "encodable e (show_int i)"
proof -
  have "c < enc_limit e" if "c \<in> set (show_int i)" for c
    using show_int_not_space [OF that] by (cases e) auto
  then show ?thesis by (auto simp: encodable_def list_all_iff)
qed

lemma parse_int_core:
  "strip_by is_int_space s = show_int i \<Longrightarrow> parse_int s = Inr i"
proof -
  assume s: "strip_by is_int_space s = show_int i"
  show ?thesis
  proof (cases "i < 0")
    case True
    with s show ?thesis
      by (simp add: parse_int_def show_int_def digits_val_show_nat nat_result_def)
  next
    case False
    obtain c cs where c: "show_nat (nat i) = c # cs"
      by (cases "show_nat (nat i)") auto
    then have "is_digit c" using show_nat_digits [of c "nat i"] by simp
    then have "c \<noteq> 45" "c \<noteq> 43" using digit_facts by auto
    with s False c digits_val_show_nat [of "nat i"] show ?thesis
      by (simp add: parse_int_def show_int_def nat_result_def)
  qed
qed

lemma parse_show_int [codec_simps]: "parse_int (show_int i) = Inr i"
  using show_int_not_space [of "hd (show_int i)" i] show_int_not_space [of "last (show_int i)" i]
  by (intro parse_int_core strip_by_idle) simp_all

text \<open>Text of digits, leading zeros included.\<close>

lemma digits_text:
  assumes "s \<noteq> []" "\<forall>c \<in> set s. is_digit c"
  shows "parse_int s = Inr (int (foldl (\<lambda>a c. 10 * a + (c - 48)) 0 s))" and "encodable Ascii s"
proof -
  from assms have ends: "is_digit (hd s)" "is_digit (last s)" by simp_all
  then have "strip_by is_int_space s = s"
    using digit_facts by (intro strip_by_idle) auto
  moreover obtain c cs where c: "s = c # cs" using assms(1) by (cases s) auto
  moreover have "digits_val False 0 s = Some (foldl (\<lambda>a c. 10 * a + (c - 48)) 0 s)"
    using digits_val_append [of s False 0 "[]"] assms by simp
  moreover have "c \<noteq> 45" "c \<noteq> 43" using assms(2) c digit_facts by auto
  ultimately show "parse_int s = Inr (int (foldl (\<lambda>a c. 10 * a + (c - 48)) 0 s))"
    by (simp add: parse_int_def nat_result_def)
  show "encodable Ascii s" using assms(2) digit_facts by (auto simp: encodable_def list_all_iff)
qed

end
