(* ===== verification/SoupCore.thy ===== *)
theory SoupCore
  imports PyCodec
begin

text \<open>
  The SoupBinTCP messages of \<open>soup/core.py\<close>: the classes and their indicators, \<open>to_bytes\<close> and
  \<open>unpack\<close> of every class over \<open>struct.pack\<close> / \<open>struct.unpack\<close> with the formats the classes
  name, and the dispatch of \<open>SoupMessage.from_bytes\<close>. Shown: the length field of every frame,
  the round trip, the payload limit, and what decoding does with each kind of bad frame.
\<close>

section \<open>The structures packed and unpacked\<close>

text \<open>\<open>struct\<close>: a big-endian signed 16-bit field (\<open>!h\<close>), one byte (\<open>c\<close>), a byte string of
  fixed width (\<open>6s\<close>, \<open>10s\<close>, \<open>20s\<close>: truncated, or padded with zero bytes).\<close>

definition struct_h :: "int \<Rightarrow> bytes result" where
  "struct_h v = (case py_int_to_bytes Big True 2 v of Inl _ \<Rightarrow> Inl StructError | Inr bs \<Rightarrow> Inr bs)"

definition struct_c :: "bytes \<Rightarrow> bytes result" where
  "struct_c bs = (if length bs = 1 then Inr bs else Inl StructError)"

definition struct_s :: "nat \<Rightarrow> bytes \<Rightarrow> bytes" where
  "struct_s n bs = take n bs @ replicate (n - length bs) 0"

definition struct_unpack_h :: "bytes \<Rightarrow> int" where
  "struct_unpack_h bs = py_int_from_bytes Big True (take 2 bs)"

text \<open>\<open>struct.unpack(Format, bytes)\<close> wants exactly the bytes of the format.\<close>

definition struct_check :: "nat \<Rightarrow> bytes \<Rightarrow> unit result" where
  "struct_check n bs = (if length bs = n then Inr () else Inl StructError)"

definition pack_text :: "pystr \<Rightarrow> nat \<Rightarrow> bytes result" where
  "pack_text data field_size = encode Ascii (ljust data field_size)"

definition unpack_string :: "bytes \<Rightarrow> pystr result" where
  "unpack_string bs = rbind (decode Ascii bs) (\<lambda>s. Inr (py_strip s))"

definition unpack_int :: "bytes \<Rightarrow> int result" where
  "unpack_int bs = parse_int (map unat (strip_by (\<lambda>b. b = 32 \<or> b = 0) bs))"

section \<open>Messages and classes\<close>

datatype LoginRejectReason = NOT_AUTHORIZED | SESSION_NOT_AVAILABLE

fun reason_value :: "LoginRejectReason \<Rightarrow> pystr" where
  "reason_value NOT_AUTHORIZED = lit ''A''"
| "reason_value SESSION_NOT_AVAILABLE = lit ''S''"

definition reason_get :: "pystr \<Rightarrow> LoginRejectReason result" where
  "reason_get r =
     (if r = reason_value NOT_AUTHORIZED then Inr NOT_AUTHORIZED
      else if r = reason_value SESSION_NOT_AVAILABLE then Inr SESSION_NOT_AVAILABLE
      else Inl ValueError)"

datatype SoupMessage =
    LoginRequest (lr_user: pystr) (lr_password: pystr) (lr_session: pystr) (lr_sequence: pystr)
  | LoginAccepted (la_session_id: pystr) (la_sequence: int)
  | LoginRejected (lj_reason: LoginRejectReason)
  | SequencedData (msg_data: bytes)
  | UnSequencedData (msg_data: bytes)
  | Debug (debug_msg: pystr)
  | ClientHeartbeat
  | ServerHeartbeat
  | EndOfSession
  | LogoutRequest

datatype soup_class =
    LoginRequestC | LoginAcceptedC | LoginRejectedC | SequencedDataC | UnSequencedDataC | DebugC
  | ClientHeartbeatC | ServerHeartbeatC | EndOfSessionC | LogoutRequestC

fun class_of :: "SoupMessage \<Rightarrow> soup_class" where
  "class_of (LoginRequest _ _ _ _) = LoginRequestC"
| "class_of (LoginAccepted _ _) = LoginAcceptedC"
| "class_of (LoginRejected _) = LoginRejectedC"
| "class_of (SequencedData _) = SequencedDataC"
| "class_of (UnSequencedData _) = UnSequencedDataC"
| "class_of (Debug _) = DebugC"
| "class_of ClientHeartbeat = ClientHeartbeatC"
| "class_of ServerHeartbeat = ServerHeartbeatC"
| "class_of EndOfSession = EndOfSessionC"
| "class_of LogoutRequest = LogoutRequestC"

text \<open>The \<open>indicator\<close> each class is declared with, in the order of the declarations, and the
  dictionary \<open>__init_subclass__\<close> fills from them.\<close>

definition declared_classes :: "(nat \<times> soup_class) list" where
  "declared_classes =
     [(of_char (CHR ''L''), LoginRequestC), (of_char (CHR ''A''), LoginAcceptedC),
      (of_char (CHR ''J''), LoginRejectedC), (of_char (CHR ''S''), SequencedDataC),
      (of_char (CHR ''U''), UnSequencedDataC), (of_char (CHR ''+''), DebugC),
      (of_char (CHR ''R''), ClientHeartbeatC), (of_char (CHR ''H''), ServerHeartbeatC),
      (of_char (CHR ''Z''), EndOfSessionC), (of_char (CHR ''O''), LogoutRequestC)]"

definition init_subclass :: "nat \<times> soup_class \<Rightarrow> (nat \<rightharpoonup> soup_class) \<Rightarrow> (nat \<rightharpoonup> soup_class)" where
  "init_subclass d reg = reg(fst d \<mapsto> snd d)"

definition ClassByIndicator :: "nat \<rightharpoonup> soup_class" where
  "ClassByIndicator = fold init_subclass declared_classes Map.empty"

definition Indicator :: "soup_class \<Rightarrow> nat" where
  "Indicator c = fst (the (find (\<lambda>d. snd d = c) declared_classes))"

definition ind_byte :: "SoupMessage \<Rightarrow> byte" where
  "ind_byte m = of_nat (Indicator (class_of m))"

definition is_heartbeat :: "SoupMessage \<Rightarrow> bool" where
  "is_heartbeat m = (class_of m \<in> {ClientHeartbeatC, ServerHeartbeatC})"

definition is_logout :: "SoupMessage \<Rightarrow> bool" where
  "is_logout m = (class_of m \<in> {EndOfSessionC, LogoutRequestC})"

section \<open>Serialization\<close>

definition with_len :: "bytes \<Rightarrow> nat \<times> bytes" where
  "with_len bs = (length bs, bs)"

text \<open>\<open>struct.pack('!h c', n, indicator)\<close>: the first three bytes of every frame.\<close>

definition pack_header :: "int \<Rightarrow> SoupMessage \<Rightarrow> bytes result" where
  "pack_header n m = rbind (struct_h n) (\<lambda>h. rbind (struct_c [ind_byte m]) (\<lambda>c. Inr (h @ c)))"

fun soup_to_bytes :: "SoupMessage \<Rightarrow> (nat \<times> bytes) result" where
  "soup_to_bytes (LoginRequest u p s q) =
     rbind (pack_text u 6) (\<lambda>ub. rbind (pack_text p 10) (\<lambda>pb.
     rbind (pack_text s 10) (\<lambda>sb. rbind (pack_text q 20) (\<lambda>qb.
     rbind (pack_header 47 (LoginRequest u p s q)) (\<lambda>h.
       Inr (with_len (h @ struct_s 6 ub @ struct_s 10 pb @ struct_s 10 sb @ struct_s 20 qb)))))))"
| "soup_to_bytes (LoginAccepted s q) =
     rbind (pack_text s 10) (\<lambda>sb. rbind (pack_text (show_int q) 20) (\<lambda>qb.
     rbind (pack_header 31 (LoginAccepted s q)) (\<lambda>h.
       Inr (with_len (h @ struct_s 10 sb @ struct_s 20 qb)))))"
| "soup_to_bytes (LoginRejected r) =
     rbind (encode Ascii (reason_value r)) (\<lambda>rb.
     rbind (pack_header 2 (LoginRejected r)) (\<lambda>h.
     rbind (struct_c rb) (\<lambda>c. Inr (with_len (h @ c)))))"
| "soup_to_bytes (SequencedData d) =
     rbind (pack_header (int (length d) + 1) (SequencedData d)) (\<lambda>h. Inr (with_len (h @ d)))"
| "soup_to_bytes (UnSequencedData d) =
     rbind (pack_header (int (length d) + 1) (UnSequencedData d)) (\<lambda>h. Inr (with_len (h @ d)))"
| "soup_to_bytes (Debug t) =
     rbind (pack_header (int (length t) + 1) (Debug t)) (\<lambda>h.
     rbind (encode Ascii t) (\<lambda>d. Inr (with_len (h @ d))))"
| "soup_to_bytes m = rbind (pack_header 1 m) (\<lambda>h. Inr (with_len h))"

section \<open>Deserialization\<close>

text \<open>\<open>SoupMessage.unpack\<close>, inherited by the classes without fields: exactly three bytes.\<close>

definition unpack_plain :: "SoupMessage \<Rightarrow> bytes \<Rightarrow> SoupMessage result" where
  "unpack_plain m bs =
     (case struct_check 3 bs of Inl _ \<Rightarrow> Inl InvalidSoupMessage | Inr _ \<Rightarrow> Inr m)"

text \<open>The payload classes read the length field as signed and take the rest of the frame.\<close>

definition unpack_payload :: "bytes \<Rightarrow> bytes result" where
  "unpack_payload bs =
     rbind (struct_check 3 (take 3 bs)) (\<lambda>_.
       Inr (if 1 < struct_unpack_h (take 3 bs) then drop 3 bs else []))"

fun soup_unpack :: "soup_class \<Rightarrow> bytes \<Rightarrow> SoupMessage result" where
  "soup_unpack LoginRequestC bs =
     rbind (struct_check 49 bs) (\<lambda>_.
     rbind (unpack_string (take 6 (drop 3 bs))) (\<lambda>u.
     rbind (unpack_string (take 10 (drop 9 bs))) (\<lambda>p.
     rbind (unpack_string (take 10 (drop 19 bs))) (\<lambda>s.
     rbind (unpack_int (take 20 (drop 29 bs))) (\<lambda>q.
       Inr (LoginRequest u p s (show_int q)))))))"
| "soup_unpack LoginAcceptedC bs =
     rbind (struct_check 33 bs) (\<lambda>_.
     rbind (unpack_string (take 10 (drop 3 bs))) (\<lambda>s.
     rbind (unpack_int (take 20 (drop 13 bs))) (\<lambda>q. Inr (LoginAccepted s q))))"
| "soup_unpack LoginRejectedC bs =
     rbind (struct_check 4 bs) (\<lambda>_.
     rbind (unpack_string (take 1 (drop 3 bs))) (\<lambda>r.
     rbind (reason_get r) (\<lambda>v. Inr (LoginRejected v))))"
| "soup_unpack SequencedDataC bs = rbind (unpack_payload bs) (\<lambda>d. Inr (SequencedData d))"
| "soup_unpack UnSequencedDataC bs = rbind (unpack_payload bs) (\<lambda>d. Inr (UnSequencedData d))"
| "soup_unpack DebugC bs =
     rbind (unpack_payload bs) (\<lambda>d. rbind (decode Ascii d) (\<lambda>t. Inr (Debug t)))"
| "soup_unpack ClientHeartbeatC bs = unpack_plain ClientHeartbeat bs"
| "soup_unpack ServerHeartbeatC bs = unpack_plain ServerHeartbeat bs"
| "soup_unpack EndOfSessionC bs = unpack_plain EndOfSession bs"
| "soup_unpack LogoutRequestC bs = unpack_plain LogoutRequest bs"

text \<open>\<open>SoupMessage.from_bytes\<close>: a missing third byte, an unknown indicator, and any
  \<open>KeyError\<close> or \<open>IndexError\<close> of \<open>unpack\<close> become \<open>InvalidSoupMessage\<close>; other exceptions of
  \<open>unpack\<close> pass through.\<close>

definition as_invalid :: "'a result \<Rightarrow> 'a result" where
  "as_invalid r = (case r of
       Inl e \<Rightarrow> Inl (if e = KeyError \<or> e = IndexError then InvalidSoupMessage else e)
     | Inr x \<Rightarrow> Inr x)"

definition soup_from_bytes :: "bytes \<Rightarrow> (nat \<times> SoupMessage) result" where
  "soup_from_bytes bs =
     (if length bs < 3 then Inl InvalidSoupMessage
      else case ClassByIndicator (unat (bs ! 2)) of
             None \<Rightarrow> Inl InvalidSoupMessage
           | Some c \<Rightarrow> as_invalid (rbind (soup_unpack c bs) (\<lambda>m. Inr (length bs, m))))"

section \<open>Lemmas\<close>

lemma Indicator_simps [simp]:
  "Indicator LoginRequestC = 76" "Indicator LoginAcceptedC = 65" "Indicator LoginRejectedC = 74"
  "Indicator SequencedDataC = 83" "Indicator UnSequencedDataC = 85" "Indicator DebugC = 43"
  "Indicator ClientHeartbeatC = 82" "Indicator ServerHeartbeatC = 72"
  "Indicator EndOfSessionC = 90" "Indicator LogoutRequestC = 79"
  by (simp_all add: Indicator_def declared_classes_def)

lemma ClassByIndicator_Indicator [simp]: "ClassByIndicator (Indicator c) = Some c"
  by (cases c) (simp_all add: ClassByIndicator_def declared_classes_def init_subclass_def)

lemma Indicator_less: "Indicator c < 128"
  by (cases c) simp_all

lemma unat_ind_byte [simp]: "unat (ind_byte m) = Indicator (class_of m)"
  using Indicator_less [of "class_of m"] by (simp add: ind_byte_def unat_of_nat)

lemma length_struct_s [simp]: "length (struct_s n bs) = n"
  by (simp add: struct_s_def)

lemma struct_s_fit [simp]: "length bs = n \<Longrightarrow> struct_s n bs = bs"
  by (simp add: struct_s_def)

text \<open>A 16-bit length: what \<open>!h\<close> packs, and what reading it signed or unsigned gives.\<close>

definition be16 :: "int \<Rightarrow> bytes" where
  "be16 v = order_bytes Big (le_bytes 2 v)"

lemma length_be16 [simp]: "length (be16 v) = 2"
  by (simp add: be16_def)

lemma struct_h_eq: "struct_h v = (if - 32768 \<le> v \<and> v < 32768 then Inr (be16 v) else Inl StructError)"
  by (simp add: struct_h_def py_int_to_bytes_def int_fits_def be16_def)

lemma be16_unsigned: "0 \<le> v \<Longrightarrow> v < 65536 \<Longrightarrow> py_int_from_bytes Big False (be16 v) = v"
  using py_int_roundtrip [of 2 False v Big] by (simp add: be16_def int_fits_def)

lemma be16_signed: "- 32768 \<le> v \<Longrightarrow> v < 32768 \<Longrightarrow> py_int_from_bytes Big True (be16 v) = v"
  using py_int_roundtrip [of 2 True v Big] by (simp add: be16_def int_fits_def)

lemma be16_shift: "be16 (v - 65536) = be16 v"
proof -
  have "(v - 65536) div 256 = v div 256 - 256" by simp
  moreover have "word_of_int (a - 256) = (word_of_int a :: byte)" for a
    unfolding word_of_int_eq_iff by (simp add: take_bit_eq_mod)
  moreover have "word_of_int (v - 65536) = (word_of_int v :: byte)"
    using mod_mult_self2 [of v 256 "- 256"]
    unfolding word_of_int_eq_iff take_bit_eq_mod by simp
  ultimately show ?thesis by (simp add: be16_def numeral_2_eq_2)
qed

lemma be16_signed_large:
  "32768 \<le> v \<Longrightarrow> v < 65536 \<Longrightarrow> py_int_from_bytes Big True (be16 v) = v - 65536"
  using be16_signed [of "v - 65536"] by (simp add: be16_shift)

lemma pack_header_eq:
  "pack_header n m =
     (if - 32768 \<le> n \<and> n < 32768 then Inr (be16 n @ [ind_byte m]) else Inl StructError)"
  by (simp add: pack_header_def struct_h_eq struct_c_def)

lemma pack_text_ok [codec_simps]:
  "encodable Ascii s \<Longrightarrow> pack_text s n = Inr (map of_nat (ljust s n))"
  by (simp add: pack_text_def codec_simps)

lemma unpack_string_ok [codec_simps]:
  "encodable Ascii s \<Longrightarrow> unpadded s \<Longrightarrow>
   unpack_string (map of_nat (ljust s n)) = Inr s"
  by (simp add: unpack_string_def codec_simps)

lemma unpack_int_ok [codec_simps]:
  "unpack_int (map of_nat (ljust (show_int i) n)) = Inr i"
proof -
  let ?p = "\<lambda>b::byte. b = 32 \<or> b = 0"
  have byte: "\<not> ?p (of_nat c)" if "c \<in> set (show_int i)" for c
  proof -
    have c: "\<not> is_space c" "c < 128" "is_digit c \<or> c = 45"
      using show_int_not_space [OF that] show_int_chars [OF that] by auto
    have "unat (of_nat c :: byte) = c" using c by (intro unat_of_nat_byte) simp
    moreover have "c \<noteq> 32 \<and> c \<noteq> 0" using c by (auto simp: is_digit_def)
    ultimately show ?thesis by auto
  qed
  have "strip_by ?p (map of_nat (show_int i) @ replicate (n - length (show_int i)) 32) =
      map of_nat (show_int i)"
    by (rule strip_by_right_pad) (auto simp: hd_map last_map byte)
  moreover have "map unat (map (of_nat :: nat \<Rightarrow> byte) (show_int i)) = show_int i"
    using decode_map_of_nat [OF encodable_show_int [of Ascii i]] by (auto simp: decode_def split: if_splits)
  ultimately show ?thesis
    by (simp add: unpack_int_def ljust_def codec_simps)
qed

text \<open>Every frame is a header and a body.\<close>

definition frame :: "int \<Rightarrow> SoupMessage \<Rightarrow> bytes \<Rightarrow> bytes" where
  "frame n m body = be16 n @ ind_byte m # body"

lemma length_frame [simp]: "length (frame n m body) = 3 + length body"
  by (simp add: frame_def)

lemma frame_body [simp]: "drop 3 (frame n m body) = body"
  by (simp add: frame_def)

lemma frame_take_2 [simp]: "take 2 (frame n m body) = be16 n"
  by (simp add: frame_def)

lemma frame_ind [simp]: "frame n m body ! 2 = ind_byte m"
  by (simp add: frame_def nth_append)

lemma soup_to_bytes_frame:
  assumes "soup_to_bytes m = Inr (n, bs)"
  obtains body where "bs = frame (int (length body) + 1) m body" and "n = length bs"
    and "length body < 32767"
proof -
  have "\<exists>body. bs = frame (int (length body) + 1) m body \<and> n = length bs \<and> length body < 32767"
    using assms
    by (cases m) (auto simp: result_simps pack_header_eq with_len_def frame_def struct_c_def
        encode_eq_Inr split: if_splits)
  then show ?thesis using that by blast
qed

lemma soup_from_bytes_frame:
  "soup_from_bytes (frame n m body) =
     as_invalid (rbind (soup_unpack (class_of m) (frame n m body)) (\<lambda>r. Inr (length body + 3, r)))"
  by (simp add: soup_from_bytes_def add.commute)

lemma unpack_payload_frame [codec_simps]:
  assumes "- 32768 \<le> n" and "n < 32768"
  shows "unpack_payload (frame n m body) = Inr (if 1 < n then body else [])"
proof -
  have "take 2 (take 3 (frame n m body)) = be16 n"
    by (simp add: take_take)
  with assms show ?thesis
    by (simp add: unpack_payload_def struct_check_def struct_unpack_h_def be16_signed)
qed

text \<open>The messages a frame carries unchanged.\<close>

definition field_ok :: "nat \<Rightarrow> pystr \<Rightarrow> bool" where
  "field_ok n s \<longleftrightarrow> encodable Ascii s \<and> length s \<le> n \<and> unpadded s"

definition canonical_int :: "pystr \<Rightarrow> bool" where
  "canonical_int s = (case parse_int s of Inl _ \<Rightarrow> False | Inr i \<Rightarrow> show_int i = s)"

fun valid_soup :: "SoupMessage \<Rightarrow> bool" where
  "valid_soup (LoginRequest u p s q) \<longleftrightarrow>
     field_ok 6 u \<and> field_ok 10 p \<and> field_ok 10 s \<and> canonical_int q \<and> length q \<le> 20"
| "valid_soup (LoginAccepted s q) \<longleftrightarrow> field_ok 10 s \<and> length (show_int q) \<le> 20"
| "valid_soup (SequencedData d) \<longleftrightarrow> length d < 32767"
| "valid_soup (UnSequencedData d) \<longleftrightarrow> length d < 32767"
| "valid_soup (Debug t) \<longleftrightarrow> encodable Ascii t \<and> length t < 32767"
| "valid_soup _ \<longleftrightarrow> True"

lemma canonical_show_int [simp]: "canonical_int (show_int i)"
  by (simp add: canonical_int_def parse_show_int)

lemma canonical_intD: "canonical_int s \<Longrightarrow> \<exists>i. s = show_int i"
  by (auto simp: canonical_int_def split: sum.splits)

lemma reason_get_value [simp]:
  "rbind (unpack_string (map of_nat (reason_value r))) reason_get = Inr r"
  "length (reason_value r) = 1" "encodable Ascii (reason_value r)"
  by (cases r; simp add: unpack_string_def lit_def decode_def py_strip_def strip_by_def
      is_space_def reason_get_def)+

lemma roundtrip_login_request:
  assumes "field_ok 6 u" "field_ok 10 p" "field_ok 10 s" "canonical_int q" "length q \<le> 20"
  shows "\<exists>bs. soup_to_bytes (LoginRequest u p s q) = Inr (length bs, bs) \<and>
    soup_from_bytes bs = Inr (length bs, LoginRequest u p s q)"
proof -
  obtain i where q: "q = show_int i" using canonical_intD [OF assms(4)] by auto
  define body :: bytes where
    "body = map of_nat (ljust u 6) @ map of_nat (ljust p 10) @ map of_nat (ljust s 10) @
       map of_nat (ljust q 20)"
  let ?m = "LoginRequest u p s q"
  have enc: "soup_to_bytes ?m = Inr (with_len (frame 47 ?m body))"
    using assms q
    by (simp add: codec_simps field_ok_def pack_header_eq frame_def body_def)
  have dec: "soup_unpack LoginRequestC (frame 47 ?m body) = Inr ?m"
  proof -
    have at: "drop (k + 3) (frame 47 ?m body) = drop k body" for k
      using drop_drop [of k 3 "frame 47 ?m body"] by simp
    have "take 6 (drop 3 (frame 47 ?m body)) = map of_nat (ljust u 6)"
      and "take 10 (drop 9 (frame 47 ?m body)) = map of_nat (ljust p 10)"
      and "take 10 (drop 19 (frame 47 ?m body)) = map of_nat (ljust s 10)"
      and "take 20 (drop 29 (frame 47 ?m body)) = map of_nat (ljust q 20)"
      using at [of 0] at [of 6] at [of 16] at [of 26] assms
      by (simp_all add: body_def field_ok_def)
    moreover have "length (frame 47 ?m body) = 49"
      using assms by (simp add: body_def field_ok_def)
    ultimately show ?thesis
      using assms q by (simp add: struct_check_def codec_simps field_ok_def)
  qed
  have "length body = 46" using assms by (simp add: body_def field_ok_def)
  with enc dec show ?thesis
    by (intro exI [of _ "frame 47 ?m body"])
      (simp add: with_len_def soup_from_bytes_frame as_invalid_def)
qed

lemma roundtrip_login_accepted:
  assumes "field_ok 10 s" "length (show_int q) \<le> 20"
  shows "\<exists>bs. soup_to_bytes (LoginAccepted s q) = Inr (length bs, bs) \<and>
    soup_from_bytes bs = Inr (length bs, LoginAccepted s q)"
proof -
  define body :: bytes where
    "body = map of_nat (ljust s 10) @ map of_nat (ljust (show_int q) 20)"
  let ?m = "LoginAccepted s q"
  have len: "length body = 30" using assms by (simp add: body_def field_ok_def)
  have enc: "soup_to_bytes ?m = Inr (with_len (frame 31 ?m body))"
    using assms by (simp add: codec_simps field_ok_def pack_header_eq frame_def body_def)
  have "take 10 (drop 3 (frame 31 ?m body)) = map of_nat (ljust s 10)"
    and "take 20 (drop 13 (frame 31 ?m body)) = map of_nat (ljust (show_int q) 20)"
    using assms drop_drop [of 10 3 "frame 31 ?m body"]
    by (simp_all add: body_def field_ok_def)
  then have "soup_unpack LoginAcceptedC (frame 31 ?m body) = Inr ?m"
    using assms len by (simp add: struct_check_def codec_simps field_ok_def)
  with enc len show ?thesis
    by (intro exI [of _ "frame 31 ?m body"])
      (simp add: with_len_def soup_from_bytes_frame as_invalid_def)
qed

lemma roundtrip_login_rejected:
  "\<exists>bs. soup_to_bytes (LoginRejected r) = Inr (length bs, bs) \<and>
    soup_from_bytes bs = Inr (length bs, LoginRejected r)"
proof -
  let ?m = "LoginRejected r" and ?body = "map of_nat (reason_value r) :: bytes"
  have enc: "soup_to_bytes ?m = Inr (with_len (frame 2 ?m ?body))"
    by (simp add: codec_simps pack_header_eq frame_def struct_c_def)
  obtain s where "unpack_string ?body = Inr s" and "reason_get s = Inr r"
    using reason_get_value(1) [of r] unfolding rbind_eq_Inr by blast
  then have "soup_unpack LoginRejectedC (frame 2 ?m ?body) = Inr ?m"
    by (simp add: struct_check_def)
  with enc show ?thesis
    by (intro exI [of _ "frame 2 ?m ?body"])
      (simp add: with_len_def soup_from_bytes_frame as_invalid_def)
qed

lemma roundtrip_payload:
  assumes "length d < 32767" and "soup_to_bytes m = Inr (with_len (frame (int (length d) + 1) m d))"
    and "\<And>n. soup_unpack (class_of m) (frame n m d) = rbind (unpack_payload (frame n m d)) f"
    and "f d = Inr m"
  shows "\<exists>bs. soup_to_bytes m = Inr (length bs, bs) \<and> soup_from_bytes bs = Inr (length bs, m)"
  using assms
  by (intro exI [of _ "frame (int (length d) + 1) m d"])
    (auto simp add: with_len_def soup_from_bytes_frame as_invalid_def codec_simps)

lemma roundtrip_plain:
  assumes "m \<in> {ClientHeartbeat, ServerHeartbeat, EndOfSession, LogoutRequest}"
  shows "\<exists>bs. soup_to_bytes m = Inr (length bs, bs) \<and> soup_from_bytes bs = Inr (length bs, m)"
  using assms
  by (intro exI [of _ "frame 1 m []"])
    (auto simp: soup_from_bytes_frame pack_header_eq with_len_def as_invalid_def unpack_plain_def
      struct_check_def, simp_all add: frame_def)

lemma soup_decode_encode:
  assumes "valid_soup m"
  shows "\<exists>bs. soup_to_bytes m = Inr (length bs, bs) \<and> soup_from_bytes bs = Inr (length bs, m)"
proof (cases m)
  case (LoginRequest u p s q)
  with assms show ?thesis by (simp add: roundtrip_login_request del: soup_to_bytes.simps)
next
  case (LoginAccepted s q)
  with assms show ?thesis by (simp add: roundtrip_login_accepted del: soup_to_bytes.simps)
next
  case (LoginRejected r)
  then show ?thesis by (simp add: roundtrip_login_rejected del: soup_to_bytes.simps)
next
  case (SequencedData d)
  with assms show ?thesis
    by (intro roundtrip_payload [of d m "\<lambda>d. Inr (SequencedData d)"])
      (simp_all add: pack_header_eq frame_def)
next
  case (UnSequencedData d)
  with assms show ?thesis
    by (intro roundtrip_payload [of d m "\<lambda>d. Inr (UnSequencedData d)"])
      (simp_all add: pack_header_eq frame_def)
next
  case (Debug t)
  with assms show ?thesis
    by (intro roundtrip_payload
        [of "map of_nat t" m "\<lambda>d. rbind (decode Ascii d) (\<lambda>t. Inr (Debug t))"])
      (simp_all add: pack_header_eq frame_def codec_simps)
qed (simp_all add: roundtrip_plain del: soup_to_bytes.simps)

lemma soup_valid_encodes:
  "valid_soup m \<Longrightarrow> \<exists>bs. soup_to_bytes m = Inr (length bs, bs)"
  using soup_decode_encode by blast

text \<open>Which exceptions decoding can raise.\<close>

lemma parse_int_error: "parse_int s = Inl e \<Longrightarrow> e = ValueError"
  by (auto simp: parse_int_def nat_result_def split: list.splits if_splits option.splits)

lemma decode_error: "decode c bs = Inl e \<Longrightarrow> e = UnicodeDecodeError"
  by (auto simp: decode_def split: if_splits)

lemma unpack_error:
  "soup_unpack c bs = Inl e \<Longrightarrow> e \<in> {StructError, InvalidSoupMessage, UnicodeDecodeError, ValueError}"
  by (cases c) (auto simp: result_simps struct_check_def unpack_string_def unpack_int_def
      unpack_plain_def unpack_payload_def reason_get_def
      split: if_splits sum.splits dest: parse_int_error decode_error)

section \<open>Properties\<close>

text \<open>
  C5: round trip. Every SoupBinTCP message whose fields fit their columns is packed to a frame
  which \<open>SoupMessage.from_bytes\<close> unpacks to the same message, consuming the whole frame.
\<close>
theorem soup_roundtrip:
  assumes "valid_soup m"
  shows "\<exists>bs. soup_to_bytes m = Inr (length bs, bs) \<and> soup_from_bytes bs = Inr (length bs, m)"
  using assms by (rule soup_decode_encode)

theorem soup_roundtrip_witness:
  "\<exists>bs. soup_to_bytes (LoginRequest (lit ''nouser'') (lit ''nopassword'') (lit ''session'') (lit ''1'')) =
      Inr (length bs, bs) \<and>
    soup_from_bytes bs =
      Inr (length bs, LoginRequest (lit ''nouser'') (lit ''nopassword'') (lit ''session'') (lit ''1''))"
proof (rule soup_roundtrip)
  have q: "show_int 1 = lit ''1''" by (simp add: lit_def show_int_def show_nat.simps)
  have "canonical_int (lit ''1'')" using canonical_show_int [of 1] by (simp add: q)
  then show "valid_soup (LoginRequest (lit ''nouser'') (lit ''nopassword'') (lit ''session'') (lit ''1''))"
    by (simp add: field_ok_def) (simp add: lit_def unpadded_def is_space_def)
qed

text \<open>
  framing. Whatever message is packed successfully, the reported length is the length of
  the bytes, the first two bytes read as an unsigned big-endian number are the number of bytes
  that follow them, and the third byte is the indicator of the message's class.
\<close>
theorem soup_frame_length:
  assumes "soup_to_bytes m = Inr (n, bs)"
  shows "n = length bs \<and> 3 \<le> n \<and> py_int_from_bytes Big False (take 2 bs) = int n - 2 \<and>
    bs ! 2 = of_nat (Indicator (class_of m))"
proof -
  from assms obtain body where "bs = frame (int (length body) + 1) m body" "n = length bs"
    "length body < 32767"
    by (rule soup_to_bytes_frame)
  then show ?thesis by (simp add: be16_unsigned ind_byte_def)
qed

theorem soup_frame_length_witness:
  "length (blit [CHR 0x00, CHR 0x02] @ blit ''JA'') = 4 \<and> (3::nat) \<le> 4 \<and>
   py_int_from_bytes Big False (take 2 (blit [CHR 0x00, CHR 0x02] @ blit ''JA'')) = int 4 - 2 \<and>
   (blit [CHR 0x00, CHR 0x02] @ blit ''JA'') ! 2 = of_nat (Indicator (class_of (LoginRejected NOT_AUTHORIZED)))"
proof -
  have "soup_to_bytes (LoginRejected NOT_AUTHORIZED) =
      Inr (4, blit [CHR 0x00, CHR 0x02] @ blit ''JA'')"
    by code_simp
  from soup_frame_length [OF this] show ?thesis by simp
qed

text \<open>
  payload limit. A sequenced or unsequenced payload is packed exactly when it has at most
  32766 bytes: the length is packed as a signed 16-bit field, and anything longer raises
  \<open>struct.error\<close>.
\<close>
theorem soup_payload_limit:
  "soup_to_bytes (SequencedData d) =
     (if length d \<le> 32766 then Inr (length d + 3, be16 (int (length d) + 1) @ 83 # d)
      else Inl StructError) \<and>
   soup_to_bytes (UnSequencedData d) =
     (if length d \<le> 32766 then Inr (length d + 3, be16 (int (length d) + 1) @ 85 # d)
      else Inl StructError)"
  by (auto simp: pack_header_eq with_len_def ind_byte_def)

text \<open>
  C6: a frame whose unsigned length field is 32768 or more loses its payload. The reader takes
  the length as unsigned, but \<open>SequencedData.unpack\<close> reads the same two bytes as signed, finds
  a negative number and returns an empty payload without an error.
\<close>
theorem soup_large_payload_lost:
  assumes "32767 \<le> length d" and "length d \<le> 65534"
  shows "py_int_from_bytes Big False (take 2 (be16 (int (length d) + 1) @ 83 # d)) = int (length d) + 1 \<and>
    soup_from_bytes (be16 (int (length d) + 1) @ 83 # d) = Inr (length d + 3, SequencedData [])"
proof -
  let ?n = "int (length d) + 1"
  have f: "be16 ?n @ 83 # d = frame ?n (SequencedData []) d"
    by (simp add: frame_def ind_byte_def)
  have "struct_unpack_h (take 3 (frame ?n (SequencedData []) d)) = ?n - 65536"
    using assms by (simp add: struct_unpack_h_def take_take be16_signed_large)
  then have "unpack_payload (frame ?n (SequencedData []) d) = Inr []"
    using assms by (simp add: unpack_payload_def struct_check_def)
  with assms show ?thesis
    by (simp add: f soup_from_bytes_frame as_invalid_def be16_unsigned)
qed

theorem soup_large_payload_lost_witness:
  "32767 \<le> length (replicate 32767 (0::byte)) \<and>
   soup_from_bytes (be16 (int (length (replicate 32767 (0::byte))) + 1) @ 83 # replicate 32767 0) =
     Inr (length (replicate 32767 (0::byte)) + 3, SequencedData [])"
  using soup_large_payload_lost [of "replicate 32767 0"] by simp

text \<open>
  errors. Decoding a frame never raises \<open>KeyError\<close> or \<open>IndexError\<close>: a frame too short for an
  indicator and an unknown indicator give \<open>InvalidSoupMessage\<close>, as does a wrong length of a
  message without fields. Malformed fields raise \<open>struct.error\<close>, \<open>UnicodeDecodeError\<close> or
  \<open>ValueError\<close>, which are not converted.
\<close>
theorem soup_from_bytes_errors:
  "soup_from_bytes bs = Inl e \<Longrightarrow>
     e \<in> {InvalidSoupMessage, StructError, UnicodeDecodeError, ValueError} \<and>
     ((length bs < 3 \<or> ClassByIndicator (unat (bs ! 2)) = None) \<longrightarrow> e = InvalidSoupMessage)"
  using unpack_error
  by (fastforce simp: soup_from_bytes_def as_invalid_def result_simps
      split: if_splits option.splits sum.splits)

theorem soup_from_bytes_errors_witness:
  "InvalidSoupMessage \<in> {InvalidSoupMessage, StructError, UnicodeDecodeError, ValueError} \<and>
   soup_from_bytes (blit [CHR 0x00, CHR 0x02, CHR ''>'']) = Inl InvalidSoupMessage"
proof -
  have "soup_from_bytes (blit [CHR 0x00, CHR 0x02, CHR ''>'']) = Inl InvalidSoupMessage"
    by code_simp
  with soup_from_bytes_errors [OF this] show ?thesis by simp
qed

end
