(* ===== verification/Reader.thy ===== *)
theory Reader
  imports Prelude
begin

text \<open>
  The class \<open>Reader\<close> of \<open>common/session.py\<close>: a byte buffer with a read position, the loop
  \<open>_process\<close> which repeatedly deserializes one message and hands it to \<open>on_msg_coro\<close>, the
  stop logic, and \<open>buffer_until_drained\<close>. \<open>deserialize\<close> is abstract in the code and an argument
  here; the locale \<open>framing\<close> states what an implementation promises, and the delivery theorem
  (every chunking of the byte stream delivers the same messages) is proved from it once.
\<close>

section \<open>State and operations\<close>

text \<open>
  \<open>rtask\<close> is the state of the task that runs \<open>_process\<close>: an exception that \<open>_process_1\<close> does not
  catch ends the task (\<open>Failed\<close>) and nothing else happens. \<open>delivered\<close> is the sequence of
  messages passed to \<open>on_msg_coro\<close>, \<open>close_calls\<close> the number of calls of \<open>on_close_coro\<close>.
  \<open>drain_mode\<close> is the event of \<open>buffer_until_drained\<close>, with its flag.
\<close>

datatype rtask = Running | Done | Failed exn

record 'm reader =
  rbuffer :: bytes
  read_pos :: int
  drain_buffer :: "bytes option"
  drain_mode :: "bool option"
  stopped :: bool
  rtask :: rtask
  delivered :: "'m list"
  close_calls :: nat

type_synonym 'm deserializer =
  "bytes \<Rightarrow> int \<Rightarrow> (('m option \<times> bool \<times> bool) \<times> bytes \<times> int) result"

definition new_reader :: "'m reader" where
  "new_reader = \<lparr>rbuffer = [], read_pos = 0, drain_buffer = None, drain_mode = None,
     stopped = False, rtask = Running, delivered = [], close_calls = 0\<rparr>"

definition available :: "'m reader \<Rightarrow> int" where
  "available r = int (length (rbuffer r)) - read_pos r"

definition on_data :: "bytes \<Rightarrow> 'm reader \<Rightarrow> 'm reader" where
  "on_data bs r =
     (if length bs = 0 then r
      else case drain_buffer r of
             Some d \<Rightarrow> r\<lparr>drain_buffer := Some (d @ bs)\<rparr>
           | None \<Rightarrow> r\<lparr>rbuffer := rbuffer r @ bs\<rparr>)"

text \<open>\<open>stop\<close> cancels the task, awaits \<open>on_close_coro\<close> and marks the reader stopped.\<close>

definition reader_stop :: "'m reader \<Rightarrow> 'm reader" where
  "reader_stop r =
     (if stopped r then r
      else r\<lparr>rtask := (case rtask r of Running \<Rightarrow> Done | t \<Rightarrow> t),
             close_calls := Suc (close_calls r), stopped := True\<rparr>)"

text \<open>\<open>_process_1\<close>; \<open>ok m\<close> says whether \<open>on_msg_coro(m)\<close> returns (or raises an \<open>Exception\<close>).\<close>

definition process_1 :: "'m deserializer \<Rightarrow> ('m \<Rightarrow> bool) \<Rightarrow> 'm reader \<Rightarrow> 'm reader" where
  "process_1 deser ok r =
     (case deser (rbuffer r) (read_pos r) of
        Inl e \<Rightarrow> r\<lparr>rtask := Failed e\<rparr>
      | Inr ((m, stop, skip), buf, pos) \<Rightarrow>
          let r' = r\<lparr>rbuffer := buf, read_pos := pos\<rparr>
          in if stop then reader_stop r'
             else case m of
                    None \<Rightarrow> r'
                  | Some msg \<Rightarrow>
                      if skip then r'
                      else let r'' = r'\<lparr>delivered := delivered r' @ [msg]\<rparr>
                           in if ok msg then r'' else reader_stop r'')"

text \<open>One iteration of the loop of \<open>_process\<close>, up to its \<open>sleep\<close>. A finished or failed task
  makes no iteration.\<close>

definition process_tick :: "'m deserializer \<Rightarrow> ('m \<Rightarrow> bool) \<Rightarrow> 'm reader \<Rightarrow> 'm reader" where
  "process_tick deser ok r =
     (if rtask r \<noteq> Running then r
      else if stopped r then r\<lparr>rtask := Done\<rparr>
      else let available_before = available r;
               r' = (if 0 < available_before then process_1 deser ok r else r)
           in case rtask r' of
                Failed e \<Rightarrow> r'
              | _ \<Rightarrow> if drain_mode r' = Some False \<and> available r' = available_before
                     then r'\<lparr>drain_mode := Some True\<rparr> else r')"

text \<open>\<open>buffer_until_drained\<close>: entering, and leaving its body.\<close>

definition drain_enter :: "'m reader \<Rightarrow> 'm reader result" where
  "drain_enter r =
     (if drain_mode r \<noteq> None then Inl StateError
      else Inr (r\<lparr>drain_mode := Some False, drain_buffer := Some []\<rparr>))"

definition drain_exit :: "bool \<Rightarrow> 'm reader \<Rightarrow> 'm reader" where
  "drain_exit discard r =
     (let r' = (if discard then r
                else r\<lparr>rbuffer := (if 0 < read_pos r then py_from (rbuffer r) (read_pos r)
                                   else rbuffer r) @ (case drain_buffer r of None \<Rightarrow> [] | Some d \<Rightarrow> d),
                       read_pos := (if 0 < read_pos r then 0 else read_pos r)\<rparr>)
      in r'\<lparr>drain_mode := None, drain_buffer := None\<rparr>)"

section \<open>Runs\<close>

text \<open>What happens to a reader: bytes arrive, the loop iterates, a drain begins or ends.\<close>

datatype revent = Data bytes | Tick | DrainEnter | DrainExit

fun reader_step :: "'m deserializer \<Rightarrow> ('m \<Rightarrow> bool) \<Rightarrow> 'm reader \<Rightarrow> revent \<Rightarrow> 'm reader" where
  "reader_step deser ok r (Data bs) = on_data bs r"
| "reader_step deser ok r Tick = process_tick deser ok r"
| "reader_step deser ok r DrainEnter = (case drain_enter r of Inl _ \<Rightarrow> r | Inr r' \<Rightarrow> r')"
| "reader_step deser ok r DrainExit = drain_exit False r"

definition reader_run :: "'m deserializer \<Rightarrow> ('m \<Rightarrow> bool) \<Rightarrow> revent list \<Rightarrow> 'm reader \<Rightarrow> 'm reader" where
  "reader_run deser ok evs r = foldl (reader_step deser ok) r evs"

fun event_bytes :: "revent \<Rightarrow> bytes" where
  "event_bytes (Data bs) = bs"
| "event_bytes _ = []"

definition received :: "revent list \<Rightarrow> bytes" where
  "received evs = concat (map event_bytes evs)"

lemma reader_run_simps [simp]:
  "reader_run deser ok [] r = r"
  "reader_run deser ok (e # evs) r = reader_run deser ok evs (reader_step deser ok r e)"
  "reader_run deser ok (evs @ evs') r = reader_run deser ok evs' (reader_run deser ok evs r)"
  by (simp_all add: reader_run_def)

lemma received_simps [simp]:
  "received [] = []"
  "received (e # evs) = event_bytes e @ received evs"
  "received (evs @ evs') = received evs @ received evs'"
  by (simp_all add: received_def)

section \<open>What a framing promises\<close>

text \<open>An item at the front of a byte stream: a message with its stop and skip flags, or bytes
  that make \<open>deserialize\<close> raise.\<close>

datatype 'm item = Bad exn | Msg 'm bool bool

type_synonym 'm framer = "bytes \<Rightarrow> ('m item \<times> nat) option"

text \<open>The messages a stream delivers: those up to the first stop, the first item that raises,
  and the first message whose handler raises.\<close>

function stream :: "'m framer \<Rightarrow> ('m \<Rightarrow> bool) \<Rightarrow> bytes \<Rightarrow> 'm list" where
  "stream nx ok v =
     (case nx v of
        None \<Rightarrow> []
      | Some (Bad e, n) \<Rightarrow> []
      | Some (Msg m st sk, n) \<Rightarrow>
          if st \<or> n = 0 \<or> length v < n then []
          else if sk then stream nx ok (drop n v)
          else m # (if ok m then stream nx ok (drop n v) else []))"
  by pat_completeness auto
termination
  by (relation "measure (\<lambda>(nx, ok, v). length v)") auto

declare stream.simps [simp del]

text \<open>The bytes not yet deserialized, wherever they are.\<close>

definition rview :: "'m reader \<Rightarrow> bytes" where
  "rview r = py_from (rbuffer r) (read_pos r)"

definition pending :: "'m reader \<Rightarrow> bytes" where
  "pending r = rview r @ (case drain_buffer r of None \<Rightarrow> [] | Some d \<Rightarrow> d)"

definition reader_wf :: "'m reader \<Rightarrow> bool" where
  "reader_wf r \<longleftrightarrow> 0 \<le> read_pos r \<and> read_pos r \<le> int (length (rbuffer r))"

definition alive :: "'m reader \<Rightarrow> bool" where
  "alive r \<longleftrightarrow> rtask r = Running \<and> \<not> stopped r"

lemma reader_wf_pos:
  assumes "reader_wf r"
  obtains p where "read_pos r = int p" "p \<le> length (rbuffer r)" "rview r = drop p (rbuffer r)"
proof -
  from assms obtain p where "read_pos r = int p" "p \<le> length (rbuffer r)"
    unfolding reader_wf_def by (metis nonneg_int_cases of_nat_le_iff)
  then show thesis by (intro that) (simp_all add: rview_def py_from_nat)
qed

lemma length_rview: "reader_wf r \<Longrightarrow> int (length (rview r)) = available r"
  by (erule reader_wf_pos) (simp add: available_def of_nat_diff)

lemma unread: "reader_wf r \<Longrightarrow> 0 < available r \<longleftrightarrow> rview r \<noteq> []"
  by (simp flip: length_rview)

lemma rview_fields [simp]:
  "rview (r\<lparr>delivered := x\<rparr>) = rview r"
  "rview (r\<lparr>drain_mode := y\<rparr>) = rview r"
  "rview (r\<lparr>rtask := t\<rparr>) = rview r"
  "rview (reader_stop r) = rview r"
  by (simp_all add: rview_def reader_stop_def)

lemma reader_stop_fields [simp]:
  "delivered (reader_stop r) = delivered r"
  "drain_buffer (reader_stop r) = drain_buffer r"
  "stopped (reader_stop r)"
  "\<not> alive (reader_stop r)"
  "reader_wf (reader_stop r) = reader_wf r"
  by (simp_all add: reader_stop_def alive_def reader_wf_def)

lemma reader_stop_once: "reader_stop (reader_stop r) = reader_stop r"
  by (simp add: reader_stop_def)

text \<open>The invariant of a run: what was delivered and what is still pending make up the
  messages of everything received, now and after any further bytes; a reader that is no longer
  alive has delivered them all.\<close>

definition faithful :: "'m framer \<Rightarrow> ('m \<Rightarrow> bool) \<Rightarrow> bytes \<Rightarrow> 'm reader \<Rightarrow> bool" where
  "faithful nx ok inp r \<longleftrightarrow> reader_wf r \<and>
     (if alive r then (\<forall>w. delivered r @ stream nx ok (pending r @ w) = stream nx ok (inp @ w))
      else (\<forall>w. stream nx ok (inp @ w) = delivered r))"

lemma faithful_drain_mode [simp]:
  "faithful nx ok inp (r\<lparr>drain_mode := x\<rparr>) = faithful nx ok inp r"
  by (simp add: faithful_def pending_def reader_wf_def alive_def)

lemma new_reader_fields [simp]:
  "drain_buffer new_reader = None" "drain_mode new_reader = None" "delivered new_reader = []"
  "rview new_reader = []" "pending new_reader = []" "alive new_reader" "reader_wf new_reader"
  by (simp_all add: new_reader_def rview_def pending_def alive_def reader_wf_def)

text \<open>A reader whose task has ended stays as it is: no iteration delivers, closes or completes
  a drain.\<close>

definition frozen_as :: "'m reader \<Rightarrow> 'm reader \<Rightarrow> bool" where
  "frozen_as r r' \<longleftrightarrow> rtask r' = rtask r \<and> delivered r' = delivered r \<and>
     close_calls r' = close_calls r \<and> stopped r' = stopped r \<and> drain_mode r' \<noteq> Some True"

lemma ended_step:
  "rtask r \<noteq> Running \<Longrightarrow> drain_mode r \<noteq> Some True \<Longrightarrow> frozen_as r (reader_step deser ok r e)"
  by (cases e) (auto simp: frozen_as_def on_data_def process_tick_def drain_enter_def
      drain_exit_def Let_def split: option.splits)

lemma ended_run:
  "rtask r \<noteq> Running \<Longrightarrow> drain_mode r \<noteq> Some True \<Longrightarrow> frozen_as r (reader_run deser ok evs r)"
proof (induction evs arbitrary: r)
  case (Cons e evs)
  have s: "frozen_as r (reader_step deser ok r e)" using Cons.prems by (rule ended_step)
  then have "frozen_as (reader_step deser ok r e) (reader_run deser ok evs (reader_step deser ok r e))"
    using Cons.prems by (intro Cons.IH) (auto simp: frozen_as_def)
  with s show ?case by (simp add: frozen_as_def)
qed (simp add: frozen_as_def)

text \<open>An exception that ended the task stays; and two deserializers that differ only where the
  second raises \<open>e\<close> make the same runs, as long as the second does not fail with \<open>e\<close>.\<close>

lemma failed_step: "rtask r = Failed e \<Longrightarrow> rtask (reader_step deser ok r ev) = Failed e"
  by (cases ev) (auto simp: on_data_def process_tick_def drain_enter_def drain_exit_def Let_def
      split: option.splits)

lemma failed_run: "rtask r = Failed e \<Longrightarrow> rtask (reader_run deser ok evs r) = Failed e"
  by (induction evs arbitrary: r) (simp_all add: failed_step)

lemma agreeing_tick:
  assumes "\<And>buf pos. deser' buf pos \<noteq> Inl e \<Longrightarrow> deser buf pos = deser' buf pos"
    and "rtask (process_tick deser' ok r) \<noteq> Failed e"
  shows "process_tick deser ok r = process_tick deser' ok r"
proof (cases "deser' (rbuffer r) (read_pos r) = Inl e")
  case True
  with assms(2) show ?thesis
    by (auto simp: process_tick_def process_1_def Let_def)
next
  case False
  from assms(1) [OF this] have "process_1 deser ok r = process_1 deser' ok r"
    by (simp add: process_1_def)
  then show ?thesis by (simp only: process_tick_def)
qed

lemma agreeing_run:
  assumes "\<And>buf pos. deser' buf pos \<noteq> Inl e \<Longrightarrow> deser buf pos = deser' buf pos"
    and "rtask (reader_run deser' ok evs r) \<noteq> Failed e"
  shows "reader_run deser ok evs r = reader_run deser' ok evs r"
  using assms(2)
proof (induction evs arbitrary: r)
  case (Cons ev evs)
  from Cons.prems failed_run [of "reader_step deser' ok r ev" e deser' ok evs]
  have "rtask (reader_step deser' ok r ev) \<noteq> Failed e" by auto
  with agreeing_tick [where deser' = deser' and deser = deser and e = e and ok = ok and r = r, OF assms(1)]
  have "reader_step deser ok r ev = reader_step deser' ok r ev"
    by (cases ev) simp_all
  with Cons show ?case by simp
qed simp

text \<open>What is still to come of whole frames, in a reader that has not failed.\<close>

definition framed :: "bytes list \<Rightarrow> bytes \<Rightarrow> 'm reader \<Rightarrow> bool" where
  "framed fs w r \<longleftrightarrow> reader_wf r \<and> (\<forall>e. rtask r \<noteq> Failed e) \<and>
     (\<exists>gs. set gs \<subseteq> set fs \<and> pending r @ w = concat gs)"

text \<open>What such a stream contains: the messages of the frames, up to the first that stops.\<close>

fun framed_items :: "('m \<Rightarrow> bool) \<Rightarrow> 'm item list \<Rightarrow> 'm list" where
  "framed_items ok (Msg m st sk # its) =
     (if st then [] else if sk then framed_items ok its
      else m # (if ok m then framed_items ok its else []))"
| "framed_items ok _ = []"

locale framing =
  fixes deser :: "'m deserializer"
    and nx :: "'m framer"
  assumes deser_none: "pos \<le> length buf \<Longrightarrow> nx (drop pos buf) = None \<Longrightarrow>
      deser buf (int pos) = Inr ((None, False, False), buf, int pos)"
    and deser_bad: "pos \<le> length buf \<Longrightarrow> nx (drop pos buf) = Some (Bad e, n) \<Longrightarrow>
      deser buf (int pos) = Inl e"
    and deser_msg: "pos \<le> length buf \<Longrightarrow> nx (drop pos buf) = Some (Msg m st sk, n) \<Longrightarrow>
      \<exists>buf' pos'. deser buf (int pos) = Inr ((Some m, st, sk), buf', int pos') \<and>
        pos' \<le> length buf' \<and> drop pos' buf' = drop n (drop pos buf)"
    and nx_stable: "nx v = Some (x, n) \<Longrightarrow> nx (v @ w) = Some (x, n)"
    and nx_progress: "nx v = Some (Msg m st sk, n) \<Longrightarrow> 0 < n \<and> n \<le> length v"
begin

lemma stream_none: "nx v = None \<Longrightarrow> stream nx ok v = []"
  by (simp add: stream.simps)

lemma stream_bad: "nx v = Some (Bad e, n) \<Longrightarrow> stream nx ok (v @ w) = []"
  using nx_stable [of v "Bad e" n w] by (simp add: stream.simps)

lemma stream_msg:
  assumes "nx v = Some (Msg m st sk, n)"
  shows "stream nx ok (v @ w) =
    (if st then [] else if sk then stream nx ok (drop n v @ w)
     else m # (if ok m then stream nx ok (drop n v @ w) else []))"
proof -
  from assms have n: "0 < n" "n \<le> length v" by (simp_all add: nx_progress)
  from nx_stable [OF assms, of w] n show ?thesis
    by (subst stream.simps) simp
qed

lemma process_1_cases:
  assumes "reader_wf r"
  shows "case nx (rview r) of
      None \<Rightarrow> process_1 deser ok r = r
    | Some (Bad e, n) \<Rightarrow> process_1 deser ok r = r\<lparr>rtask := Failed e\<rparr>
    | Some (Msg m st sk, n) \<Rightarrow>
        \<exists>r1. rview r1 = drop n (rview r) \<and> reader_wf r1 \<and> rtask r1 = rtask r \<and>
          stopped r1 = stopped r \<and> drain_buffer r1 = drain_buffer r \<and>
          drain_mode r1 = drain_mode r \<and> close_calls r1 = close_calls r \<and>
          delivered r1 = delivered r @ (if st \<or> sk then [] else [m]) \<and>
          process_1 deser ok r = (if st \<or> (\<not> sk \<and> \<not> ok m) then reader_stop r1 else r1)"
proof -
  from assms obtain i where i: "read_pos r = int i" "i \<le> length (rbuffer r)" "rview r = drop i (rbuffer r)"
    by (rule reader_wf_pos)
  show ?thesis
proof (cases "nx (rview r)")
  case None
  with i deser_none [of i "rbuffer r"] show ?thesis
    by (simp add: process_1_def)
next
  case (Some x)
  obtain it n where x: "x = (it, n)" by (cases x)
  show ?thesis
  proof (cases it)
    case (Bad e)
    with Some x i deser_bad [of i "rbuffer r" e n] show ?thesis
      by (simp add: process_1_def)
  next
    case (Msg m st sk)
    with Some x i deser_msg [of i "rbuffer r" m st sk n] obtain b p
      where d: "deser (rbuffer r) (read_pos r) = Inr ((Some m, st, sk), b, int p)"
        and p: "p \<le> length b" "drop p b = drop n (rview r)"
      by auto
    define r1 where "r1 = r\<lparr>rbuffer := b, read_pos := int p,
        delivered := delivered r @ (if st \<or> sk then [] else [m])\<rparr>"
    have "process_1 deser ok r = (if st \<or> (\<not> sk \<and> \<not> ok m) then reader_stop r1 else r1)"
      using d by (cases st; cases sk) (simp_all add: process_1_def Let_def r1_def)
    moreover have "rview r1 = drop n (rview r)" and "reader_wf r1"
      using p by (simp_all add: rview_def reader_wf_def r1_def py_from_nat)
    moreover have "rtask r1 = rtask r" "stopped r1 = stopped r" "drain_buffer r1 = drain_buffer r"
      "drain_mode r1 = drain_mode r" "close_calls r1 = close_calls r"
      "delivered r1 = delivered r @ (if st \<or> sk then [] else [m])"
      by (simp_all add: r1_def)
    ultimately show ?thesis
      using Some x Msg by (simp only: option.case item.case prod.case) blast
  qed
qed
qed

lemma faithful_process_1:
  assumes "faithful nx ok inp r" and "alive r"
  shows "faithful nx ok inp (process_1 deser ok r)"
proof -
  define d where "d = (case drain_buffer r of None \<Rightarrow> [] | Some d \<Rightarrow> d)"
  have wf: "reader_wf r" and eq: "\<And>w. delivered r @ stream nx ok (rview r @ d @ w) = stream nx ok (inp @ w)"
    using assms by (simp_all add: faithful_def pending_def d_def)
  show ?thesis
  proof (cases "nx (rview r)")
    case None
    with process_1_cases [OF wf, of ok] assms show ?thesis by simp
  next
    case (Some x)
    obtain it n where x: "x = (it, n)" by (cases x)
    show ?thesis
    proof (cases it)
      case (Bad e)
      with Some x process_1_cases [OF wf, of ok] have "process_1 deser ok r = r\<lparr>rtask := Failed e\<rparr>"
        by simp
      moreover from Some x Bad have "stream nx ok (rview r @ w) = []" for w
        by (simp add: stream_bad)
      ultimately show ?thesis
        using wf eq by (simp add: faithful_def alive_def reader_wf_def)
    next
      case (Msg m st sk)
      with Some x process_1_cases [OF wf, of ok] obtain r1
        where r1: "rview r1 = drop n (rview r)" "reader_wf r1" "rtask r1 = rtask r"
          "stopped r1 = stopped r" "drain_buffer r1 = drain_buffer r"
          "delivered r1 = delivered r @ (if st \<or> sk then [] else [m])"
        and p1: "process_1 deser ok r = (if st \<or> (\<not> sk \<and> \<not> ok m) then reader_stop r1 else r1)"
        by auto
      from Some x Msg have "stream nx ok (rview r @ d @ w) =
          (if st then [] else if sk then stream nx ok (rview r1 @ d @ w)
           else m # (if ok m then stream nx ok (rview r1 @ d @ w) else []))" for w
        using stream_msg [of "rview r" m st sk n ok "d @ w"] r1(1) by simp
      note s = eq [unfolded this, symmetric]
      have a: "alive r1" using assms(2) r1 by (simp add: alive_def)
      show ?thesis
      proof (cases "st \<or> (\<not> sk \<and> \<not> ok m)")
        case True
        with p1 r1 show ?thesis by (auto simp: faithful_def s)
      next
        case False
        with p1 r1 a show ?thesis
          by (auto simp: faithful_def s pending_def d_def)
      qed
    qed
  qed
qed

lemma faithful_tick:
  assumes "faithful nx ok inp r"
  shows "faithful nx ok inp (process_tick deser ok r)"
proof (cases "alive r \<and> 0 < available r")
  case True
  with assms have "faithful nx ok inp (process_1 deser ok r)"
    by (simp add: faithful_process_1)
  with True show ?thesis
    by (auto simp: process_tick_def alive_def Let_def split: rtask.split)
next
  case False
  with assms show ?thesis
    by (auto simp: process_tick_def Let_def faithful_def alive_def reader_wf_def pending_def
        split: rtask.split)
qed

lemma faithful_data:
  "faithful nx ok inp r \<Longrightarrow> faithful nx ok (inp @ bs) (on_data bs r)"
  by (auto simp: faithful_def on_data_def pending_def rview_def reader_wf_def alive_def py_from_left
      split: option.splits)

lemma faithful_drain_enter:
  "faithful nx ok inp r \<Longrightarrow> drain_enter r = Inr r' \<Longrightarrow> drain_buffer r = None \<Longrightarrow>
   faithful nx ok inp r'"
  by (auto simp: drain_enter_def faithful_def pending_def reader_wf_def alive_def rview_def
      split: if_splits)

lemma faithful_drain_exit:
  "faithful nx ok inp r \<Longrightarrow> faithful nx ok inp (drain_exit False r)"
  by (auto simp: drain_exit_def faithful_def pending_def reader_wf_def alive_def rview_def Let_def py_from_left
      split: option.splits)

text \<open>A drain buffer exists exactly during a drain.\<close>

lemma drain_step:
  "(drain_buffer r = None \<longleftrightarrow> drain_mode r = None) \<Longrightarrow>
   (drain_buffer (reader_step deser ok r e) = None \<longleftrightarrow> drain_mode (reader_step deser ok r e) = None)"
proof (cases e)
  case Tick
  assume a: "drain_buffer r = None \<longleftrightarrow> drain_mode r = None"
  have keep: "drain_buffer (process_1 deser ok r) = drain_buffer r \<and>
      drain_mode (process_1 deser ok r) = drain_mode r"
    by (auto simp: process_1_def reader_stop_def Let_def split: sum.split option.split)
  with a Tick show ?thesis
    by (auto simp: process_tick_def Let_def split: rtask.split)
qed (auto simp: on_data_def drain_enter_def drain_exit_def Let_def split: option.splits sum.splits)

lemma faithful_step:
  assumes "faithful nx ok inp r" and "drain_buffer r = None \<longleftrightarrow> drain_mode r = None"
  shows "faithful nx ok (inp @ event_bytes e) (reader_step deser ok r e)"
proof (cases e)
  case DrainEnter
  with assms show ?thesis
    by (cases "drain_enter r")
      (auto intro: faithful_drain_enter simp: drain_enter_def split: if_splits)
qed (use assms in \<open>simp_all add: faithful_data faithful_tick faithful_drain_exit\<close>)

lemma faithful_run:
  "faithful nx ok inp r \<Longrightarrow> (drain_buffer r = None \<longleftrightarrow> drain_mode r = None) \<Longrightarrow>
   faithful nx ok (inp @ received evs) (reader_run deser ok evs r)"
proof (induction evs arbitrary: inp r)
  case (Cons e evs)
  from Cons.IH [OF faithful_step [OF Cons.prems, of e] drain_step [OF Cons.prems(2), of ok e]]
  show ?case by simp
qed simp

lemma faithful_new [simp]: "faithful nx ok [] new_reader"
  by (simp add: faithful_def)

lemma faithful_fresh: "faithful nx ok (received evs) (reader_run deser ok evs new_reader)"
  using faithful_run [of ok "[]" new_reader evs] by simp

text \<open>At every moment, what was delivered is an initial part of the messages of what was
  received; nothing is reordered, repeated or invented.\<close>

lemma run_delivers_prefix:
  "\<exists>rest. stream nx ok (received evs) = delivered (reader_run deser ok evs new_reader) @ rest"
  using faithful_fresh [of ok evs] unfolding faithful_def by (metis append_Nil2)

text \<open>On a stream of whole frames the reader's task never fails.\<close>

lemma framed_process_1:
  assumes "framed fs w r" "alive r" "rview r \<noteq> []"
    and good: "\<forall>f \<in> set fs. \<exists>m st sk. nx f = Some (Msg m st sk, length f)"
  shows "framed fs w (process_1 deser ok r)"
proof -
  from assms(1) obtain gs where gs: "set gs \<subseteq> set fs" "pending r @ w = concat gs" and wf: "reader_wf r"
    by (auto simp: framed_def)
  show ?thesis
  proof (cases "nx (rview r)")
    case None
    with process_1_cases [OF wf, of ok] assms(1) show ?thesis by simp
  next
    case (Some x)
    obtain it n where x: "x = (it, n)" by (cases x)
    define d where "d = (case drain_buffer r of None \<Rightarrow> [] | Some d \<Rightarrow> d)"
    have all: "rview r @ d @ w = concat gs" using gs(2) by (simp add: pending_def d_def)
    have front: "nx (concat gs) = Some (it, n)"
      using nx_stable [of "rview r" it n "d @ w"] Some x all by simp
    have rest: "\<exists>m st sk g gs'. it = Msg m st sk \<and> n = length g \<and> gs = g # gs'" if "gs \<noteq> []"
    proof -
      from that obtain g gs' where g: "gs = g # gs'" by (cases gs) auto
      with gs(1) good obtain m st sk where "nx g = Some (Msg m st sk, length g)" by force
      from nx_stable [OF this, of "concat gs'"] front g show ?thesis by auto
    qed
    have "gs \<noteq> []" using all assms(3) by auto
    from rest [OF this] obtain m st sk g gs' where g: "it = Msg m st sk" "n = length g" "gs = g # gs'"
      by blast
    from process_1_cases [OF wf, of ok] Some x g(1) obtain r1 where r1: "rview r1 = drop n (rview r)"
      "reader_wf r1" "rtask r1 = rtask r" "drain_buffer r1 = drain_buffer r"
      "process_1 deser ok r = (if st \<or> (\<not> sk \<and> \<not> ok m) then reader_stop r1 else r1)" by auto
    from Some x g(1) nx_progress have "n \<le> length (rview r)" by auto
    then have "rview r1 @ d @ w = drop n (rview r @ d @ w)" by (simp add: r1(1))
    also have "\<dots> = concat gs'" unfolding all g(3) by (simp add: g(2))
    finally have f: "framed fs w r1"
      using r1 gs(1) g(3) assms(2) by (auto simp: framed_def pending_def d_def alive_def)
    then have "framed fs w (reader_stop r1)"
      by (auto simp: framed_def pending_def reader_stop_def rview_def reader_wf_def split: rtask.split)
    with f r1(5) show ?thesis by simp
  qed
qed

lemma framed_tick:
  assumes "framed fs w r" "\<forall>f \<in> set fs. \<exists>m st sk. nx f = Some (Msg m st sk, length f)"
  shows "framed fs w (process_tick deser ok r)"
proof (cases "alive r \<and> rview r \<noteq> []")
  case True
  with assms have "framed fs w (process_1 deser ok r)" by (simp add: framed_process_1)
  with True assms(1) unread [of r] show ?thesis
    by (auto simp: process_tick_def alive_def framed_def pending_def reader_wf_def Let_def split: rtask.split)
next
  case False
  with assms(1) unread [of r] show ?thesis
    by (auto simp: process_tick_def alive_def framed_def pending_def reader_wf_def rview_def Let_def
        split: rtask.split)
qed

lemma framed_run:
  assumes "framed fs (received evs @ w) r" "drain_buffer r = None \<longleftrightarrow> drain_mode r = None"
    and good: "\<forall>f \<in> set fs. \<exists>m st sk. nx f = Some (Msg m st sk, length f)"
  shows "framed fs w (reader_run deser ok evs r)"
  using assms(1,2)
proof (induction evs arbitrary: r)
  case (Cons ev evs)
  have "framed fs (received evs @ w) (reader_step deser ok r ev)"
  proof (cases ev)
    case (Data bs)
    with Cons.prems(1) show ?thesis
      by (auto simp: framed_def on_data_def pending_def rview_def reader_wf_def py_from_left split: option.splits)
  next
    case Tick
    with Cons.prems(1) framed_tick [OF _ good] show ?thesis by simp
  next
    case DrainEnter
    with Cons.prems show ?thesis
      by (auto simp: drain_enter_def framed_def pending_def reader_wf_def rview_def split: option.splits)
  next
    case DrainExit
    with Cons.prems(1) show ?thesis
      by (auto simp: drain_exit_def framed_def pending_def reader_wf_def rview_def Let_def py_from_left
          split: option.splits)
  qed
  from Cons.IH [OF this drain_step [OF Cons.prems(2)]] show ?case by simp
qed simp

lemma frames_never_fail:
  assumes "received evs @ w = concat fs"
    and "\<forall>f \<in> set fs. \<exists>m st sk. nx f = Some (Msg m st sk, length f)"
  shows "rtask (reader_run deser ok evs new_reader) \<noteq> Failed e"
proof -
  have "framed fs (received evs @ w) new_reader"
    using assms(1) by (auto simp: framed_def new_reader_def pending_def rview_def reader_wf_def)
  from framed_run [OF this _ assms(2), of ok] show ?thesis by (simp add: framed_def)
qed

lemma stream_frames:
  "list_all2 (\<lambda>f it. nx f = Some (it, length f)) fs its \<Longrightarrow> stream nx ok (concat fs) = framed_items ok its"
proof (induction fs its rule: list_all2_induct)
  case Nil
  show ?case
  proof (cases "nx []")
    case None
    then show ?thesis by (simp add: stream_none)
  next
    case (Some x)
    obtain it n where x: "x = (it, n)" by (cases x)
    show ?thesis
    proof (cases it)
      case (Bad e)
      with Some x stream_bad [of "[]" e n ok "[]"] show ?thesis by simp
    next
      case (Msg m st sk)
      with Some x nx_progress [of "[]" m st sk n] show ?thesis by auto
    qed
  qed
next
  case (Cons f fs it its)
  show ?case
  proof (cases it)
    case (Bad e)
    with Cons stream_bad [of f e] show ?thesis by simp
  next
    case (Msg m st sk)
    with Cons stream_msg [of f m st sk "length f" ok "concat fs"] show ?thesis by simp
  qed
qed

lemma bad_item_tick:
  assumes "reader_wf r" "alive r" "nx (rview r) = Some (Bad e, n)" "rview r \<noteq> []"
  shows "process_tick deser ok r = r\<lparr>rtask := Failed e\<rparr>"
  using assms process_1_cases [OF assms(1), of ok] unread [OF assms(1)]
  by (simp add: process_tick_def alive_def Let_def)

lemma stop_item_tick:
  assumes "reader_wf r" "alive r" "nx (rview r) = Some (Msg m True sk, n)"
  shows "\<exists>r1. process_tick deser ok r = reader_stop r1 \<and> drain_mode r1 = drain_mode r \<and>
    rtask r1 = Running \<and> \<not> stopped r1 \<and> delivered r1 = delivered r \<and> close_calls r1 = close_calls r"
proof -
  from nx_progress [OF assms(3)] have n: "0 < n" "n \<le> length (rview r)" by simp_all
  from assms process_1_cases [OF assms(1), of ok] obtain r1
    where r1: "rview r1 = drop n (rview r)" "reader_wf r1" "drain_mode r1 = drain_mode r" "rtask r1 = rtask r"
      "stopped r1 = stopped r" "delivered r1 = delivered r" "close_calls r1 = close_calls r"
      and p1: "process_1 deser ok r = reader_stop r1"
    by auto
  have "available (reader_stop r1) < available r"
    using r1(1,2) n assms(1) by (simp flip: length_rview)
  moreover have "rtask (reader_stop r1) = Done"
    using r1 assms(2) by (simp add: reader_stop_def alive_def)
  ultimately show ?thesis
    using p1 r1 assms(2) n length_rview [OF assms(1)]
    by (intro exI [of _ r1]) (simp add: process_tick_def alive_def Let_def)
qed

definition settled :: "'m reader \<Rightarrow> bool" where
  "settled r \<longleftrightarrow> \<not> alive r \<or> rview r = [] \<or> nx (rview r) = None"

lemma settled_tick:
  assumes "reader_wf r" "settled r"
  shows "settled (process_tick deser ok r) \<and> reader_wf (process_tick deser ok r) \<and>
    delivered (process_tick deser ok r) = delivered r"
proof (cases "alive r \<and> 0 < available r")
  case True
  with assms unread [OF assms(1)] have "nx (rview r) = None" by (auto simp: settled_def)
  with process_1_cases [OF assms(1), of ok] have "process_1 deser ok r = r" by simp
  with assms show ?thesis
    by (auto simp: process_tick_def Let_def settled_def alive_def reader_wf_def split: rtask.split)
next
  case False
  with assms unread [OF assms(1)] show ?thesis
    by (auto simp: process_tick_def Let_def settled_def alive_def reader_wf_def split: rtask.split)
qed

lemma unsettled_tick:
  assumes "reader_wf r" "\<not> settled r"
  shows "settled (process_tick deser ok r) \<or>
    length (rview (process_tick deser ok r)) < length (rview r)"
proof -
  from assms obtain it n where nx: "nx (rview r) = Some (it, n)" and a: "alive r" "rview r \<noteq> []"
    by (auto simp: settled_def)
  then have av: "0 < available r" using assms(1) by (simp add: unread)
  have t: "rview (process_tick deser ok r) = rview (process_1 deser ok r) \<and>
      (alive (process_tick deser ok r) \<longleftrightarrow> alive (process_1 deser ok r))"
    using a av by (auto simp: process_tick_def alive_def Let_def split: rtask.split)
  show ?thesis
  proof (cases it)
    case (Bad e)
    with process_1_cases [OF assms(1), of ok] nx t show ?thesis
      by (simp add: settled_def alive_def)
  next
    case (Msg m st sk)
    with nx nx_progress have n: "0 < n" "n \<le> length (rview r)" by auto
    from Msg process_1_cases [OF assms(1), of ok] nx
    have "rview (process_1 deser ok r) = drop n (rview r)" by (auto split: if_splits)
    with n t a show ?thesis by auto
  qed
qed

lemma ticks_settle:
  assumes "faithful nx ok inp r" "length (rview r) \<le> k \<or> settled r"
  shows "faithful nx ok inp (reader_run deser ok (replicate k Tick) r) \<and>
    settled (reader_run deser ok (replicate k Tick) r)"
  using assms
proof (induction k arbitrary: r)
  case 0
  then show ?case by (auto simp: settled_def)
next
  case (Suc k)
  let ?r = "process_tick deser ok r"
  have f: "faithful nx ok inp ?r" using Suc.prems(1) by (rule faithful_tick)
  have wf: "reader_wf r" using Suc.prems(1) by (simp add: faithful_def)
  have "length (rview ?r) \<le> k \<or> settled ?r"
    using Suc.prems(2) settled_tick [OF wf, of ok] unsettled_tick [OF wf, of ok] by fastforce
  from Suc.IH [OF f this] show ?case by simp
qed

lemma drain_buffer_ticks:
  "drain_buffer (reader_run deser ok (replicate k Tick) r) = drain_buffer r"
proof (induction k arbitrary: r)
  case (Suc k)
  have "drain_buffer (process_tick deser ok r) = drain_buffer r"
    by (auto simp: process_tick_def process_1_def reader_stop_def Let_def
        split: rtask.split sum.split option.split)
  with Suc show ?case by simp
qed simp

text \<open>A settled reader that is not draining has delivered all it received.\<close>

lemma settled_delivers:
  assumes "faithful nx ok inp r" "settled r" "drain_buffer r = None"
  shows "delivered r = stream nx ok inp"
proof (cases "alive r")
  case False
  with assms(1) have "stream nx ok (inp @ []) = delivered r"
    unfolding faithful_def by metis
  then show ?thesis by simp
next
  case True
  with assms(1) have "delivered r @ stream nx ok (rview r @ []) = stream nx ok (inp @ [])"
    unfolding faithful_def by (metis append_assoc append_Nil2 assms(3) option.case(1) pending_def)
  moreover have "stream nx ok (rview r) = []"
  proof (cases "nx (rview r)")
    case None
    then show ?thesis by (rule stream_none)
  next
    case (Some x)
    with assms(2) True have "rview r = []" by (auto simp: settled_def)
    with Some show ?thesis
      using nx_progress [of "[]"]
      by (subst stream.simps) (fastforce split: item.split prod.split)
  qed
  ultimately show ?thesis by simp
qed

lemma ticks_deliver_all:
  assumes "faithful nx ok inp r" "drain_buffer r = None" "length (rview r) \<le> k"
  shows "delivered (reader_run deser ok (replicate k Tick) r) = stream nx ok inp"
  using ticks_settle [of ok inp r k] assms by (simp add: settled_delivers drain_buffer_ticks)

text \<open>Delivery: with the last drain over, as many iterations as there are bytes to read deliver
  every message of the received bytes.\<close>

lemma run_delivers_all:
  assumes "drain_buffer (reader_run deser ok evs new_reader) = None"
    and "length (rview (reader_run deser ok evs new_reader)) \<le> k"
  shows "delivered (reader_run deser ok (evs @ replicate k Tick) new_reader) =
    stream nx ok (received evs)"
  using ticks_deliver_all [OF faithful_fresh assms] by simp

end

end
