(* ===== verification/SoupReader.thy ===== *)
theory SoupReader
  imports SoupCore Reader
begin

text \<open>
  \<open>SoupMessageReader.deserialize\<close> (\<open>soup/_reader.py\<close>): frames are cut by their length field out
  of the buffer, decoded, and the buffer is compacted when more than half of it is consumed.
  The reader is an instance of \<open>framing\<close>, so compaction and chunking are invisible: whatever
  the chunks, the messages delivered are the messages sent.
\<close>

section \<open>Deserialization\<close>

definition soup_deserialize :: "SoupMessage deserializer" where
  "soup_deserialize buf pos =
     (let empty_response = Inr ((None, False, False), buf, pos);
          available = int (length buf) - pos
      in if available < 2 then empty_response
         else let siz = py_int_from_bytes Big False (py_slice buf pos (pos + 2))
              in if available < siz + 2 then empty_response
                 else rbind (soup_from_bytes (py_slice buf pos (pos + siz + 2))) (\<lambda>(_, msg).
                   let pos' = pos + siz + 2
                   in if int (length buf div 2) < pos'
                      then Inr ((Some msg, is_logout msg, is_heartbeat msg), py_from buf pos', 0)
                      else Inr ((Some msg, is_logout msg, is_heartbeat msg), buf, pos')))"

text \<open>The same on the unread bytes alone: the first item of a byte stream and its size.\<close>

definition soup_next :: "SoupMessage framer" where
  "soup_next v =
     (if length v < 2 then None
      else let n = nat (py_int_from_bytes Big False (take 2 v)) + 2
           in if length v < n then None
              else case soup_from_bytes (take n v) of
                     Inl e \<Rightarrow> Some (Bad e, n)
                   | Inr (_, msg) \<Rightarrow> Some (Msg msg (is_logout msg) (is_heartbeat msg), n))"

lemma py_slice_offset: "py_slice xs (int p) (int p + int n) = take n (drop p xs)"
  using py_slice_nat [of xs p "p + n"] by (simp add: take_drop add.commute)

lemma soup_deserialize_next:
  assumes "pos \<le> length buf"
  shows "soup_deserialize buf (int pos) =
    (case soup_next (drop pos buf) of
       None \<Rightarrow> Inr ((None, False, False), buf, int pos)
     | Some (Bad e, n) \<Rightarrow> Inl e
     | Some (Msg m st sk, n) \<Rightarrow>
         Inr ((Some m, st, sk),
           if length buf div 2 < pos + n then (drop (pos + n) buf, 0) else (buf, int (pos + n))))"
proof -
  obtain n where siz: "py_int_from_bytes Big False (take 2 (drop pos buf)) = int n"
    using py_int_from_bytes_unsigned_nonneg [of Big "take 2 (drop pos buf)"] nonneg_int_cases by blast
  have head: "py_slice buf (int pos) (int pos + 2) = take 2 (drop pos buf)"
    using py_slice_offset [of buf pos 2] by simp
  have body: "py_slice buf (int pos) (int pos + int n + 2) = take (n + 2) (drop pos buf)"
    using py_slice_offset [of buf pos "n + 2"] by (simp add: ac_simps)
  have rest: "py_from buf (int pos + int n + 2) = drop (pos + (n + 2)) buf"
    using py_from_nat [of buf "pos + (n + 2)"] by (simp add: ac_simps)
  have len: "int (length buf) - int pos < 2 \<longleftrightarrow> length (drop pos buf) < 2"
    "int (length buf) - int pos < int n + 2 \<longleftrightarrow> length (drop pos buf) < n + 2"
    "int (length buf div 2) < int pos + int n + 2 \<longleftrightarrow> length buf div 2 < pos + (n + 2)"
    using assms by auto
  show ?thesis
    unfolding soup_deserialize_def soup_next_def Let_def head siz body rest len
    by (auto simp: add.assoc split: sum.split)
qed

lemma soup_next_size:
  "soup_next v = Some (x, n) \<Longrightarrow> 2 \<le> n \<and> n \<le> length v"
  by (auto simp: soup_next_def Let_def split: if_splits sum.splits prod.splits)

lemma soup_next_stable: "soup_next v = Some (x, n) \<Longrightarrow> soup_next (v @ w) = Some (x, n)"
  by (auto simp: soup_next_def Let_def split: if_splits sum.splits prod.splits)

interpretation soup: framing soup_deserialize soup_next
proof unfold_locales
  fix pos and buf :: bytes and m :: SoupMessage and st sk n
  assume p: "pos \<le> length buf" and nx: "soup_next (drop pos buf) = Some (Msg m st sk, n)"
  let ?c = "length buf div 2 < pos + n"
  have "pos + n \<le> length buf" using soup_next_size [OF nx] p by auto
  then show "\<exists>buf' pos'. soup_deserialize buf (int pos) = Inr ((Some m, st, sk), buf', int pos') \<and>
      pos' \<le> length buf' \<and> drop pos' buf' = drop n (drop pos buf)"
    using soup_deserialize_next [OF p] nx
    by (intro exI [of _ "if ?c then drop (pos + n) buf else buf"] exI [of _ "if ?c then 0 else pos + n"])
      (simp add: add.commute)
next
  fix v m st sk n
  assume "soup_next v = Some (Msg m st sk, n)"
  from soup_next_size [OF this] show "0 < n \<and> n \<le> length v" by simp
qed (simp_all add: soup_deserialize_next soup_next_stable)

section \<open>The stream a peer sends\<close>

definition soup_bytes :: "SoupMessage \<Rightarrow> bytes" where
  "soup_bytes m = (case soup_to_bytes m of Inl _ \<Rightarrow> [] | Inr (_, bs) \<Rightarrow> bs)"

definition soup_encode_all :: "SoupMessage list \<Rightarrow> bytes" where
  "soup_encode_all ms = concat (map soup_bytes ms)"

text \<open>What a client is to see of a sequence of messages: heartbeats are skipped, a logout
  message ends the session and is not itself delivered.\<close>

fun visible :: "SoupMessage list \<Rightarrow> SoupMessage list" where
  "visible [] = []"
| "visible (m # ms) =
     (if is_logout m then [] else if is_heartbeat m then visible ms else m # visible ms)"

lemma soup_encode_all_simps [simp]:
  "soup_encode_all [] = []"
  "soup_encode_all (m # ms) = soup_bytes m @ soup_encode_all ms"
  by (simp_all add: soup_encode_all_def)

lemma soup_next_encoded:
  assumes "valid_soup m"
  shows "soup_next (soup_bytes m @ w) =
    Some (Msg m (is_logout m) (is_heartbeat m), length (soup_bytes m))"
proof -
  from soup_decode_encode [OF assms] obtain bs
    where e: "soup_to_bytes m = Inr (length bs, bs)" and d: "soup_from_bytes bs = Inr (length bs, m)"
    by auto
  from e obtain body where "bs = frame (int (length body) + 1) m body" "length body < 32767"
    by (rule soup_to_bytes_frame)
  then have "soup_next bs = Some (Msg m (is_logout m) (is_heartbeat m), length bs)"
    using d by (simp add: soup_next_def be16_unsigned nat_add_distrib)
  then show ?thesis
    using e by (simp add: soup_bytes_def soup_next_stable)
qed

lemma soup_stream_encoded:
  "list_all valid_soup ms \<Longrightarrow> stream soup_next (\<lambda>_. True) (soup_encode_all ms) = visible ms"
proof (induction ms)
  case Nil
  have "soup_next [] = None" by (simp add: soup_next_def)
  then show ?case by (simp add: soup.stream_none)
next
  case (Cons m ms)
  then have "soup_next (soup_bytes m) = Some (Msg m (is_logout m) (is_heartbeat m), length (soup_bytes m))"
    using soup_next_encoded [of m "[]"] by simp
  from soup.stream_msg [OF this, of "\<lambda>_. True" "soup_encode_all ms"] Cons show ?case
    by simp
qed

section \<open>Properties\<close>

text \<open>
  C7: delivery. Let the bytes of a sequence of valid messages arrive in any chunks, with
  iterations of the reader's loop and completed drains in between. Once no drain is in progress
  and the loop has run as often as there are unread bytes, the messages passed to the handler
  are exactly the visible ones, in order, each once.
\<close>
theorem soup_reader_delivers:
  assumes "list_all valid_soup ms" and "received evs = soup_encode_all ms"
    and "drain_buffer (reader_run soup_deserialize (\<lambda>_. True) evs new_reader) = None"
    and "available (reader_run soup_deserialize (\<lambda>_. True) evs new_reader) \<le> int k"
  shows "delivered (reader_run soup_deserialize (\<lambda>_. True) (evs @ replicate k Tick) new_reader) =
    visible ms"
proof -
  have "reader_wf (reader_run soup_deserialize (\<lambda>_. True) evs new_reader)"
    using soup.faithful_fresh [of "\<lambda>_. True" evs] by (simp add: faithful_def)
  from length_rview [OF this] soup.run_delivers_all [of "\<lambda>_. True" evs k] assms show ?thesis
    by (simp add: soup_stream_encoded)
qed

theorem soup_reader_delivers_witness:
  "delivered (reader_run soup_deserialize (\<lambda>_. True)
      ([Data [0, 1, 72, 0, 3, 83], Tick, Data [1, 2, 0, 1, 90], Tick] @ replicate 3 Tick) new_reader) =
    visible [ServerHeartbeat, SequencedData [1, 2], EndOfSession]"
proof (rule soup_reader_delivers)
  show "received [Data [0, 1, 72, 0, 3, 83], Tick, Data [1, 2, 0, 1, 90], Tick] =
      soup_encode_all [ServerHeartbeat, SequencedData [1, 2], EndOfSession]"
    by code_simp
  have "reader_run soup_deserialize (\<lambda>_. True)
      [Data [0, 1, 72, 0, 3, 83], Tick, Data [1, 2, 0, 1, 90], Tick] new_reader =
      new_reader\<lparr>rbuffer := [0, 1, 90], delivered := [SequencedData [1, 2]]\<rparr>"
    by code_simp
  then show "drain_buffer (reader_run soup_deserialize (\<lambda>_. True)
      [Data [0, 1, 72, 0, 3, 83], Tick, Data [1, 2, 0, 1, 90], Tick] new_reader) = None"
    and "available (reader_run soup_deserialize (\<lambda>_. True)
      [Data [0, 1, 72, 0, 3, 83], Tick, Data [1, 2, 0, 1, 90], Tick] new_reader) \<le> int 3"
    by (simp_all add: new_reader_def available_def)
qed simp

text \<open>
  no reordering, loss or duplication on the way. At every moment, for arbitrary received
  bytes and an arbitrary handler, what the handler has been given is an initial part of what
  the received bytes contain.
\<close>
theorem soup_reader_prefix:
  "\<exists>rest. stream soup_next ok (received evs) =
     delivered (reader_run soup_deserialize ok evs new_reader) @ rest"
  by (rule soup.run_delivers_prefix)

text \<open>
  C8: one undecodable frame silently ends the reader. When the next frame in the buffer does not
  decode, the exception leaves the task of \<open>_process\<close>: from then on, whatever arrives, nothing
  is delivered, the reader does not count as stopped, \<open>on_close_coro\<close> is not called, and a drain
  never completes.
\<close>
theorem soup_reader_bad_frame:
  assumes "alive r" and "reader_wf r" and "drain_mode r \<noteq> Some True"
    and "rview r = f @ w" and "2 \<le> length f"
    and "length f = nat (py_int_from_bytes Big False (take 2 f)) + 2"
    and "soup_from_bytes f = Inl e"
  shows "let r' = reader_run soup_deserialize ok (Tick # evs) r
    in rtask r' = Failed e \<and> delivered r' = delivered r \<and> \<not> stopped r' \<and>
       close_calls r' = close_calls r \<and> drain_mode r' \<noteq> Some True"
proof -
  have "soup_next f = Some (Bad e, length f)"
    unfolding soup_next_def Let_def assms(6) [symmetric] using assms(5,7) by simp
  then have "soup_next (rview r) = Some (Bad e, length f)"
    using assms(4) by (simp add: soup_next_stable)
  moreover have "rview r \<noteq> []"
    using assms(4,5) by auto
  ultimately have t: "process_tick soup_deserialize ok r = r\<lparr>rtask := Failed e\<rparr>"
    using assms(1,2) by (intro soup.bad_item_tick)
  have "frozen_as (r\<lparr>rtask := Failed e\<rparr>)
      (reader_run soup_deserialize ok evs (r\<lparr>rtask := Failed e\<rparr>))"
    using assms(3) by (intro ended_run) simp_all
  with t assms(1) show ?thesis
    by (simp add: frozen_as_def alive_def Let_def)
qed

theorem soup_reader_bad_frame_witness:
  "rtask (reader_run soup_deserialize (\<lambda>_. True) (Tick # [Data [0, 1, 72], Tick])
     (on_data (blit [CHR 0x00, CHR 0x01, CHR ''>'']) new_reader)) = Failed InvalidSoupMessage"
proof -
  let ?f = "blit [CHR 0x00, CHR 0x01, CHR ''>'']"
  let ?r = "on_data ?f new_reader"
  have r: "alive ?r" "reader_wf ?r" "drain_mode ?r \<noteq> Some True" "rview ?r = ?f @ []" "2 \<le> length ?f"
    by (simp_all add: on_data_def new_reader_def alive_def reader_wf_def rview_def blit_def)
  have n: "length ?f = nat (py_int_from_bytes Big False (take 2 ?f)) + 2"
    by code_simp
  have e: "soup_from_bytes ?f = Inl InvalidSoupMessage"
    by code_simp
  from soup_reader_bad_frame [OF r n e, of "\<lambda>_. True" "[Data [0, 1, 72], Tick]"]
  show ?thesis by (simp only: Let_def)
qed

text \<open>
  a drain that meets the end of the session never completes. With a drain in progress and a
  logout message next in the buffer, the iteration that decodes it stops the reader without
  setting the event, and no later iteration does.
\<close>
theorem soup_reader_drain_logout:
  assumes "alive r" and "reader_wf r" and "drain_mode r = Some False"
    and "valid_soup m" and "is_logout m" and "rview r = soup_bytes m @ w"
  shows "let r' = reader_run soup_deserialize ok (Tick # replicate k Tick) r
    in rtask r' = Done \<and> stopped r' \<and> drain_mode r' = Some False \<and>
       close_calls r' = Suc (close_calls r)"
proof -
  have "soup_next (rview r) = Some (Msg m True (is_heartbeat m), length (soup_bytes m))"
    using assms(4-6) by (simp add: soup_next_encoded)
  from soup.stop_item_tick [OF assms(2,1) this, of ok] obtain r1
    where t: "process_tick soup_deserialize ok r = reader_stop r1" and r1: "drain_mode r1 = drain_mode r"
      "rtask r1 = Running" "\<not> stopped r1" "close_calls r1 = close_calls r"
    by blast
  have idle: "reader_run soup_deserialize ok (replicate k Tick) (reader_stop r1) = reader_stop r1"
    using r1 by (induction k) (simp_all add: process_tick_def reader_stop_def)
  show ?thesis
    using t idle r1 assms(3) by (simp add: Let_def) (simp add: reader_stop_def)
qed

theorem soup_reader_drain_logout_witness:
  "drain_mode (reader_run soup_deserialize (\<lambda>_. True) (Tick # replicate 5 Tick)
     (new_reader\<lparr>rbuffer := soup_bytes EndOfSession @ [], drain_mode := Some False,
        drain_buffer := Some []\<rparr>)) = Some False"
proof -
  let ?r = "new_reader\<lparr>rbuffer := soup_bytes EndOfSession @ [], drain_mode := Some False,
      drain_buffer := Some []\<rparr>"
  have "alive ?r" "reader_wf ?r" "drain_mode ?r = Some False" "rview ?r = soup_bytes EndOfSession @ []"
    by (simp_all add: new_reader_def alive_def reader_wf_def rview_def)
  note r = this
  have m: "valid_soup EndOfSession" "is_logout EndOfSession" by (simp_all add: is_logout_def)
  from soup_reader_drain_logout [OF r(1-3) m r(4), of "\<lambda>_. True" 5]
  show ?thesis by (simp only: Let_def)
qed

end
