(* ===== verification/FieldTypes.thy ===== *)
theory FieldTypes
  imports PyCodec
begin

text \<open>
  The field types of \<open>common/message/types.py\<close>: the packers and unpackers, the classes with the
  arguments they give them, and the registry filled by \<open>TypeDefinition.add_type\<close>. The locale
  \<open>codec\<close> is the contract between a field type and the structures built from fields (records,
  arrays, messages): an accepted value is packed with its true length, and unpacked unchanged
  whatever follows it. Each type is shown to be a codec on the values it can represent.
\<close>

section \<open>The contract of a field type\<close>

type_synonym 'v packer = "'v \<Rightarrow> (int \<times> bytes) result"
type_synonym 'v unpacker = "bytes \<Rightarrow> (int \<times> 'v) result"

locale codec =
  fixes enc :: "'v packer"
    and dec :: "'v unpacker"
    and good :: "'v \<Rightarrow> bool"
  assumes enc_good: "good v \<Longrightarrow> \<exists>bs. enc v = Inr (int (length bs), bs)"
    and dec_enc: "good v \<Longrightarrow> enc v = Inr (n, bs) \<Longrightarrow> dec (bs @ w) = Inr (n, v)"
begin

lemma roundtrip:
  assumes "good v"
  obtains bs where "enc v = Inr (int (length bs), bs)"
    and "\<And>w. dec (bs @ w) = Inr (int (length bs), v)"
  using enc_good [OF assms] dec_enc [OF assms] that by blast

lemma prefix_free:
  assumes "good v" "good v'" "enc v = Inr (n, bs)" "enc v' = Inr (n', bs')" "bs' = bs @ w"
  shows "v' = v \<and> n' = n"
  using dec_enc [OF assms(1,3), of w] dec_enc [OF assms(2,4), of "[]"] assms(5) by simp

end

section \<open>Packers and unpackers\<close>

definition int_packer_fac :: "endian \<Rightarrow> bool \<Rightarrow> nat \<Rightarrow> int packer" where
  "int_packer_fac e sg sz v = rbind (py_int_to_bytes e sg sz v) (\<lambda>bs. Inr (int sz, bs))"

definition int_unpacker_fac :: "endian \<Rightarrow> bool \<Rightarrow> nat \<Rightarrow> int unpacker" where
  "int_unpacker_fac e sg sz bs = Inr (int sz, py_int_from_bytes e sg (take sz bs))"

definition boolean_to_bytes :: "bool packer" where
  "boolean_to_bytes x = Inr (1, if x then [1] else [0])"

definition boolean_from_bytes :: "bool unpacker" where
  "boolean_from_bytes bs = Inr (1, take 1 bs = [1])"

definition char_to_bytes :: "encoding \<Rightarrow> pystr packer" where
  "char_to_bytes e x = rbind (encode e (take 1 x)) (\<lambda>bs. Inr (1, bs))"

definition char_from_bytes :: "encoding \<Rightarrow> pystr unpacker" where
  "char_from_bytes e bs = rbind (decode e (take 1 bs)) (\<lambda>s. Inr (1, s))"

text \<open>A string is prefixed with its length as a \<open>Short\<close>. The slice of the data follows Python
  for a negative length too.\<close>

definition str_pack_fac :: "encoding \<Rightarrow> pystr packer" where
  "str_pack_fac e s =
     rbind (int_packer_fac Little True 2 (int (length s))) (\<lambda>(len_size, len_bytes).
     rbind (encode e s) (\<lambda>bs. Inr (len_size + int (length s), len_bytes @ bs)))"

definition str_unpack_fac :: "encoding \<Rightarrow> pystr unpacker" where
  "str_unpack_fac e bs =
     rbind (int_unpacker_fac Little True 2 bs) (\<lambda>(offset, n).
     rbind (decode e (py_slice bs offset (offset + n))) (\<lambda>s. Inr (offset + n, s)))"

definition fixed_to_bytes :: "encoding \<Rightarrow> nat \<Rightarrow> bool \<Rightarrow> pystr packer" where
  "fixed_to_bytes e n right_justified value =
     rbind (encode e (if right_justified then rjust value n else ljust value n))
       (\<lambda>bs. Inr (int n, bs))"

definition fixed_from_bytes :: "encoding \<Rightarrow> nat \<Rightarrow> pystr unpacker" where
  "fixed_from_bytes e n bs = rbind (decode e (take n bs)) (\<lambda>s. Inr (int n, py_strip s))"

section \<open>The classes\<close>

datatype TypeClass =
    Boolean | IntT | IntBE | UnsignedInt | UnsignedIntBE | Byte | Short | ShortBE | UnsignedShort
  | UnsignedShortBE | Long | LongBE | UnsignedLong | UnsignedLongBE | CharAscii | CharIso8599
  | AsciiString | Iso8859String | FixedAsciiString | FixedIsoString

text \<open>\<open>partial(_int_packer_fac, endian, signed, size)\<close> of the integer classes.\<close>

fun int_format :: "TypeClass \<Rightarrow> (endian \<times> bool \<times> nat) option" where
  "int_format IntT = Some (Little, True, 4)"
| "int_format IntBE = Some (Big, True, 4)"
| "int_format UnsignedInt = Some (Little, False, 4)"
| "int_format UnsignedIntBE = Some (Big, False, 4)"
| "int_format Byte = Some (Little, False, 1)"
| "int_format Short = Some (Little, True, 2)"
| "int_format ShortBE = Some (Big, True, 2)"
| "int_format UnsignedShort = Some (Little, False, 2)"
| "int_format UnsignedShortBE = Some (Big, False, 2)"
| "int_format Long = Some (Little, True, 8)"
| "int_format LongBE = Some (Big, True, 8)"
| "int_format UnsignedLong = Some (Little, False, 8)"
| "int_format UnsignedLongBE = Some (Big, False, 8)"
| "int_format _ = None"

text \<open>The registry \<open>TypeDefinition.Definitions\<close>, filled by the decorators in order.\<close>

definition add_type :: "string \<times> 'c \<Rightarrow> (string \<rightharpoonup> 'c) \<Rightarrow> (string \<rightharpoonup> 'c)" where
  "add_type d defs = defs(fst d \<mapsto> snd d)"

definition type_decorators :: "(string \<times> TypeClass) list" where
  "type_decorators =
     [(''boolean'', Boolean), (''int_4'', IntT), (''int_4_be'', IntBE), (''uint_4'', UnsignedInt),
      (''uint_4_be'', UnsignedIntBE), (''byte'', Byte), (''int_2'', Short), (''int_2_be'', ShortBE),
      (''uint_2'', UnsignedShort), (''uint_2_be'', UnsignedShortBE), (''int_8'', Long),
      (''int_8_be'', LongBE), (''uint_8'', UnsignedLong), (''uint_8_be'', UnsignedLongBE),
      (''char_ascii'', CharAscii), (''char_iso-8859-1'', CharIso8599), (''str_ascii'', AsciiString),
      (''str_iso-8859-1'', Iso8859String), (''str_ascii_n'', FixedAsciiString),
      (''str_iso-8859-1_n'', FixedIsoString)]"

definition Definitions :: "string \<rightharpoonup> TypeClass" where
  "Definitions = fold add_type type_decorators Map.empty"

section \<open>Each type is a codec\<close>

interpretation int_codec:
  codec "int_packer_fac e sg (Suc n)" "int_unpacker_fac e sg (Suc n)" "int_fits sg (Suc n)"
  for e sg n
proof unfold_locales
  fix v
  assume "int_fits sg (Suc n) v"
  then show "\<exists>bs. int_packer_fac e sg (Suc n) v = Inr (int (length bs), bs)"
    by (intro exI [of _ "order_bytes e (le_bytes (Suc n) v)"])
      (simp add: int_packer_fac_def py_int_to_bytes_def del: le_bytes.simps)
next
  fix v k bs w
  assume "int_fits sg (Suc n) v" and "int_packer_fac e sg (Suc n) v = Inr (k, bs)"
  then show "int_unpacker_fac e sg (Suc n) (bs @ w) = Inr (k, v)"
    by (auto simp: int_packer_fac_def py_int_to_bytes_def int_unpacker_fac_def py_int_roundtrip
        simp del: le_bytes.simps)
qed

interpretation boolean_codec: codec boolean_to_bytes boolean_from_bytes "\<lambda>_. True"
  by unfold_locales (auto simp: boolean_to_bytes_def boolean_from_bytes_def split: if_splits)

definition one_char :: "encoding \<Rightarrow> pystr \<Rightarrow> bool" where
  "one_char e s \<longleftrightarrow> length s = 1 \<and> encodable e s"

interpretation char_codec: codec "char_to_bytes e" "char_from_bytes e" "one_char e" for e
proof unfold_locales
  fix v n bs w
  assume "one_char e v" and "char_to_bytes e v = Inr (n, bs)"
  moreover have "decode e (map of_nat v) = Inr v" if "one_char e v"
    using that by (simp add: one_char_def decode_map_of_nat)
  ultimately show "char_from_bytes e (bs @ w) = Inr (n, v)"
    by (auto simp: one_char_def char_to_bytes_def char_from_bytes_def codec_simps)
qed (auto simp: one_char_def char_to_bytes_def codec_simps)

definition short_string :: "encoding \<Rightarrow> pystr \<Rightarrow> bool" where
  "short_string e s \<longleftrightarrow> length s < 32768 \<and> encodable e s"

interpretation string_codec: codec "str_pack_fac e" "str_unpack_fac e" "short_string e" for e
proof unfold_locales
  fix v
  assume "short_string e v"
  then show "\<exists>bs. str_pack_fac e v = Inr (int (length bs), bs)"
    by (auto simp: short_string_def str_pack_fac_def int_packer_fac_def py_int_to_bytes_def
        int_fits_def codec_simps)
next
  fix v n bs w
  assume v: "short_string e v" and p: "str_pack_fac e v = Inr (n, bs)"
  define lb where "lb = order_bytes Little (le_bytes 2 (int (length v)))"
  have bs: "bs = lb @ map of_nat v" and n: "n = 2 + int (length v)" and len: "length lb = 2"
    using v p by (auto simp: short_string_def str_pack_fac_def int_packer_fac_def
        py_int_to_bytes_def int_fits_def codec_simps lb_def)
  have "py_int_from_bytes Little True lb = int (length v)"
    unfolding lb_def using v by (intro py_int_roundtrip) (auto simp: short_string_def int_fits_def)
  moreover have "py_slice (lb @ map of_nat v @ w) 2 (2 + int (length v)) = map of_nat v"
    using py_slice_nat [of "lb @ map of_nat v @ w" 2 "2 + length v"] len by simp
  ultimately show "str_unpack_fac e (bs @ w) = Inr (n, v)"
    using v len by (simp add: bs n str_unpack_fac_def int_unpacker_fac_def codec_simps short_string_def)
qed

definition fixed_string :: "encoding \<Rightarrow> nat \<Rightarrow> pystr \<Rightarrow> bool" where
  "fixed_string e n s \<longleftrightarrow> length s \<le> n \<and> encodable e s \<and> unpadded s"

interpretation fixed_codec: codec "fixed_to_bytes e n r" "fixed_from_bytes e n" "fixed_string e n"
  for e n r
  by unfold_locales
    (auto simp: fixed_string_def fixed_to_bytes_def fixed_from_bytes_def codec_simps split: if_splits)

end
