(* ===== verification/Structures.thy ===== *)
theory Structures
  imports FieldTypes
begin

text \<open>
  The structures of \<open>common/message/structures.py\<close>: fields, records (with and without a present
  bit), arrays, and the instances they describe. A type is described by \<open>ftype\<close>, a Python
  value by \<open>pyval\<close>; \<open>to_bytes\<close> and \<open>from_bytes\<close> dispatch on both as the code does, including
  the exceptions raised for values of another kind. Every type is a \<open>codec\<close> on the values
  \<open>good\<close> for it.
\<close>

section \<open>Values and types\<close>

text \<open>A record instance carries its class's name and its dictionary \<open>values\<close>, in insertion
  order; \<open>VEnum\<close> is a member of an \<open>Enum\<close> with its value.\<close>

datatype pyval =
    VNone | VBool bool | VInt int | VStr pystr | VList "pyval list"
  | VRec string "(string \<times> pyval) list" | VEnum pyval

datatype rkind = PlainRecord | WithPresentBit

text \<open>\<open>Prim\<close> is one of the classes, \<open>Fixed\<close> an instance of \<open>FixedAsciiString\<close> or
  \<open>FixedIsoString\<close>, \<open>Rec\<close> a subclass of \<open>Record\<close> or \<open>RecordWithPresentBit\<close> with its \<open>Fields\<close>,
  \<open>Arr\<close> an \<open>Array\<close> with its element type and length type.\<close>

datatype ftype =
    Prim TypeClass
  | Fixed encoding nat bool
  | Rec rkind string "fld list"
  | Arr ftype TypeClass
and fld = Field (fld_name: string) (fld_type: ftype) (fld_default: "pyval option")

lemma size_fld_type [termination_simp]: "f \<in> set fs \<Longrightarrow> size (fld_type f) < Suc (size_list size fs)"
  by (induction fs) (auto, (metis add.commute add_Suc_right fld.exhaust_sel fld.size(2) less_Suc_eq_le
      le_add1 le_imp_less_Suc less_SucI trans_le_add2)+)

fun truthy :: "pyval \<Rightarrow> bool" where
  "truthy VNone = False"
| "truthy (VBool b) = b"
| "truthy (VInt i) = (i \<noteq> 0)"
| "truthy (VStr s) = (s \<noteq> [])"
| "truthy (VList vs) = (vs \<noteq> [])"
| "truthy (VRec _ _) = True"
| "truthy (VEnum _) = True"

section \<open>Combinators of the loops\<close>

text \<open>The loop of \<open>Record.from_bytes\<close>: one field after the other, each from the bytes at the
  running offset.\<close>

fun fields_from ::
  "(fld \<Rightarrow> pyval unpacker) \<Rightarrow> fld list \<Rightarrow> bytes \<Rightarrow> int \<Rightarrow> (string \<times> pyval) list
     \<Rightarrow> (int \<times> (string \<times> pyval) list) result" where
  "fields_from u [] bs offset values = Inr (offset, values)"
| "fields_from u (f # fs) bs offset values =
     rbind (u f (py_from bs offset)) (\<lambda>(offset1, v).
       fields_from u fs bs (offset + offset1) (dict_set values (fld_name f) v))"

lemma fields_from_cong [fundef_cong]:
  "fs = gs \<Longrightarrow> bs = cs \<Longrightarrow> i = j \<Longrightarrow> d = e \<Longrightarrow> (\<And>f b. f \<in> set gs \<Longrightarrow> u f b = v f b) \<Longrightarrow>
   fields_from u fs bs i d = fields_from v gs cs j e"
proof (induction gs arbitrary: fs bs cs i j d e)
  case (Cons g gs)
  then show ?case by (auto intro!: rbind_cong simp: case_prod_beta)
qed simp

text \<open>The loop of \<open>Array.from_bytes\<close>.\<close>

fun items_from :: "pyval unpacker \<Rightarrow> nat \<Rightarrow> bytes \<Rightarrow> int \<Rightarrow> pyval list \<Rightarrow> (int \<times> pyval list) result" where
  "items_from u 0 bs offset data = Inr (offset, data)"
| "items_from u (Suc k) bs offset data =
     rbind (u (py_from bs offset)) (\<lambda>(offset1, v). items_from u k bs (offset + offset1) (data @ [v]))"

definition sum_segments :: "(int \<times> bytes) list \<Rightarrow> (int \<times> bytes) result" where
  "sum_segments segs =
     (if segs = [] then Inl IndexError else Inr (sum_list (map fst segs), concat (map snd segs)))"

section \<open>Serialization of the basic types\<close>

fun pack_int :: "TypeClass \<Rightarrow> pyval packer" where
  "pack_int c (VRec _ _) = Inl TypeError"
| "pack_int c v =
     (case int_format c of
        None \<Rightarrow> Inl TypeError
      | Some (e, sg, n) \<Rightarrow>
          (case v of
             VInt i \<Rightarrow> int_packer_fac e sg n i
           | VBool b \<Rightarrow> int_packer_fac e sg n (of_bool b)
           | _ \<Rightarrow> Inl AttributeError))"

fun pack_char :: "encoding \<Rightarrow> pyval packer" where
  "pack_char e (VStr s) = char_to_bytes e s"
| "pack_char e (VList vs) = Inl AttributeError"
| "pack_char e _ = Inl TypeError"

fun pack_str :: "encoding \<Rightarrow> pyval packer" where
  "pack_str e (VStr s) = str_pack_fac e s"
| "pack_str e (VList vs) =
     rbind (int_packer_fac Little True 2 (int (length vs))) (\<lambda>_. Inl AttributeError)"
| "pack_str e _ = Inl TypeError"

definition pack_prim :: "TypeClass \<Rightarrow> pyval packer" where
  "pack_prim c v =
     (case c of
        Boolean \<Rightarrow> boolean_to_bytes (truthy v)
      | CharAscii \<Rightarrow> pack_char Ascii v
      | CharIso8599 \<Rightarrow> pack_char Latin1 v
      | AsciiString \<Rightarrow> pack_str Ascii v
      | Iso8859String \<Rightarrow> pack_str Latin1 v
      | FixedAsciiString \<Rightarrow> Inl TypeError
      | FixedIsoString \<Rightarrow> Inl TypeError
      | _ \<Rightarrow> pack_int c v)"

fun pack_fixed :: "encoding \<Rightarrow> nat \<Rightarrow> bool \<Rightarrow> pyval packer" where
  "pack_fixed e n r (VStr s) = fixed_to_bytes e n r s"
| "pack_fixed e n r (VRec _ _) = Inl KeyError"
| "pack_fixed e n r _ = Inl AttributeError"

definition as_val :: "('a \<Rightarrow> pyval) \<Rightarrow> (int \<times> 'a) result \<Rightarrow> (int \<times> pyval) result" where
  "as_val f r = rbind r (\<lambda>(n, x). Inr (n, f x))"

definition unpack_prim :: "TypeClass \<Rightarrow> pyval unpacker" where
  "unpack_prim c bs =
     (case c of
        Boolean \<Rightarrow> as_val VBool (boolean_from_bytes bs)
      | CharAscii \<Rightarrow> as_val VStr (char_from_bytes Ascii bs)
      | CharIso8599 \<Rightarrow> as_val VStr (char_from_bytes Latin1 bs)
      | AsciiString \<Rightarrow> as_val VStr (str_unpack_fac Ascii bs)
      | Iso8859String \<Rightarrow> as_val VStr (str_unpack_fac Latin1 bs)
      | _ \<Rightarrow> (case int_format c of
               None \<Rightarrow> Inl TypeError
             | Some (e, sg, n) \<Rightarrow> as_val VInt (int_unpacker_fac e sg n bs)))"

section \<open>Records\<close>

text \<open>The class attribute \<open>default_value\<close> of a type.\<close>

fun type_default :: "ftype \<Rightarrow> pyval" where
  "type_default (Prim c) =
     (if c = Boolean then VBool False
      else if c = CharAscii \<or> c = CharIso8599 then VStr (lit '' '')
      else if int_format c \<noteq> None then VInt 0 else VStr [])"
| "type_default (Fixed _ _ _) = VStr []"
| "type_default (Rec _ _ _) = VNone"
| "type_default (Arr _ _) = VList []"

text \<open>\<open>_Record.get_field_value\<close> on an instance: a missing value is the default of the field,
  or else that of its type.\<close>

definition field_default :: "fld \<Rightarrow> pyval" where
  "field_default f = (case fld_default f of None \<Rightarrow> type_default (fld_type f) | Some d \<Rightarrow> d)"

fun get_field_value :: "fld list \<Rightarrow> pyval \<Rightarrow> string \<Rightarrow> pyval result" where
  "get_field_value fs (VRec _ values) key =
     (case find (\<lambda>f. fld_name f = key) (rev fs) of
        None \<Rightarrow> Inl KeyError
      | Some f \<Rightarrow> Inr (case map_of values key of Some v \<Rightarrow> v | None \<Rightarrow> field_default f))"
| "get_field_value fs _ key = Inl AttributeError"

text \<open>\<open>init_values\<close> and \<open>__attrs_post_init__\<close>: a new instance holds a new instance for every
  field whose type is a record class.\<close>

fun is_record :: "ftype \<Rightarrow> bool" where
  "is_record (Rec _ _ _) = True"
| "is_record _ = False"

fun record_new :: "ftype \<Rightarrow> pyval" where
  "record_new (Rec k n fs) =
     VRec n (foldl (\<lambda>d p. dict_set d (fst p) (snd p)) []
       (map (\<lambda>f. (fld_name f, record_new (fld_type f))) (filter (\<lambda>f. is_record (fld_type f)) fs)))"
| "record_new t = VNone"

definition record_init :: "string \<Rightarrow> fld list \<Rightarrow> (string \<times> pyval) list \<Rightarrow> pyval" where
  "record_init n fs values =
     VRec n (foldl (\<lambda>d f. if is_record (fld_type f) \<and> map_of d (fld_name f) = None
                          then dict_set d (fld_name f) (record_new (fld_type f)) else d) values fs)"

text \<open>\<open>Array.__attrs_post_init__\<close>: elements with a present bit are packed and unpacked as plain
  records; the \<open>issubclass\<close> test raises for an element type that is not a class.\<close>

fun array_elem :: "ftype \<Rightarrow> ftype" where
  "array_elem (Rec WithPresentBit n fs) = Rec PlainRecord n fs"
| "array_elem t = t"

fun array_init :: "ftype \<Rightarrow> TypeClass \<Rightarrow> ftype result" where
  "array_init (Fixed _ _ _) l = Inl TypeError"
| "array_init (Arr _ _) l = Inl TypeError"
| "array_init t l = Inr (Arr t l)"

lemma size_array_elem [simp]: "size (array_elem t) = size t"
  by (cases t rule: array_elem.cases) simp_all

section \<open>Serialization of structures\<close>

text \<open>\<open>record is None or len(record.values) == 0\<close>.\<close>

fun absent :: "pyval \<Rightarrow> bool result" where
  "absent VNone = Inr True"
| "absent (VRec _ values) = Inr (values = [])"
| "absent _ = Inl AttributeError"

fun items_of :: "pyval \<Rightarrow> pyval list result" where
  "items_of (VList vs) = Inr vs"
| "items_of (VStr s) = Inr (map (\<lambda>c. VStr [c]) s)"
| "items_of _ = Inl TypeError"

fun pack :: "ftype \<Rightarrow> pyval packer" where
  "pack (Prim c) v = pack_prim c v"
| "pack (Fixed e n r) v = pack_fixed e n r v"
| "pack (Rec k n fs) v =
     rbind (if k = WithPresentBit then absent v else Inr False) (\<lambda>ab.
       if ab then boolean_to_bytes False
       else rbind (map_result (\<lambda>f. rbind (get_field_value fs v (fld_name f)) (pack (fld_type f))) fs) (\<lambda>segs.
            rbind (sum_segments segs) (\<lambda>(len, bs).
              if k = WithPresentBit
              then rbind (boolean_to_bytes True) (\<lambda>(o1, b1). Inr (o1 + len, b1 @ bs))
              else Inr (len, bs))))"
| "pack (Arr t l) v =
     rbind (items_of v) (\<lambda>vs.
     rbind (pack_prim l (VInt (int (length vs)))) (\<lambda>len_seg.
     rbind (map_result (pack (array_elem t)) vs) (\<lambda>segs. sum_segments (len_seg # segs))))"

fun range_len :: "pyval \<Rightarrow> nat result" where
  "range_len (VInt i) = Inr (nat i)"
| "range_len (VBool b) = Inr (of_bool b)"
| "range_len _ = Inl TypeError"

fun unpack :: "ftype \<Rightarrow> pyval unpacker" where
  "unpack (Prim c) bs = unpack_prim c bs"
| "unpack (Fixed e n r) bs = as_val VStr (fixed_from_bytes e n bs)"
| "unpack (Rec k n fs) bs =
     rbind (if k = WithPresentBit then boolean_from_bytes bs else Inr (0, True)) (\<lambda>(offset, present).
       if \<not> present then Inr (1, VNone)
       else rbind (fields_from (\<lambda>f. unpack (fld_type f)) fs (py_from bs offset) 0 []) (\<lambda>(offset1, values).
              Inr (offset + offset1, record_init n fs values)))"
| "unpack (Arr t l) bs =
     rbind (unpack_prim l bs) (\<lambda>(offset, n).
     rbind (range_len n) (\<lambda>k.
     rbind (items_from (unpack (array_elem t)) k bs offset []) (\<lambda>(total, data).
       Inr (total, VList data))))"

section \<open>The values a type represents\<close>

definition good_prim :: "TypeClass \<Rightarrow> pyval \<Rightarrow> bool" where
  "good_prim c v =
     (case v of
        VBool b \<Rightarrow> c = Boolean
      | VInt i \<Rightarrow> (case int_format c of None \<Rightarrow> False | Some (e, sg, n) \<Rightarrow> int_fits sg n i)
      | VStr s \<Rightarrow>
          (if c = CharAscii then one_char Ascii s else if c = CharIso8599 then one_char Latin1 s
           else if c = AsciiString then short_string Ascii s
           else c = Iso8859String \<and> short_string Latin1 s)
      | _ \<Rightarrow> False)"

fun good :: "ftype \<Rightarrow> pyval \<Rightarrow> bool" where
  "good (Prim c) v = good_prim c v"
| "good (Fixed e n r) v = (case v of VStr s \<Rightarrow> fixed_string e n s | _ \<Rightarrow> False)"
| "good (Rec k n fs) v =
     (case v of
        VNone \<Rightarrow> k = WithPresentBit
      | VRec m values \<Rightarrow>
          m = n \<and> fs \<noteq> [] \<and> distinct (map fld_name fs) \<and> map fst values = map fld_name fs \<and>
          list_all (\<lambda>f. case map_of values (fld_name f) of
                          None \<Rightarrow> False | Some x \<Rightarrow> good (fld_type f) x) fs
      | _ \<Rightarrow> False)"
| "good (Arr t l) v =
     (case v of
        VList vs \<Rightarrow>
          good_prim l (VInt (int (length vs))) \<and> list_all (good (array_elem t)) vs
      | _ \<Rightarrow> False)"

section \<open>Every type is a codec\<close>

definition carries :: "(int \<times> bytes) result \<Rightarrow> pyval unpacker \<Rightarrow> pyval \<Rightarrow> bool" where
  "carries r u v \<longleftrightarrow> (\<exists>bs. r = Inr (int (length bs), bs) \<and> (\<forall>w. u (bs @ w) = Inr (int (length bs), v)))"

lemma int_format_cases:
  "int_format c = Some (e, sg, n) \<Longrightarrow> \<exists>m. n = Suc m \<and>
     (\<forall>i. pack_prim c (VInt i) = int_packer_fac e sg n i) \<and>
     (\<forall>bs. unpack_prim c bs = as_val VInt (int_unpacker_fac e sg n bs))"
  by (cases c) (auto simp: pack_prim_def unpack_prim_def)

lemma codec_carries:
  assumes "codec enc dec ok" and "ok x" and "\<And>bs. u bs = as_val f (dec bs)"
  shows "carries (enc x) u (f x)"
proof -
  from codec.roundtrip [OF assms(1,2)] obtain bs
    where "enc x = Inr (int (length bs), bs)" "\<And>w. dec (bs @ w) = Inr (int (length bs), x)"
    by blast
  with assms(3) show ?thesis by (auto simp: carries_def as_val_def)
qed

lemma prim_carries:
  assumes "good_prim c v"
  shows "carries (pack_prim c v) (unpack_prim c) v"
proof (cases v)
  case (VBool b)
  with assms codec_carries [OF boolean_codec.codec_axioms, where u = "unpack_prim c" and f = VBool and x = b]
  show ?thesis by (simp add: good_prim_def pack_prim_def unpack_prim_def)
next
  case (VInt i)
  with assms obtain e sg n where f: "int_format c = Some (e, sg, n)" and i: "int_fits sg n i"
    by (auto simp: good_prim_def split: option.splits)
  from int_format_cases [OF f] obtain m where "n = Suc m" and
    "\<And>i. pack_prim c (VInt i) = int_packer_fac e sg n i"
    "\<And>bs. unpack_prim c bs = as_val VInt (int_unpacker_fac e sg n bs)"
    by blast
  with VInt i codec_carries [OF int_codec.codec_axioms, where u = "unpack_prim c" and f = VInt and x = i]
  show ?thesis by simp
next
  case (VStr s)
  with assms consider e where "one_char e s" "c = CharAscii \<and> e = Ascii \<or> c = CharIso8599 \<and> e = Latin1"
    | e where "short_string e s" "c = AsciiString \<and> e = Ascii \<or> c = Iso8859String \<and> e = Latin1"
    by (auto simp: good_prim_def split: if_splits)
  then show ?thesis
  proof cases
    case 1
    with VStr codec_carries [OF char_codec.codec_axioms 1(1), where u = "unpack_prim c" and f = VStr]
    show ?thesis by (auto simp: pack_prim_def unpack_prim_def)
  next
    case 2
    with VStr codec_carries [OF string_codec.codec_axioms 2(1), where u = "unpack_prim c" and f = VStr]
    show ?thesis by (auto simp: pack_prim_def unpack_prim_def)
  qed
qed (use assms in \<open>simp_all add: good_prim_def\<close>)

lemma fields_carry:
  assumes "\<And>f. f \<in> set fs \<Longrightarrow> carries (enc f) (u f) (val f)"
    and "distinct (map fld_name fs)" and "set (map fld_name fs) \<inter> set (map fst d) = {}"
  shows "\<exists>segs. map_result enc fs = Inr segs \<and> length segs = length fs \<and>
    sum_list (map fst segs) = int (length (concat (map snd segs))) \<and>
    (\<forall>pre w. fields_from u fs (pre @ concat (map snd segs) @ w) (int (length pre)) d =
       Inr (int (length pre + length (concat (map snd segs))),
            d @ map (\<lambda>f. (fld_name f, val f)) fs))"
  using assms
proof (induction fs arbitrary: d)
  case (Cons f fs)
  from Cons.prems(1) [of f] obtain b where b: "enc f = Inr (int (length b), b)"
    and u: "\<And>w. u f (b @ w) = Inr (int (length b), val f)"
    by (auto simp: carries_def)
  have d: "dict_set d (fld_name f) (val f) = d @ [(fld_name f, val f)]"
    using Cons.prems(3) by (intro dict_set_new) auto
  have "\<exists>segs. map_result enc fs = Inr segs \<and> length segs = length fs \<and>
      sum_list (map fst segs) = int (length (concat (map snd segs))) \<and>
      (\<forall>pre w. fields_from u fs (pre @ concat (map snd segs) @ w) (int (length pre))
        (d @ [(fld_name f, val f)]) =
       Inr (int (length pre + length (concat (map snd segs))),
            (d @ [(fld_name f, val f)]) @ map (\<lambda>f. (fld_name f, val f)) fs))"
    using Cons.prems by (intro Cons.IH) auto
  then obtain segs where segs: "map_result enc fs = Inr segs" "length segs = length fs"
    "sum_list (map fst segs) = int (length (concat (map snd segs)))"
    and rest: "\<And>pre w. fields_from u fs (pre @ concat (map snd segs) @ w) (int (length pre))
        (d @ [(fld_name f, val f)]) =
       Inr (int (length pre + length (concat (map snd segs))),
            (d @ [(fld_name f, val f)]) @ map (\<lambda>f. (fld_name f, val f)) fs)"
    by blast
  have "fields_from u (f # fs) (pre @ concat (map snd ((int (length b), b) # segs)) @ w)
      (int (length pre)) d =
      Inr (int (length pre + length (concat (map snd ((int (length b), b) # segs)))),
        d @ map (\<lambda>f. (fld_name f, val f)) (f # fs))" for pre w
    using rest [of "pre @ b" w] by (simp add: slice_simps u d)
  with b segs show ?case
    by (intro exI [of _ "(int (length b), b) # segs"]) simp
qed simp

lemma items_carry:
  assumes "\<And>v. v \<in> set vs \<Longrightarrow> carries (enc v) u v"
  shows "\<exists>segs. map_result enc vs = Inr segs \<and>
    sum_list (map fst segs) = int (length (concat (map snd segs))) \<and>
    (\<forall>pre w d. items_from u (length vs) (pre @ concat (map snd segs) @ w) (int (length pre)) d =
       Inr (int (length pre + length (concat (map snd segs))), d @ vs))"
  using assms
proof (induction vs)
  case (Cons v vs)
  from Cons.prems [of v] obtain b where b: "enc v = Inr (int (length b), b)"
    and u: "\<And>w. u (b @ w) = Inr (int (length b), v)"
    by (auto simp: carries_def)
  from Cons obtain segs where segs: "map_result enc vs = Inr segs"
    "sum_list (map fst segs) = int (length (concat (map snd segs)))"
    and rest: "\<And>pre w d. items_from u (length vs) (pre @ concat (map snd segs) @ w) (int (length pre)) d =
       Inr (int (length pre + length (concat (map snd segs))), d @ vs)"
    by auto
  have "items_from u (length (v # vs)) (pre @ concat (map snd ((int (length b), b) # segs)) @ w)
      (int (length pre)) d =
      Inr (int (length pre + length (concat (map snd ((int (length b), b) # segs)))), d @ v # vs)"
    for pre w d
    using rest [of "pre @ b" w "d @ [v]"] by (simp add: slice_simps u)
  with b segs show ?case
    by (intro exI [of _ "(int (length b), b) # segs"]) simp
qed simp

lemma record_init_complete:
  "\<forall>f \<in> set fs. \<exists>x. map_of values (fld_name f) = Some x \<Longrightarrow>
   record_init n fs values = VRec n values"
  by (induction fs) (auto simp add: record_init_def)

lemma good_record_values:
  assumes "map fst values = map fld_name fs" "distinct (map fld_name fs)"
  shows "map (\<lambda>f. (fld_name f, the (map_of values (fld_name f)))) fs = values"
proof -
  let ?g = "\<lambda>k. (k, the (map_of values k))"
  have "map (?g \<circ> fld_name) fs = map (?g \<circ> fst) values"
    by (metis assms(1) map_map)
  also have "\<dots> = values"
    using assms by (auto intro!: map_idI)
  finally show ?thesis by (simp add: comp_def)
qed

lemma get_field_value_present:
  assumes "f \<in> set fs" "map_of values (fld_name f) = Some x"
  shows "get_field_value fs (VRec n values) (fld_name f) = Inr x"
proof -
  from assms(1) have "find (\<lambda>g. fld_name g = fld_name f) (rev fs) \<noteq> None"
    by (auto simp: find_None_iff)
  with assms(2) show ?thesis by auto
qed

lemma record_carries:
  assumes "good (Rec k n fs) (VRec m vs)"
    and IH: "\<And>f x. f \<in> set fs \<Longrightarrow> good (fld_type f) x \<Longrightarrow> carries (pack (fld_type f) x) (unpack (fld_type f)) x"
  shows "carries (pack (Rec k n fs) (VRec m vs)) (unpack (Rec k n fs)) (VRec m vs)"
proof -
  let ?v = "VRec m vs" and ?val = "\<lambda>f. the (map_of vs (fld_name f))"
  let ?enc = "\<lambda>f. rbind (get_field_value fs ?v (fld_name f)) (pack (fld_type f))"
  from assms(1) have m: "m = n" "fs \<noteq> []" "distinct (map fld_name fs)" "map fst vs = map fld_name fs"
    and g: "\<And>f. f \<in> set fs \<Longrightarrow> \<exists>x. map_of vs (fld_name f) = Some x \<and> good (fld_type f) x"
    by (auto simp: list_all_iff split: option.splits)
  have "carries (?enc f) (unpack (fld_type f)) (?val f)" if "f \<in> set fs" for f
  proof -
    from g [OF that] obtain x where x: "map_of vs (fld_name f) = Some x" "good (fld_type f) x"
      by auto
    show ?thesis
      using IH [OF that x(2)] get_field_value_present [OF that x(1), of m] x(1) by simp
  qed
  from fields_carry [of fs ?enc "\<lambda>f. unpack (fld_type f)" ?val "[]", OF this m(3)]
  obtain segs where segs: "map_result ?enc fs = Inr segs" "length segs = length fs"
    "sum_list (map fst segs) = int (length (concat (map snd segs)))"
    and dec: "\<And>w. fields_from (\<lambda>f. unpack (fld_type f)) fs (concat (map snd segs) @ w) 0 [] =
       Inr (int (length (concat (map snd segs))), map (\<lambda>f. (fld_name f, ?val f)) fs)"
    by (auto dest: spec [of _ "[]"])
  have vals: "map (\<lambda>f. (fld_name f, ?val f)) fs = vs"
    by (rule good_record_values [OF m(4,3)])
  have init: "record_init n fs vs = ?v"
    using record_init_complete [of fs vs n] g m(1) by blast
  have segs_nonempty: "segs \<noteq> []" and vals_ne: "vs \<noteq> []"
    using segs(2) m(2,4) by auto
  let ?bs = "concat (map snd segs)"
  have sum: "sum_segments segs = Inr (int (length ?bs), ?bs)"
    using segs segs_nonempty by (simp add: sum_segments_def)
  show ?thesis
  proof (cases k)
    case PlainRecord
    have "pack (Rec k n fs) ?v = Inr (int (length ?bs), ?bs)"
      using segs(1) sum PlainRecord by (simp del: get_field_value.simps)
    moreover have "unpack (Rec k n fs) (?bs @ w) = Inr (int (length ?bs), ?v)" for w
      using dec [of w] vals init PlainRecord slice_simps(2) [of "?bs @ w" 0] by simp
    ultimately show ?thesis by (auto simp: carries_def)
  next
    case WithPresentBit
    have "pack (Rec k n fs) ?v = Inr (int (length (1 # ?bs)), 1 # ?bs)"
      using segs(1) sum WithPresentBit vals_ne
      by (simp add: boolean_to_bytes_def del: get_field_value.simps)
    moreover have "unpack (Rec k n fs) ((1 # ?bs) @ w) = Inr (int (length (1 # ?bs)), ?v)" for w
      using dec [of w] vals init WithPresentBit slice_simps(2) [of "1 # ?bs @ w" 1]
      by (simp add: boolean_from_bytes_def)
    ultimately show ?thesis unfolding carries_def by blast
  qed
qed

lemma array_carries:
  assumes "good (Arr t l) v"
    and IH: "\<And>x. good (array_elem t) x \<Longrightarrow> carries (pack (array_elem t) x) (unpack (array_elem t)) x"
  shows "carries (pack (Arr t l) v) (unpack (Arr t l)) v"
proof -
  from assms(1) obtain vs where v: "v = VList vs" and l: "good_prim l (VInt (int (length vs)))"
    and g: "\<And>x. x \<in> set vs \<Longrightarrow> good (array_elem t) x"
    by (auto simp: list_all_iff split: pyval.splits)
  from prim_carries [OF l] obtain lb
    where lb: "pack_prim l (VInt (int (length vs))) = Inr (int (length lb), lb)"
      and ul: "\<And>w. unpack_prim l (lb @ w) = Inr (int (length lb), VInt (int (length vs)))"
    by (auto simp: carries_def)
  from items_carry [of vs "pack (array_elem t)" "unpack (array_elem t)", OF IH [OF g]]
  obtain segs where segs: "map_result (pack (array_elem t)) vs = Inr segs"
    "sum_list (map fst segs) = int (length (concat (map snd segs)))"
    and dec: "\<And>pre w d. items_from (unpack (array_elem t)) (length vs) (pre @ concat (map snd segs) @ w)
        (int (length pre)) d = Inr (int (length pre + length (concat (map snd segs))), d @ vs)"
    by blast
  let ?bs = "lb @ concat (map snd segs)"
  have "pack (Arr t l) v = Inr (int (length ?bs), ?bs)"
    using v lb segs by (simp add: sum_segments_def)
  moreover have "unpack (Arr t l) (?bs @ w) = Inr (int (length ?bs), v)" for w
    using v ul dec [of lb w "[]"] by simp
  ultimately show ?thesis by (auto simp: carries_def)
qed

lemma good_carries: "good t v \<Longrightarrow> carries (pack t v) (unpack t) v"
proof (induction t arbitrary: v rule: measure_induct_rule [where f = size])
  case (less t)
  show ?case
  proof (cases t)
    case (Prim c)
    with less.prems prim_carries [of c v] show ?thesis by (simp add: carries_def)
  next
    case (Fixed e n r)
    with less.prems obtain s where v: "v = VStr s" "fixed_string e n s"
      by (auto split: pyval.splits)
    with Fixed codec_carries [OF fixed_codec.codec_axioms v(2), where u = "unpack t" and f = VStr]
    show ?thesis by (simp add: carries_def)
  next
    case (Rec k n fs)
    have IH: "carries (pack (fld_type f) x) (unpack (fld_type f)) x"
      if "f \<in> set fs" "good (fld_type f) x" for f x
      using less.IH [of "fld_type f" x] size_fld_type [OF that(1)] that(2) Rec by simp
    show ?thesis
    proof (cases v)
      case VNone
      with less.prems Rec show ?thesis
        by (simp add: carries_def boolean_to_bytes_def boolean_from_bytes_def)
    next
      case (VRec m d)
      with less.prems Rec record_carries [OF _ IH] show ?thesis by blast
    qed (use less.prems Rec in simp_all)
  next
    case (Arr t' l)
    have "carries (pack (Arr t' l) v) (unpack (Arr t' l)) v"
      using less.prems less.IH [of "array_elem t'"] Arr by (intro array_carries) simp_all
    with Arr show ?thesis by (simp only:)
  qed
qed

interpretation ftype: codec "pack t" "unpack t" "good t" for t
proof unfold_locales
  fix v t
  assume "good t v"
  from good_carries [OF this] show "\<exists>bs. pack t v = Inr (int (length bs), bs)"
    by (auto simp: carries_def)
next
  fix v n bs w t
  assume "good t v" and "pack t v = Inr (n, bs)"
  with good_carries [OF this(1)] show "unpack t (bs @ w) = Inr (n, v)"
    by (auto simp: carries_def)
qed

end
