(* ===== verification/Records.thy ===== *)
theory Records
  imports Structures
begin

text \<open>
  The record instances of \<open>common/message/structures.py\<close> as their users see them: reading and
  assigning attributes (\<open>__getattr__\<close>, \<open>__setattr__\<close>), \<open>as_collection\<close> and \<open>get_value\<close>, and the
  properties of serialization that hold of every structure (built on the interpretation
  \<open>ftype\<close> of the locale \<open>codec\<close>).
\<close>

section \<open>Attributes\<close>

text \<open>An instance: the name of its class, \<open>values\<close>, and the rest of \<open>__dict__\<close>.\<close>

record rec_obj =
  obj_cls :: string
  obj_values :: "(string \<times> pyval) list"
  obj_dict :: "(string \<times> pyval) list"

definition IndexedFields :: "fld list \<Rightarrow> string \<Rightarrow> fld option" where
  "IndexedFields fs key = find (\<lambda>f. fld_name f = key) (rev fs)"

text \<open>\<open>isinstance(value, field.type.type_cls)\<close>; in Python \<open>bool\<close> is a subclass of \<open>int\<close>.\<close>

fun is_type_cls :: "ftype \<Rightarrow> pyval \<Rightarrow> bool" where
  "is_type_cls (Prim c) v =
     (case v of
        VBool _ \<Rightarrow> c = Boolean \<or> int_format c \<noteq> None
      | VInt _ \<Rightarrow> int_format c \<noteq> None
      | VStr _ \<Rightarrow> c \<noteq> Boolean \<and> int_format c = None
      | _ \<Rightarrow> False)"
| "is_type_cls (Fixed _ _ _) v = (case v of VStr _ \<Rightarrow> True | _ \<Rightarrow> False)"
| "is_type_cls (Rec _ n _) v = (case v of VRec m _ \<Rightarrow> m = n | _ \<Rightarrow> False)"
| "is_type_cls (Arr _ _) v = (case v of VList _ \<Rightarrow> True | _ \<Rightarrow> False)"

definition enum_value :: "pyval \<Rightarrow> pyval" where
  "enum_value v = (case v of VEnum x \<Rightarrow> x | _ \<Rightarrow> v)"

definition record_setattr :: "fld list \<Rightarrow> rec_obj \<Rightarrow> string \<Rightarrow> pyval \<Rightarrow> rec_obj result" where
  "record_setattr fs ob key v =
     (case IndexedFields fs key of
        None \<Rightarrow> Inr (ob\<lparr>obj_dict := dict_set (obj_dict ob) key v\<rparr>)
      | Some f \<Rightarrow>
          if is_type_cls (fld_type f) (enum_value v)
          then Inr (ob\<lparr>obj_values := dict_set (obj_values ob) key (enum_value v)\<rparr>)
          else Inl ValueError)"

definition record_getattr :: "fld list \<Rightarrow> rec_obj \<Rightarrow> string \<Rightarrow> pyval result" where
  "record_getattr fs ob key =
     (case get_field_value fs (VRec (obj_cls ob) (obj_values ob)) key of
        Inr v \<Rightarrow> Inr v
      | Inl KeyError \<Rightarrow>
          (case map_of (obj_dict ob) key of Some v \<Rightarrow> Inr v | None \<Rightarrow> Inl KeyError)
      | Inl e \<Rightarrow> Inl e)"

fun assign_all :: "fld list \<Rightarrow> rec_obj \<Rightarrow> (string \<times> pyval) list \<Rightarrow> rec_obj result" where
  "assign_all fs ob [] = Inr ob"
| "assign_all fs ob (p # ps) = rbind (record_setattr fs ob (fst p) (snd p)) (\<lambda>ob'. assign_all fs ob' ps)"

definition typed_values :: "fld list \<Rightarrow> (string \<times> pyval) list \<Rightarrow> bool" where
  "typed_values fs d \<longleftrightarrow>
     list_all (\<lambda>p. case IndexedFields fs (fst p) of
                     None \<Rightarrow> False | Some f \<Rightarrow> is_type_cls (fld_type f) (snd p)) d"

lemma typed_values_set:
  "typed_values fs d \<Longrightarrow> IndexedFields fs k = Some f \<Longrightarrow> is_type_cls (fld_type f) v \<Longrightarrow>
   typed_values fs (dict_set d k v)"
  by (induction d) (auto simp: typed_values_def)

lemma record_setattr_typed:
  "record_setattr fs ob k v = Inr ob' \<Longrightarrow> typed_values fs (obj_values ob) \<Longrightarrow>
   typed_values fs (obj_values ob')"
  by (auto simp: record_setattr_def typed_values_set split: option.splits if_splits)

lemma assign_all_typed:
  "assign_all fs ob ps = Inr ob' \<Longrightarrow> typed_values fs (obj_values ob) \<Longrightarrow>
   typed_values fs (obj_values ob')"
  by (induction ps arbitrary: ob) (auto simp: result_simps dest: record_setattr_typed)

lemma getattr_field:
  "IndexedFields fs k = Some f \<Longrightarrow>
   record_getattr fs ob k =
     Inr (case map_of (obj_values ob) k of Some v \<Rightarrow> v | None \<Rightarrow> field_default f)"
  by (simp add: record_getattr_def IndexedFields_def)

lemma getattr_other:
  "IndexedFields fs k = None \<Longrightarrow>
   record_getattr fs ob k = (case map_of (obj_dict ob) k of Some v \<Rightarrow> Inr v | None \<Rightarrow> Inl KeyError)"
  by (simp add: record_getattr_def IndexedFields_def)

section \<open>Collections\<close>

text \<open>The dictionaries of \<open>as_collection\<close>: a list value is replaced by the collections of its
  elements; every other value is kept as it is.\<close>

datatype coll = CVal pyval | CDicts "(string \<times> coll) list list"

fun as_collection :: "pyval \<Rightarrow> (string \<times> coll) list result" where
  "as_collection (VRec n values) =
     map_result (\<lambda>p. case p of
         (k, VList vs) \<Rightarrow> rbind (map_result as_collection vs) (\<lambda>ds. Inr (k, CDicts ds))
       | (k, v) \<Rightarrow> Inr (k, CVal v)) values"
| "as_collection _ = Inl AttributeError"


fun json_ok :: "pyval \<Rightarrow> bool" where
  "json_ok (VList vs) = list_all json_ok vs"
| "json_ok (VRec _ _) = False"
| "json_ok (VEnum _) = False"
| "json_ok _ = True"

fun json_ok_coll :: "coll \<Rightarrow> bool" where
  "json_ok_coll (CVal v) = json_ok v"
| "json_ok_coll (CDicts ds) = list_all (list_all (\<lambda>p. json_ok_coll (snd p))) ds"

section \<open>Records whose fields are numbers\<close>

fun width :: "ftype \<Rightarrow> nat" where
  "width (Prim c) = (case int_format c of Some (_, _, n) \<Rightarrow> n | None \<Rightarrow> 1)"
| "width _ = 0"

fun numeric :: "ftype \<Rightarrow> bool" where
  "numeric (Prim c) \<longleftrightarrow> c = Boolean \<or> int_format c \<noteq> None"
| "numeric _ \<longleftrightarrow> False"

lemma numeric_unpack: "numeric t \<Longrightarrow> \<exists>v. unpack t bs = Inr (int (width t), v)"
proof (cases t)
  case (Prim c)
  assume "numeric t"
  with Prim show ?thesis
    by (cases c) (auto simp: unpack_prim_def as_val_def boolean_from_bytes_def int_unpacker_fac_def)
qed auto

lemma numeric_fields_from:
  assumes "list_all (\<lambda>f. numeric (fld_type f)) fs" "distinct (map fst d @ map fld_name fs)"
  shows "\<exists>vals. fields_from (\<lambda>f. unpack (fld_type f)) fs bs i d =
     Inr (i + int (sum_list (map (\<lambda>f. width (fld_type f)) fs)), vals) \<and>
     map fst vals = map fst d @ map fld_name fs"
  using assms
proof (induction fs arbitrary: i d)
  case (Cons f fs)
  from Cons.prems numeric_unpack [of "fld_type f" "py_from bs i"] obtain v
    where v: "unpack (fld_type f) (py_from bs i) = Inr (int (width (fld_type f)), v)"
    by auto
  have d: "dict_set d (fld_name f) v = d @ [(fld_name f, v)]"
    using Cons.prems(2) by (intro dict_set_new) auto
  from Cons.prems have "list_all (\<lambda>f. numeric (fld_type f)) fs"
    "distinct (map fst (d @ [(fld_name f, v)]) @ map fld_name fs)"
    by auto
  from Cons.IH [OF this, of "i + int (width (fld_type f))"] v d show ?case
    by (auto simp: add.assoc)
qed simp

lemma record_init_plain:
  "list_all (\<lambda>f. numeric (fld_type f)) fs \<Longrightarrow> record_init n fs d = VRec n d"
proof (induction fs arbitrary: d)
  case (Cons f fs)
  then have "\<not> is_record (fld_type f)" by (cases "fld_type f") auto
  with Cons show ?case by (simp add: record_init_def)
qed (simp add: record_init_def)

section \<open>Unset fields\<close>

definition with_defaults :: "fld list \<Rightarrow> (string \<times> pyval) list \<Rightarrow> (string \<times> pyval) list" where
  "with_defaults fs d =
     map (\<lambda>f. (fld_name f, case map_of d (fld_name f) of Some v \<Rightarrow> v | None \<Rightarrow> field_default f)) fs"

lemma IndexedFields_member: "f \<in> set fs \<Longrightarrow> distinct (map fld_name fs) \<Longrightarrow> IndexedFields fs (fld_name f) = Some f"
proof -
  assume f: "f \<in> set fs" and d: "distinct (map fld_name fs)"
  then have "\<exists>g. find (\<lambda>g. fld_name g = fld_name f) (rev fs) = Some g"
    by (auto simp: find_None_iff simp flip: not_None_eq)
  then obtain g where g: "find (\<lambda>g. fld_name g = fld_name f) (rev fs) = Some g" ..
  then have "g \<in> set fs" "fld_name g = fld_name f"
    by (auto simp: find_Some_iff rev_nth)
  with f d have "g = f" by (meson distinct_map inj_onD)
  with g show ?thesis by (simp add: IndexedFields_def)
qed

lemma get_field_value_default:
  assumes "f \<in> set fs" "distinct (map fld_name fs)"
  shows "get_field_value fs (VRec n d) (fld_name f) =
    Inr (case map_of d (fld_name f) of Some v \<Rightarrow> v | None \<Rightarrow> field_default f)"
  using IndexedFields_member [OF assms] by (simp add: IndexedFields_def)

lemma get_field_value_with_defaults:
  assumes "f \<in> set fs" "distinct (map fld_name fs)"
  shows "get_field_value fs (VRec n (with_defaults fs d)) (fld_name f) =
    get_field_value fs (VRec n d) (fld_name f)"
proof -
  let ?v = "\<lambda>f. case map_of d (fld_name f) of Some v \<Rightarrow> v | None \<Rightarrow> field_default f"
  have "map_of (map (\<lambda>f. (fld_name f, ?v f)) fs) (fld_name f) = Some (?v f)"
    using assms by (intro map_of_is_SomeI) (auto simp: comp_def)
  then show ?thesis
    by (simp add: get_field_value_default [OF assms] with_defaults_def del: get_field_value.simps)
qed

lemma pack_plain_cong:
  assumes "\<And>f. f \<in> set fs \<Longrightarrow> get_field_value fs v (fld_name f) = get_field_value fs w (fld_name f)"
  shows "pack (Rec PlainRecord n fs) v = pack (Rec PlainRecord n fs) w"
proof -
  have "map_result (\<lambda>f. rbind (get_field_value fs v (fld_name f)) (pack (fld_type f))) fs =
      map_result (\<lambda>f. rbind (get_field_value fs w (fld_name f)) (pack (fld_type f))) fs"
    by (rule map_result_cong) (simp_all add: assms)
  then show ?thesis by simp
qed


section \<open>Properties\<close>

definition sample_record :: ftype where
  "sample_record =
     Rec PlainRecord ''Order''
       [Field ''id'' (Prim UnsignedIntBE) None,
        Field ''symbol'' (Fixed Ascii 6 False) None,
        Field ''note'' (Prim AsciiString) (Some (VStr (lit ''none''))),
        Field ''legs'' (Arr (Rec WithPresentBit ''Leg'' [Field ''qty'' (Prim Short) None]) ShortBE) None,
        Field ''owner'' (Rec WithPresentBit ''Owner'' [Field ''flag'' (Prim Boolean) None]) None]"

definition sample_value :: pyval where
  "sample_value =
     VRec ''Order''
       [(''id'', VInt 70000), (''symbol'', VStr (lit ''AB'')), (''note'', VStr (lit ''xyz'')),
        (''legs'', VList [VRec ''Leg'' [(''qty'', VInt (-5))], VRec ''Leg'' [(''qty'', VInt 7)]]),
        (''owner'', VNone)]"

lemma sample_good: "good sample_record sample_value"
  by (simp add: sample_record_def sample_value_def good_prim_def int_fits_def fixed_string_def
      short_string_def unpadded_def is_space_def lit_def encodable_def)

text \<open>
  C9: round trip. A value of a structure type - any nesting of records, records with a present
  bit, arrays and field types - is packed with its true length, and unpacked unchanged, whatever
  bytes follow it.
\<close>
theorem structure_roundtrip:
  assumes "good t v"
  shows "\<exists>bs. pack t v = Inr (int (length bs), bs) \<and> (\<forall>w. unpack t (bs @ w) = Inr (int (length bs), v))"
  by (rule ftype.roundtrip [OF assms]) blast

theorem structure_roundtrip_witness:
  "\<exists>bs. pack sample_record sample_value = Inr (int (length bs), bs) \<and>
     (\<forall>w. unpack sample_record (bs @ w) = Inr (int (length bs), sample_value))"
  by (rule structure_roundtrip [OF sample_good])

text \<open>
  the encoding is self-delimiting. If the bytes of one value of a type begin the bytes of
  another value of the same type, the two values are equal; in particular packing is injective.
\<close>
theorem structure_prefix_free:
  assumes "good t v" and "good t v'" and "pack t v = Inr (n, bs)" and "pack t v' = Inr (n', bs @ w)"
  shows "v' = v \<and> n' = n \<and> w = []"
proof -
  from ftype.prefix_free [OF assms(1-4) refl] have eq: "v' = v \<and> n' = n" .
  with assms(3,4) show ?thesis by simp
qed

theorem structure_prefix_free_witness:
  "VInt 258 = VInt 258 \<and> (2::int) = 2 \<and> ([]::bytes) = []"
proof (rule structure_prefix_free)
  show "good (Prim ShortBE) (VInt 258)" and "good (Prim ShortBE) (VInt 258)"
    by (simp_all add: good_prim_def int_fits_def)
  show "pack (Prim ShortBE) (VInt 258) = Inr (2, [1, 2])"
    and "pack (Prim ShortBE) (VInt 258) = Inr (2, [1, 2] @ [])"
    by code_simp+
qed



text \<open>
  truncated input is not detected. A record of booleans and integers is unpacked from every
  byte string, the empty one included, to an instance with a value for every field, and reports
  its full width as consumed even where fewer bytes were there.
\<close>
theorem numeric_record_total:
  assumes "list_all (\<lambda>f. numeric (fld_type f)) fs" and "distinct (map fld_name fs)"
  shows "\<exists>vals. unpack (Rec PlainRecord n fs) bs =
      Inr (int (sum_list (map (\<lambda>f. width (fld_type f)) fs)), VRec n vals) \<and>
    map fst vals = map fld_name fs"
  using numeric_fields_from [OF assms(1), of "[]" bs 0] assms(2) record_init_plain [OF assms(1)]
  by (auto simp: slice_simps(2) [where k = 0, simplified])

theorem numeric_record_total_witness:
  "\<exists>vals. unpack (Rec PlainRecord ''Px'' [Field ''a'' (Prim LongBE) None, Field ''b'' (Prim Boolean) None]) [] =
      Inr (9, VRec ''Px'' vals) \<and> map fst vals = [''a'', ''b'']"
  using numeric_record_total [of "[Field ''a'' (Prim LongBE) None, Field ''b'' (Prim Boolean) None]" "''Px''" "[]"]
  by simp

text \<open>
  fixed strings are padded but never cut. The reported length is always the declared one,
  the bytes are the longer of the declared length and the value's: an overlong value shifts
  every field after it.
\<close>
theorem fixed_string_overlong:
  assumes "encodable e s"
  shows "\<exists>bs. pack (Fixed e n r) (VStr s) = Inr (int n, bs) \<and> length bs = max n (length s)"
proof -
  have "encodable e (if r then rjust s n else ljust s n)"
    using assms by simp
  then have "encode e (if r then rjust s n else ljust s n) = Inr (map of_nat (if r then rjust s n else ljust s n))"
    by (simp add: codec_simps)
  then show ?thesis by (auto simp: fixed_to_bytes_def length_rjust length_ljust)
qed

theorem fixed_string_overlong_witness:
  "\<exists>bs. pack (Fixed Ascii 2 False) (VStr (lit ''ABC'')) = Inr (2, bs) \<and> length bs = 3"
  using fixed_string_overlong [of Ascii "lit ''ABC''" 2 False]
  by (simp add: lit_def numeral_3_eq_3)

text \<open>
  unset fields. A plain record packs a field that was never assigned as its default (the
  field's own, else the type's). With a present bit this does not hold when no field is set at
  all: the instance is packed as the single byte 0 and comes back as \<open>None\<close>, its defaults lost.
\<close>
theorem unset_fields_defaults:
  assumes "distinct (map fld_name fs)"
  shows "pack (Rec PlainRecord n fs) (VRec n d) = pack (Rec PlainRecord n fs) (VRec n (with_defaults fs d)) \<and>
    pack (Rec WithPresentBit n fs) (VRec n []) = Inr (1, [0]) \<and>
    unpack (Rec WithPresentBit n fs) (0 # w) = Inr (1, VNone)"
proof (intro conjI)
  show "pack (Rec PlainRecord n fs) (VRec n d) = pack (Rec PlainRecord n fs) (VRec n (with_defaults fs d))"
    by (rule pack_plain_cong) (simp only: get_field_value_with_defaults assms)
qed (simp_all add: boolean_to_bytes_def boolean_from_bytes_def)

theorem unset_fields_defaults_witness:
  "pack (Rec PlainRecord ''R'' [Field ''a'' (Prim Byte) (Some (VInt 5)), Field ''b'' (Prim Byte) None])
       (VRec ''R'' []) =
   pack (Rec PlainRecord ''R'' [Field ''a'' (Prim Byte) (Some (VInt 5)), Field ''b'' (Prim Byte) None])
       (VRec ''R'' [(''a'', VInt 5), (''b'', VInt 0)])"
  using unset_fields_defaults
    [of "[Field ''a'' (Prim Byte) (Some (VInt 5)), Field ''b'' (Prim Byte) None]" "''R''" "[]" "[]"]
  by (simp add: with_defaults_def field_default_def del: pack.simps)

text \<open>
  assigning an attribute. An accepted assignment to a field is what the field reads as
  afterwards (an \<open>Enum\<close> member as its value) and leaves every other attribute alone; a value of
  another kind raises \<open>ValueError\<close>; a name that is no field is always accepted and read back.
\<close>
theorem record_setattr_getattr:
  "case record_setattr fs ob k v of
     Inl e \<Rightarrow> e = ValueError \<and>
       (\<exists>f. IndexedFields fs k = Some f \<and> \<not> is_type_cls (fld_type f) (enum_value v))
   | Inr ob' \<Rightarrow>
       record_getattr fs ob' k = Inr (if IndexedFields fs k = None then v else enum_value v) \<and>
       (\<forall>k'. k' \<noteq> k \<longrightarrow> record_getattr fs ob' k' = record_getattr fs ob k')"
proof (cases "IndexedFields fs k")
  case None
  have "record_getattr fs (ob\<lparr>obj_dict := dict_set (obj_dict ob) k v\<rparr>) k' = record_getattr fs ob k'"
    if "k' \<noteq> k" for k'
    using that by (cases "IndexedFields fs k'") (simp_all add: getattr_field getattr_other)
  with None show ?thesis by (simp add: record_setattr_def getattr_other)
next
  case (Some f)
  have "record_getattr fs (ob\<lparr>obj_values := dict_set (obj_values ob) k w\<rparr>) k' = record_getattr fs ob k'"
    if "k' \<noteq> k" for k' w
    using that by (cases "IndexedFields fs k'") (simp_all add: getattr_field getattr_other)
  with Some show ?thesis by (simp add: record_setattr_def getattr_field)
qed

theorem record_setattr_getattr_witness:
  "\<exists>ob'. record_setattr [Field ''qty'' (Prim Short) None] \<lparr>obj_cls = ''R'', obj_values = [], obj_dict = []\<rparr>
      ''qty'' (VEnum (VInt 4)) = Inr ob' \<and>
    record_getattr [Field ''qty'' (Prim Short) None] ob' ''qty'' = Inr (VInt 4)"
  using record_setattr_getattr [where fs = "[Field ''qty'' (Prim Short) None]"
      and ob = "\<lparr>obj_cls = ''R'', obj_values = [], obj_dict = []\<rparr>" and k = "''qty''" and v = "VEnum (VInt 4)"]
  by (simp add: record_setattr_def IndexedFields_def enum_value_def)

text \<open>
  C11: type invariant. Every value an instance holds is of its field's kind, however many
  attributes are assigned, provided the values it was built with were; and then a field that
  holds a number or text always reads as one.
\<close>
theorem record_values_typed:
  assumes "assign_all fs ob ps = Inr ob'" and "typed_values fs (obj_values ob)"
    and "IndexedFields fs k = Some f" and "is_type_cls (fld_type f) (field_default f)"
  shows "\<exists>v. record_getattr fs ob' k = Inr v \<and> is_type_cls (fld_type f) v"
proof (cases "map_of (obj_values ob') k")
  case None
  with assms(3,4) show ?thesis by (simp add: getattr_field)
next
  case (Some v)
  then have "(k, v) \<in> set (obj_values ob')" by (rule map_of_SomeD)
  with assign_all_typed [OF assms(1,2)] assms(3) have "is_type_cls (fld_type f) v"
    by (auto simp: typed_values_def list_all_iff)
  with Some assms(3) show ?thesis by (simp add: getattr_field)
qed

theorem record_values_typed_witness:
  "\<exists>v. record_getattr [Field ''qty'' (Prim Short) None, Field ''sym'' (Prim AsciiString) None]
      \<lparr>obj_cls = ''R'', obj_values = [(''qty'', VInt 2)], obj_dict = [(''x'', VNone)]\<rparr> ''qty'' = Inr v \<and>
    is_type_cls (Prim Short) v"
  using record_values_typed [of "[Field ''qty'' (Prim Short) None, Field ''sym'' (Prim AsciiString) None]"
      "\<lparr>obj_cls = ''R'', obj_values = [], obj_dict = []\<rparr>"
      "[(''qty'', VInt 1), (''x'', VNone), (''qty'', VInt 2)]"
      "\<lparr>obj_cls = ''R'', obj_values = [(''qty'', VInt 2)], obj_dict = [(''x'', VNone)]\<rparr>"
      "''qty''" "Field ''qty'' (Prim Short) None"]
  by (simp add: record_setattr_def IndexedFields_def enum_value_def typed_values_def field_default_def)

text \<open>
  \<open>as_collection\<close>. It raises \<open>AttributeError\<close> for a record with a list of anything but
  records (an array of numbers or strings), and keeps a nested record as an object, which
  \<open>json.dumps\<close> in \<open>CommonMessage.__str__\<close> refuses.
\<close>
theorem as_collection_limits:
  "((k, VList vs) \<in> set d \<and> x \<in> set vs \<and> (\<forall>m e. x \<noteq> VRec m e) \<longrightarrow>
      (\<nexists>c. as_collection (VRec n d) = Inr c)) \<and>
   ((k, VRec m e) \<in> set d \<and> as_collection (VRec n d) = Inr c \<longrightarrow>
      \<not> list_all (\<lambda>p. json_ok_coll (snd p)) c)"
proof (intro conjI impI notI)
  assume a: "(k, VList vs) \<in> set d \<and> x \<in> set vs \<and> (\<forall>m e. x \<noteq> VRec m e)"
    and "\<exists>c. as_collection (VRec n d) = Inr c"
  then obtain c where "as_collection (VRec n d) = Inr c" by blast
  with a obtain ds where "map_result as_collection vs = Inr ds"
    by (fastforce dest!: map_result_Inr_set simp: result_simps)
  with a obtain y where "as_collection x = Inr y" by (auto dest: map_result_Inr_set)
  with a show False by (cases x) auto
next
  assume a: "(k, VRec m e) \<in> set d \<and> as_collection (VRec n d) = Inr c"
    and j: "list_all (\<lambda>p. json_ok_coll (snd p)) c"
  from a have "(k, CVal (VRec m e)) \<in> set c"
    by (auto dest!: map_result_Inr_set)
  with j show False by (auto simp: list_all_iff)
qed

theorem as_collection_limits_witness:
  "(\<nexists>c. as_collection (VRec ''R'' [(''xs'', VList [VInt 1])]) = Inr c) \<and>
   as_collection (VRec ''R'' [(''r'', VRec ''S'' [])]) = Inr [(''r'', CVal (VRec ''S'' []))] \<and>
   \<not> list_all (\<lambda>p. json_ok_coll (snd p)) [(''r'', CVal (VRec ''S'' []))]"
  using as_collection_limits [where k = "''xs''" and vs = "[VInt 1]" and d = "[(''xs'', VList [VInt 1])]"
      and x = "VInt 1" and n = "''R''"]
    as_collection_limits [where k = "''r''" and d = "[(''r'', VRec ''S'' [])]" and n = "''R''"
      and m = "''S''" and e = "[]" and c = "[(''r'', CVal (VRec ''S'' []))]"]
  by simp

end
