(* ===== verification/Messages.thy ===== *)
theory Messages
  imports Records
begin

text \<open>
  Application messages: \<open>CommonMessage\<close> (\<open>common/message/structures.py\<close>) with its two registries,
  \<open>SoupAppMessageId\<close> and \<open>SoupAppMessage\<close> (\<open>soup/soup_app.py\<close>) and the \<open>Message\<close> classes of
  \<open>ouch\<close>, \<open>itch\<close> and \<open>sqf\<close>; \<open>Asn1Spec\<close> and \<open>Asn1Message\<close> (\<open>asn1_app/core.py\<close>), over the compiler
  and decoder of \<open>asn1tools\<close> as parameters. Creating a class is a step on the registries.
\<close>

section \<open>Message ids\<close>

record SoupAppMessageId =
  indicator :: int
  direction :: string

definition msg_id_to_bytes :: "SoupAppMessageId packer" where
  "msg_id_to_bytes i = pack_prim Byte (VInt (indicator i))"

definition msg_id_from_bytes :: "SoupAppMessageId unpacker" where
  "msg_id_from_bytes bs =
     rbind (unpack_prim Byte bs) (\<lambda>(_, v).
       case v of VInt i \<Rightarrow> Inr (1, \<lparr>indicator = i, direction = ''outgoing''\<rparr>) | _ \<Rightarrow> Inl TypeError)"

section \<open>Message classes\<close>

text \<open>The class attributes of a message class. \<open>mc_ref\<close> is the identity of the class object: two
  classes are equal in Python only when they are the same object.\<close>

record msg_class =
  mc_ref :: nat
  mc_name :: string
  AppName :: "string option"
  MsgId :: "SoupAppMessageId option"
  BodyRecord :: ftype

record registries =
  MsgIdToClsMap :: "(string option \<times> SoupAppMessageId) \<rightharpoonup> msg_class"
  MsgNameToMsgMap :: "(string option \<times> string) \<rightharpoonup> msg_class"

text \<open>The keyword arguments of a class statement; the outer option of \<open>kw_app_name\<close> is whether it
  is given.\<close>

record kwargs =
  kw_app_name :: "string option option"
  kw_msg_id_cls :: bool
  kw_msg_id :: "SoupAppMessageId option"
  kw_indicator :: "int option"
  kw_direction :: "string option"

definition no_kwargs :: kwargs where
  "no_kwargs = \<lparr>kw_app_name = None, kw_msg_id_cls = False, kw_msg_id = None,
     kw_indicator = None, kw_direction = None\<rparr>"

text \<open>\<open>CommonMessage.__init_subclass__\<close>: the class inherits what is not given; it is registered
  when the application name, the class of the id and the id are all given. The result holds the
  registries, the class with its attributes, and the exception raised.\<close>

definition common_init_subclass ::
  "kwargs \<Rightarrow> registries \<Rightarrow> msg_class \<Rightarrow> registries \<times> msg_class \<times> exn option" where
  "common_init_subclass kw reg cls =
     (let cls1 = cls\<lparr>AppName := (case kw_app_name kw of None \<Rightarrow> AppName cls | Some a \<Rightarrow> a),
                     MsgId := (case kw_msg_id kw of None \<Rightarrow> MsgId cls | Some i \<Rightarrow> Some i)\<rparr>
      in case (kw_app_name kw, kw_msg_id_cls kw, kw_msg_id kw) of
           (Some app, True, Some i) \<Rightarrow>
             (if (\<exists>c. MsgIdToClsMap reg (app, i) = Some c \<and> mc_ref c \<noteq> mc_ref cls)
              then (reg, cls1, Some DuplicateMessageException)
              else (reg\<lparr>MsgIdToClsMap := (MsgIdToClsMap reg)((app, i) \<mapsto> cls1),
                        MsgNameToMsgMap := (MsgNameToMsgMap reg)((app, mc_name cls1) \<mapsto> cls1)\<rparr>,
                    cls1, None))
         | _ \<Rightarrow> (reg, cls1, None))"

text \<open>\<open>SoupAppMessage.__init_subclass__\<close>: the application name is passed on as \<open>None\<close> when it is
  not given, and the id is built when the indicator and the direction are.\<close>

definition soup_app_init_subclass ::
  "kwargs \<Rightarrow> registries \<Rightarrow> msg_class \<Rightarrow> registries \<times> msg_class \<times> exn option" where
  "soup_app_init_subclass kw reg cls =
     common_init_subclass
       (kw\<lparr>kw_app_name := Some (case kw_app_name kw of None \<Rightarrow> None | Some a \<Rightarrow> a),
           kw_msg_id_cls := True,
           kw_msg_id :=
             (case (kw_indicator kw, kw_direction kw) of
                (Some i, Some d) \<Rightarrow> Some \<lparr>indicator = i, direction = d\<rparr>
              | _ \<Rightarrow> kw_msg_id kw)\<rparr>) reg cls"

text \<open>A class statement \<open>class <name>(<base>, ...)\<close> in an application module: the new class starts
  with the attributes of its base and a body record of its own.\<close>

definition class_statement ::
  "nat \<Rightarrow> string \<Rightarrow> msg_class \<Rightarrow> ftype \<Rightarrow> kwargs \<Rightarrow> registries \<Rightarrow> registries \<times> msg_class \<times> exn option" where
  "class_statement ref name base body kw reg =
     soup_app_init_subclass kw reg (base\<lparr>mc_ref := ref, mc_name := name, BodyRecord := body\<rparr>)"

section \<open>Messages\<close>

record message =
  msg_cls :: msg_class
  msg_record :: pyval

definition message_init :: "msg_class \<Rightarrow> pyval \<Rightarrow> message" where
  "message_init c r =
     \<lparr>msg_cls = c, msg_record = (if r = VNone then record_new (BodyRecord c) else r)\<rparr>"

definition message_to_bytes :: "message packer" where
  "message_to_bytes m =
     (case MsgId (msg_cls m) of
        None \<Rightarrow> Inl AttributeError
      | Some i \<Rightarrow>
          rbind (msg_id_to_bytes i) (\<lambda>(_, b1).
          rbind (pack (BodyRecord (msg_cls m)) (msg_record m)) (\<lambda>(_, b2).
            Inr (int (length (b1 @ b2)), b1 @ b2))))"

definition message_from_bytes :: "registries \<Rightarrow> msg_class \<Rightarrow> message unpacker" where
  "message_from_bytes reg cls bs =
     rbind (msg_id_from_bytes bs) (\<lambda>(len, i).
       case MsgIdToClsMap reg (AppName cls, i) of
         None \<Rightarrow> Inl KeyError
       | Some c \<Rightarrow> rbind (unpack (BodyRecord c) (py_from bs len)) (\<lambda>(msg_len, data).
                      Inr (len + msg_len, message_init c data)))"

definition get_msg_cls_by_name :: "registries \<Rightarrow> msg_class \<Rightarrow> string \<Rightarrow> msg_class result" where
  "get_msg_cls_by_name reg cls name =
     (case MsgNameToMsgMap reg (AppName cls, name) of None \<Rightarrow> Inl KeyError | Some c \<Rightarrow> Inr c)"

definition get_msg_cls_by_indicator :: "registries \<Rightarrow> msg_class \<Rightarrow> SoupAppMessageId \<Rightarrow> msg_class result" where
  "get_msg_cls_by_indicator reg cls i =
     (case MsgIdToClsMap reg (AppName cls, i) of None \<Rightarrow> Inl KeyError | Some c \<Rightarrow> Inr c)"

text \<open>Attributes of a message: those of the fields of its body are those of its record, any other
  is its own (\<open>__dict__\<close>, here the second list).\<close>

definition message_setattr ::
  "fld list \<Rightarrow> rec_obj \<times> (string \<times> pyval) list \<Rightarrow> string \<Rightarrow> pyval \<Rightarrow> (rec_obj \<times> (string \<times> pyval) list) result" where
  "message_setattr fs m key v =
     (case IndexedFields fs key of
        Some _ \<Rightarrow> rbind (record_setattr fs (fst m) key v) (\<lambda>r. Inr (r, snd m))
      | None \<Rightarrow> Inr (fst m, dict_set (snd m) key v))"

definition message_getattr :: "fld list \<Rightarrow> rec_obj \<times> (string \<times> pyval) list \<Rightarrow> string \<Rightarrow> pyval result" where
  "message_getattr fs m key =
     (case IndexedFields fs key of
        Some _ \<Rightarrow> record_getattr fs (fst m) key
      | None \<Rightarrow> (case map_of (snd m) key of Some v \<Rightarrow> Inr v | None \<Rightarrow> Inl KeyError))"

section \<open>ASN.1 messages\<close>

text \<open>
  \<open>asn1tools\<close> is a parameter: \<open>compile_files\<close> gives a compiled specification or raises
  \<open>CompileError\<close> or \<open>ParseError\<close>; \<open>decode_with_length\<close> gives the decoded dictionary and the
  number of bytes used, or raises \<open>DecodeError\<close>.
\<close>

record 'spec asn1_spec =
  SpecName :: string
  SpecPkgDir :: string
  Spec :: 'spec

type_synonym 'spec spec_map = "string \<rightharpoonup> 'spec asn1_spec"

definition asn1_spec_init ::
  "(string \<Rightarrow> 'spec result) \<Rightarrow> string option \<Rightarrow> string option \<Rightarrow> 'spec spec_map \<Rightarrow>
     ('spec spec_map \<times> 'spec asn1_spec) result" where
  "asn1_spec_init compile_files spec_name spec_pkg_dir SpecMap =
     (case (spec_name, spec_pkg_dir) of
        (Some n, Some d) \<Rightarrow>
          (if SpecMap n \<noteq> None then Inl DuplicateMessageException
           else rbind (compile_files d) (\<lambda>spec.
                  let cls = \<lparr>SpecName = n, SpecPkgDir = d, Spec = spec\<rparr>
                  in Inr (SpecMap(n \<mapsto> cls), cls)))
      | _ \<Rightarrow> Inl AttributeError)"

definition asn1_decode ::
  "('spec \<Rightarrow> string \<Rightarrow> bytes \<Rightarrow> ((string \<times> pyval) list \<times> int) result) \<Rightarrow> 'spec asn1_spec \<Rightarrow> string \<Rightarrow>
     bytes \<Rightarrow> (int \<times> (string \<times> pyval) list) result" where
  "asn1_decode decode_with_length cls pdu_name bs =
     (case decode_with_length (Spec cls) pdu_name bs of
        Inr (decoded, len) \<Rightarrow> Inr (len, decoded)
      | Inl DecodeError \<Rightarrow> Inr (0, [])
      | Inl e \<Rightarrow> Inl e)"

definition asn1_to_bytes :: "unit \<Rightarrow> (int \<times> bytes) result" where
  "asn1_to_bytes _ = Inl NotImplementedError"

section \<open>Lemmas\<close>

definition indicator_of :: "bytes \<Rightarrow> int" where
  "indicator_of bs = (case bs of [] \<Rightarrow> 0 | b # _ \<Rightarrow> uint b)"

lemma msg_id_from_bytes_eq:
  "msg_id_from_bytes bs = Inr (1, \<lparr>indicator = indicator_of bs, direction = ''outgoing''\<rparr>)"
  by (cases bs) (auto simp: msg_id_from_bytes_def unpack_prim_def as_val_def int_unpacker_fac_def
      py_int_from_bytes_def indicator_of_def)

lemma msg_id_to_bytes_ok:
  assumes "0 \<le> indicator i" "indicator i < 256"
  shows "msg_id_to_bytes i = Inr (1, [of_int (indicator i)])"
  using assms by (simp add: msg_id_to_bytes_def pack_prim_def int_packer_fac_def py_int_to_bytes_def
      int_fits_def)

lemma indicator_of_id: "0 \<le> i \<Longrightarrow> i < 256 \<Longrightarrow> indicator_of (of_int i # bs) = i"
  by (simp add: indicator_of_def uint_word_ariths(1) unsigned_of_int take_bit_int_eq_self)

lemma py_from_1_Cons: "py_from (b # bs) 1 = bs"
  using py_from_append [of "[b]" bs] by simp

lemma message_encode:
  assumes "MsgId c = Some i" "0 \<le> indicator i" "indicator i < 256" "good (BodyRecord c) r"
  obtains body where
    "message_to_bytes \<lparr>msg_cls = c, msg_record = r\<rparr> =
       Inr (int (length (of_int (indicator i) # body)), of_int (indicator i) # body)"
    "\<And>w. unpack (BodyRecord c) (body @ w) = Inr (int (length body), r)"
proof (rule ftype.roundtrip [OF assms(4)])
  fix body
  assume p: "pack (BodyRecord c) r = Inr (int (length body), body)"
    and u: "\<And>w. unpack (BodyRecord c) (body @ w) = Inr (int (length body), r)"
  have "message_to_bytes \<lparr>msg_cls = c, msg_record = r\<rparr> =
       Inr (int (length (of_int (indicator i) # body)), of_int (indicator i) # body)"
    by (simp add: message_to_bytes_def assms(1) msg_id_to_bytes_ok [OF assms(2,3)] p)
  from that [OF this u] show thesis .
qed

lemma message_decode:
  "message_from_bytes reg cls (b # bs) =
     (case MsgIdToClsMap reg (AppName cls, \<lparr>indicator = uint b, direction = ''outgoing''\<rparr>) of
        None \<Rightarrow> Inl KeyError
      | Some c \<Rightarrow> rbind (unpack (BodyRecord c) bs) (\<lambda>(n, d). Inr (1 + n, message_init c d)))"
  by (simp add: message_from_bytes_def msg_id_from_bytes_eq indicator_of_def py_from_1_Cons
      split: option.splits)

section \<open>The registries\<close>

text \<open>Importing a module runs its class statements, each with the registries and the classes made
  so far, up to the first exception.\<close>

record class_stmt =
  cs_ref :: nat
  cs_name :: string
  cs_base :: msg_class
  cs_body :: ftype
  cs_kwargs :: kwargs

fun load_classes :: "class_stmt list \<Rightarrow> registries \<Rightarrow> registries \<times> exn option" where
  "load_classes [] reg = (reg, None)"
| "load_classes (s # ss) reg =
     (case class_statement (cs_ref s) (cs_name s) (cs_base s) (cs_body s) (cs_kwargs s) reg of
        (reg', c, None) \<Rightarrow> load_classes ss reg'
      | (reg', c, Some e) \<Rightarrow> (reg', Some e))"

definition keys_ok :: "registries \<Rightarrow> bool" where
  "keys_ok reg \<longleftrightarrow>
     (\<forall>app i c. MsgIdToClsMap reg (app, i) = Some c \<longrightarrow> AppName c = app \<and> MsgId c = Some i)"

lemma common_init_cases:
  assumes "common_init_subclass kw reg cls = (reg', cls', e)"
  obtains (unregistered) "reg' = reg" "e = None"
  | (duplicate) app i c where "kw_app_name kw = Some app" "kw_msg_id kw = Some i"
      "MsgIdToClsMap reg (app, i) = Some c" "mc_ref c \<noteq> mc_ref cls"
      "reg' = reg" "e = Some DuplicateMessageException"
  | (registered) app i where "kw_app_name kw = Some app" "kw_msg_id kw = Some i"
      "\<And>c. MsgIdToClsMap reg (app, i) = Some c \<Longrightarrow> mc_ref c = mc_ref cls" "e = None"
      "AppName cls' = app" "MsgId cls' = Some i" "mc_ref cls' = mc_ref cls"
      "MsgIdToClsMap reg' = (MsgIdToClsMap reg)((app, i) \<mapsto> cls')"
      "MsgNameToMsgMap reg' = (MsgNameToMsgMap reg)((app, mc_name cls') \<mapsto> cls')"
proof (cases "kw_app_name kw = None \<or> \<not> kw_msg_id_cls kw \<or> kw_msg_id kw = None")
  case True
  with assms show thesis
    by (intro unregistered) (auto simp: common_init_subclass_def Let_def split: option.splits bool.splits)
next
  case False
  then obtain app i where kw: "kw_app_name kw = Some app" "kw_msg_id kw = Some i" "kw_msg_id_cls kw"
    by auto
  show thesis
  proof (cases "\<exists>c. MsgIdToClsMap reg (app, i) = Some c \<and> mc_ref c \<noteq> mc_ref cls")
    case True
    then obtain c where "MsgIdToClsMap reg (app, i) = Some c" "mc_ref c \<noteq> mc_ref cls" by blast
    with True kw assms show thesis
      by (intro duplicate [of app i c]) (simp_all add: common_init_subclass_def Let_def)
  next
    case False
    with kw assms show thesis
      by (intro registered [of app i]) (auto simp: common_init_subclass_def Let_def)
  qed
qed

lemma class_statement_common:
  obtains kw' cls where
    "class_statement ref name base body kw reg = common_init_subclass kw' reg cls" "mc_ref cls = ref"
  by (simp add: class_statement_def soup_app_init_subclass_def)

lemma class_statement_step:
  assumes "class_statement ref name base body kw reg = (reg', c', e)"
  shows class_statement_error: "e \<noteq> None \<Longrightarrow> e = Some DuplicateMessageException \<and> reg' = reg"
    and class_statement_keys: "keys_ok reg \<Longrightarrow> keys_ok reg'"
    and class_statement_keeps: "MsgIdToClsMap reg k = Some c \<Longrightarrow> mc_ref c \<noteq> ref \<Longrightarrow> MsgIdToClsMap reg' k = Some c"
proof -
  obtain kw' cls where eq: "class_statement ref name base body kw reg = common_init_subclass kw' reg cls"
    and ref: "mc_ref cls = ref"
    by (rule class_statement_common)
  from assms eq have st: "common_init_subclass kw' reg cls = (reg', c', e)" by (simp only:)
  have all: "(e \<noteq> None \<longrightarrow> e = Some DuplicateMessageException \<and> reg' = reg) \<and>
      (keys_ok reg \<longrightarrow> keys_ok reg') \<and>
      (MsgIdToClsMap reg k = Some c \<longrightarrow> mc_ref c \<noteq> ref \<longrightarrow> MsgIdToClsMap reg' k = Some c)"
    using st
  proof (cases rule: common_init_cases)
    case (registered app i)
    then show ?thesis by (auto simp: keys_ok_def ref)
  qed simp_all
  then show "e \<noteq> None \<Longrightarrow> e = Some DuplicateMessageException \<and> reg' = reg"
    and "keys_ok reg \<Longrightarrow> keys_ok reg'"
    and "MsgIdToClsMap reg k = Some c \<Longrightarrow> mc_ref c \<noteq> ref \<Longrightarrow> MsgIdToClsMap reg' k = Some c"
    by simp_all
qed

lemma load_classes_keeps:
  assumes "MsgIdToClsMap reg k = Some c" "mc_ref c \<notin> set (map cs_ref ss)"
  shows "MsgIdToClsMap (fst (load_classes ss reg)) k = Some c"
  using assms
proof (induction ss arbitrary: reg)
  case (Cons s ss)
  obtain reg' c' e where
    st: "class_statement (cs_ref s) (cs_name s) (cs_base s) (cs_body s) (cs_kwargs s) reg = (reg', c', e)"
    by (rule prod_cases3)
  with class_statement_step(3) [OF st Cons.prems(1)] Cons show ?case
    by (cases e) auto
qed simp

lemma load_classes_keys: "keys_ok reg \<Longrightarrow> keys_ok (fst (load_classes ss reg))"
proof (induction ss arbitrary: reg)
  case (Cons s ss)
  obtain reg' c' e where
    st: "class_statement (cs_ref s) (cs_name s) (cs_base s) (cs_body s) (cs_kwargs s) reg = (reg', c', e)"
    by (rule prod_cases3)
  with class_statement_step(2) [OF st Cons.prems] Cons.IH show ?case
    by (cases e) auto
qed simp

section \<open>Properties\<close>

definition no_classes :: registries where
  "no_classes = \<lparr>MsgIdToClsMap = Map.empty, MsgNameToMsgMap = Map.empty\<rparr>"

definition app_base :: msg_class where
  "app_base = \<lparr>mc_ref = 0, mc_name = ''Message'', AppName = Some ''ouch'', MsgId = None,
     BodyRecord = Rec PlainRecord ''BodyRecord'' []\<rparr>"

definition order_body :: ftype where
  "order_body = Rec PlainRecord ''BodyRecord'' [Field ''qty'' (Prim UnsignedIntBE) None]"

definition enter_order :: "string \<Rightarrow> msg_class" where
  "enter_order d = app_base\<lparr>mc_ref := 1, mc_name := ''EnterOrder'',
     MsgId := Some \<lparr>indicator = 79, direction = d\<rparr>, BodyRecord := order_body\<rparr>"

lemma order_good: "good order_body (VRec ''BodyRecord'' [(''qty'', VInt 500)])"
  by (simp add: order_body_def good_prim_def int_fits_def)

text \<open>
  C12: round trip of messages. A message of a class registered for its application with an
  outgoing id between 0 and 255 is packed, with its true length, to bytes that any class of that
  application unpacks to the same class and the same record.
\<close>
theorem message_roundtrip:
  assumes "MsgIdToClsMap reg (AppName cls, i) = Some c" and "MsgId c = Some i"
    and "direction i = ''outgoing''" and "0 \<le> indicator i" and "indicator i < 256"
    and "good (BodyRecord c) r" and "r \<noteq> VNone"
  shows "\<exists>bs. message_to_bytes \<lparr>msg_cls = c, msg_record = r\<rparr> = Inr (int (length bs), bs) \<and>
    (\<forall>w. message_from_bytes reg cls (bs @ w) = Inr (int (length bs), \<lparr>msg_cls = c, msg_record = r\<rparr>))"
proof (rule message_encode [OF assms(2,4,5,6)])
  fix body
  assume enc: "message_to_bytes \<lparr>msg_cls = c, msg_record = r\<rparr> =
      Inr (int (length (of_int (indicator i) # body)), of_int (indicator i) # body)"
    and dec: "\<And>w. unpack (BodyRecord c) (body @ w) = Inr (int (length body), r)"
  have "uint (of_int (indicator i) :: byte) = indicator i"
    using assms(4,5) by (simp add: unsigned_of_int take_bit_int_eq_self)
  then have "\<lparr>indicator = uint (of_int (indicator i) :: byte), direction = ''outgoing''\<rparr> = i"
    using assms(3) by (cases i) simp
  with assms(1,7) dec have "message_from_bytes reg cls ((of_int (indicator i) # body) @ w) =
      Inr (int (length (of_int (indicator i) # body)), \<lparr>msg_cls = c, msg_record = r\<rparr>)" for w
    by (simp add: message_decode message_init_def)
  with enc show ?thesis by blast
qed

theorem message_roundtrip_witness:
  "\<exists>bs. message_to_bytes \<lparr>msg_cls = enter_order ''outgoing'', msg_record = VRec ''BodyRecord'' [(''qty'', VInt 500)]\<rparr> =
      Inr (int (length bs), bs) \<and>
    (\<forall>w. message_from_bytes
        (no_classes\<lparr>MsgIdToClsMap := [(Some ''ouch'', \<lparr>indicator = 79, direction = ''outgoing''\<rparr>) \<mapsto> enter_order ''outgoing'']\<rparr>)
        app_base (bs @ w) =
      Inr (int (length bs), \<lparr>msg_cls = enter_order ''outgoing'', msg_record = VRec ''BodyRecord'' [(''qty'', VInt 500)]\<rparr>))"
  by (rule message_roundtrip [where i = "\<lparr>indicator = 79, direction = ''outgoing''\<rparr>"])
    (simp_all add: app_base_def enter_order_def order_good)

text \<open>
  an incoming message cannot be read back. Decoding assumes the direction 'outgoing', so the
  bytes of a message registered as incoming raise \<open>KeyError\<close>, unless an outgoing class has the
  same indicator: then they never give the class that was packed.
\<close>
theorem incoming_not_decoded:
  assumes "keys_ok reg" and "MsgId c = Some i" and "direction i \<noteq> ''outgoing''"
    and "message_to_bytes \<lparr>msg_cls = c, msg_record = r\<rparr> = Inr (n, bs)"
    and "message_from_bytes reg cls bs = Inr (k, m)"
  shows "msg_cls m \<noteq> c \<and> (\<exists>j. MsgId (msg_cls m) = Some j \<and> direction j = ''outgoing'')"
proof -
  from assms(5) obtain c' d where
    c': "MsgIdToClsMap reg (AppName cls, \<lparr>indicator = indicator_of bs, direction = ''outgoing''\<rparr>) = Some c'"
    and m: "msg_cls m = c'"
    by (auto simp: message_from_bytes_def msg_id_from_bytes_eq message_init_def result_simps
        split: option.splits)
  with assms(1) have "MsgId c' = Some \<lparr>indicator = indicator_of bs, direction = ''outgoing''\<rparr>"
    by (simp add: keys_ok_def)
  with m assms(2,3) show ?thesis by auto
qed

theorem incoming_not_decoded_witness:
  "\<exists>m. message_from_bytes
      (no_classes\<lparr>MsgIdToClsMap := [(Some ''ouch'', \<lparr>indicator = 79, direction = ''outgoing''\<rparr>) \<mapsto> enter_order ''outgoing'']\<rparr>)
      app_base [79, 0, 0, 1, 244] = Inr (5, m) \<and> msg_cls m \<noteq> enter_order ''incoming''"
proof -
  let ?reg = "no_classes\<lparr>MsgIdToClsMap := [(Some ''ouch'', \<lparr>indicator = 79, direction = ''outgoing''\<rparr>) \<mapsto> enter_order ''outgoing'']\<rparr>"
  let ?r = "VRec ''BodyRecord'' [(''qty'', VInt 500)]"
  have enc: "message_to_bytes \<lparr>msg_cls = enter_order ''incoming'', msg_record = ?r\<rparr> = Inr (5, [79, 0, 0, 1, 244])"
    by code_simp
  have "unpack order_body [0, 0, 1, 244] = Inr (4, ?r)"
    by code_simp
  then have dec: "message_from_bytes ?reg app_base [79, 0, 0, 1, 244] =
      Inr (5, \<lparr>msg_cls = enter_order ''outgoing'', msg_record = ?r\<rparr>)"
    by (simp add: message_decode app_base_def enter_order_def message_init_def)
  from incoming_not_decoded [where reg = ?reg and c = "enter_order ''incoming''", OF _ _ _ enc dec] dec
  show ?thesis by (simp add: keys_ok_def app_base_def enter_order_def)
qed

text \<open>
  the registry keeps what it has. Whatever class statements are executed, a registered class
  stays the class of its application and id; every class is registered under its own application
  and id; and a second class for the same pair raises \<open>DuplicateMessageException\<close> without
  changing the registries.
\<close>
theorem registry_first_wins:
  assumes "keys_ok reg" and "MsgIdToClsMap reg k = Some c" and "mc_ref c \<notin> set (map cs_ref ss)"
  shows "MsgIdToClsMap (fst (load_classes ss reg)) k = Some c \<and> keys_ok (fst (load_classes ss reg)) \<and>
    (k = (Some app, i) \<and> mc_ref c \<noteq> ref \<and> kw_app_name kw = Some (Some app) \<and>
       kw_indicator kw = Some (indicator i) \<and> kw_direction kw = Some (direction i) \<longrightarrow>
     (\<exists>c'. class_statement ref name base body kw reg = (reg, c', Some DuplicateMessageException)))"
  using load_classes_keeps [OF assms(2,3)] load_classes_keys [OF assms(1)] assms(2)
  by (cases i) (auto simp: class_statement_def soup_app_init_subclass_def common_init_subclass_def Let_def)

theorem registry_first_wins_witness:
  "\<exists>c'. class_statement 2 ''Other'' app_base order_body
      (no_kwargs\<lparr>kw_app_name := Some (Some ''ouch''), kw_indicator := Some 79, kw_direction := Some ''outgoing''\<rparr>)
      (no_classes\<lparr>MsgIdToClsMap := [(Some ''ouch'', \<lparr>indicator = 79, direction = ''outgoing''\<rparr>) \<mapsto> enter_order ''outgoing'']\<rparr>) =
    (no_classes\<lparr>MsgIdToClsMap := [(Some ''ouch'', \<lparr>indicator = 79, direction = ''outgoing''\<rparr>) \<mapsto> enter_order ''outgoing'']\<rparr>,
     c', Some DuplicateMessageException)"
  using registry_first_wins [where
      reg = "no_classes\<lparr>MsgIdToClsMap := [(Some ''ouch'', \<lparr>indicator = 79, direction = ''outgoing''\<rparr>) \<mapsto> enter_order ''outgoing'']\<rparr>"
      and k = "(Some ''ouch'', \<lparr>indicator = 79, direction = ''outgoing''\<rparr>)" and c = "enter_order ''outgoing''"
      and ss = "[]" and ref = 2 and name = "''Other''" and base = app_base and body = order_body
      and app = "''ouch''" and i = "\<lparr>indicator = 79, direction = ''outgoing''\<rparr>"
      and kw = "no_kwargs\<lparr>kw_app_name := Some (Some ''ouch''), kw_indicator := Some 79, kw_direction := Some ''outgoing''\<rparr>"]
  by (simp add: keys_ok_def app_base_def enter_order_def)

text \<open>
  the application name is not inherited. A message class declared without \<open>app_name\<close> is
  registered under \<open>None\<close> whatever class it extends, so two such classes of different protocols
  with the same indicator and direction collide.
\<close>
theorem app_name_not_inherited:
  assumes "kw_app_name kw = None" and "kw_indicator kw = Some i" and "kw_direction kw = Some d"
    and "MsgIdToClsMap reg (None, \<lparr>indicator = i, direction = d\<rparr>) = None" and "ref1 \<noteq> ref2"
  shows "\<exists>reg1 c1 c2. class_statement ref1 name1 base1 body1 kw reg = (reg1, c1, None) \<and>
    AppName c1 = None \<and>
    class_statement ref2 name2 base2 body2 kw reg1 = (reg1, c2, Some DuplicateMessageException)"
  using assms
  by (simp add: class_statement_def soup_app_init_subclass_def common_init_subclass_def Let_def)

theorem app_name_not_inherited_witness:
  "\<exists>reg1 c1 c2. class_statement 1 ''A'' app_base order_body
       (no_kwargs\<lparr>kw_indicator := Some 1, kw_direction := Some ''outgoing''\<rparr>) no_classes = (reg1, c1, None) \<and>
    AppName c1 = None \<and>
    class_statement 2 ''B'' (app_base\<lparr>AppName := Some ''itch''\<rparr>) order_body
       (no_kwargs\<lparr>kw_indicator := Some 1, kw_direction := Some ''outgoing''\<rparr>) reg1 =
      (reg1, c2, Some DuplicateMessageException)"
  by (rule app_name_not_inherited) (simp_all add: no_kwargs_def no_classes_def)

text \<open>
  a message without fields can be received but not sent. Packing a record with no \<open>Fields\<close>
  raises \<open>IndexError\<close> whatever its values; unpacking it consumes nothing and succeeds.
\<close>
theorem empty_message_not_sent:
  assumes "BodyRecord c = Rec PlainRecord n []" and "MsgId c = Some i"
    and "0 \<le> indicator i" and "indicator i < 256"
  shows "message_to_bytes \<lparr>msg_cls = c, msg_record = VRec n d\<rparr> = Inl IndexError \<and>
    unpack (BodyRecord c) bs = Inr (0, VRec n [])"
  using assms by (simp add: message_to_bytes_def msg_id_to_bytes_ok sum_segments_def record_init_def)

theorem empty_message_not_sent_witness:
  "message_to_bytes \<lparr>msg_cls = app_base\<lparr>MsgId := Some \<lparr>indicator = 83, direction = ''outgoing''\<rparr>\<rparr>,
     msg_record = VRec ''BodyRecord'' []\<rparr> = Inl IndexError"
  using empty_message_not_sent [of "app_base\<lparr>MsgId := Some \<lparr>indicator = 83, direction = ''outgoing''\<rparr>\<rparr>"
      "''BodyRecord''" "\<lparr>indicator = 83, direction = ''outgoing''\<rparr>" "[]"]
  by (simp add: app_base_def)

end
