(* ===== verification/MessageQueue.thy ===== *)
theory MessageQueue
  imports Messages
begin

text \<open>
  \<open>DispatchableMessageQueue\<close> (\<open>common/message_queue.py\<close>). The asyncio tasks of the class - the
  dispatchers and the blocked readers - are part of the state, and each stretch of code between
  two awaits is a step: a run is any interleaving of them. The locale \<open>mailbox\<close> is the contract
  of a first-in first-out store: what was accepted is what was taken followed by what is inside.
  A handler is assumed to let a cancellation through.
\<close>

section \<open>First-in first-out\<close>

locale mailbox =
  fixes step :: "'e \<Rightarrow> 's \<Rightarrow> 's"
    and accepted :: "'s \<Rightarrow> 'm list"
    and taken :: "'s \<Rightarrow> 'm list"
    and inside :: "'s \<Rightarrow> 'm list"
    and lossless :: "'e \<Rightarrow> 's \<Rightarrow> bool"
  assumes conserve: "lossless e s \<Longrightarrow> accepted s = taken s @ inside s \<Longrightarrow>
      accepted (step e s) = taken (step e s) @ inside (step e s)"
    and taken_grows: "\<exists>xs. taken (step e s) = taken s @ xs"
begin

fun lossless_run :: "'e list \<Rightarrow> 's \<Rightarrow> bool" where
  "lossless_run [] s \<longleftrightarrow> True"
| "lossless_run (e # es) s \<longleftrightarrow> lossless e s \<and> lossless_run es (step e s)"

lemma run_conserves:
  "lossless_run es s \<Longrightarrow> accepted s = taken s @ inside s \<Longrightarrow>
   accepted (fold step es s) = taken (fold step es s) @ inside (fold step es s)"
  by (induction es arbitrary: s) (auto dest: conserve)

lemma run_taken_grows: "\<exists>xs. taken (fold step es s) = taken s @ xs"
proof (induction es arbitrary: s)
  case (Cons e es)
  from Cons.IH [of "step e s"] taken_grows [of e s] show ?case by auto
qed simp

lemma all_taken:
  "lossless_run es s \<Longrightarrow> accepted s = taken s @ inside s \<Longrightarrow> inside (fold step es s) = [] \<Longrightarrow>
   taken (fold step es s) = accepted (fold step es s)"
  using run_conserves [of es s] by simp

end

text \<open>A mailbox with a server: a turn of it takes the first message, as long as it is ready.\<close>

locale served_mailbox = mailbox step accepted taken inside lossless
  for step :: "'e \<Rightarrow> 's \<Rightarrow> 's" and accepted taken inside :: "'s \<Rightarrow> 'm list" and lossless +
  fixes turn :: "'c \<Rightarrow> 'e list"
    and completes :: "'c \<Rightarrow> bool"
    and ready :: "'s \<Rightarrow> bool"
  assumes serves: "ready s \<Longrightarrow> completes c \<Longrightarrow> inside s = m # ms \<Longrightarrow>
      ready (fold step (turn c) s) \<and> inside (fold step (turn c) s) = ms \<and>
      taken (fold step (turn c) s) = taken s @ [m]"
begin

lemma turns_serve:
  "ready s \<Longrightarrow> list_all completes cs \<Longrightarrow> length cs \<le> length (inside s) \<Longrightarrow>
   ready (fold step (concat (map turn cs)) s) \<and>
   inside (fold step (concat (map turn cs)) s) = drop (length cs) (inside s) \<and>
   taken (fold step (concat (map turn cs)) s) = taken s @ take (length cs) (inside s)"
proof (induction cs arbitrary: s)
  case (Cons c cs)
  then obtain m ms where m: "inside s = m # ms" by (cases "inside s") auto
  from serves [OF Cons.prems(1) _ m, of c] Cons.prems Cons.IH [of "fold step (turn c) s"] m
  show ?case by simp
qed simp

lemma serves_all:
  assumes "ready s" "list_all completes cs" "length cs = length (inside s)"
  shows "inside (fold step (concat (map turn cs)) s) = [] \<and>
    taken (fold step (concat (map turn cs)) s) = taken s @ inside s"
  using turns_serve [OF assms(1,2)] assms(3) by simp

end

section \<open>The queue\<close>

text \<open>The task of a dispatcher is waiting for a message, running the handler, or over; that of a
  reader is waiting on the queue object of a generation, done with a message, or cancelled.\<close>

datatype 'm dispatcher = Idle | Handling 'm | Ended
datatype 'm reading = Waiting nat | Got 'm | Cancelled

text \<open>\<open>q_accepted\<close>, \<open>q_taken\<close>, \<open>q_dispatched\<close> and \<open>q_results\<close> are logs: the messages put, those
  removed from the queue, those given to the handler, and the outcome of every \<open>get\<close>.\<close>

record 'm mqueue =
  q_on_msg_coro :: bool
  q_closed :: bool
  q_msg_queue :: "'m list"
  q_generation :: nat
  q_buffer_msg_queue :: "'m list option"
  q_recv_task :: "nat option"
  q_dispatcher_task :: "nat option"
  q_dispatchers :: "(nat \<times> 'm dispatcher) list"
  q_readings :: "(nat \<times> 'm reading) list"
  q_fresh :: nat
  q_accepted :: "'m list"
  q_taken :: "'m list"
  q_dispatched :: "'m list"
  q_results :: "(nat \<times> 'm result) list"

definition create_dispatcher :: "'m mqueue \<Rightarrow> 'm mqueue" where
  "create_dispatcher q =
     q\<lparr>q_dispatcher_task := Some (q_fresh q),
       q_dispatchers := q_dispatchers q @ [(q_fresh q, Idle)], q_fresh := Suc (q_fresh q)\<rparr>"

text \<open>\<open>on_msg_coro\<close> is modelled by whether it is set.\<close>

definition start_dispatching :: "bool \<Rightarrow> 'm mqueue \<Rightarrow> 'm mqueue result" where
  "start_dispatching on_msg_coro q =
     (if q_dispatcher_task q \<noteq> None then Inl StateError
      else Inr (if on_msg_coro then create_dispatcher (q\<lparr>q_on_msg_coro := True\<rparr>) else q))"

definition mq_empty :: "'m mqueue" where
  "mq_empty = \<lparr>q_on_msg_coro = False, q_closed = False, q_msg_queue = [], q_generation = 0,
     q_buffer_msg_queue = None, q_recv_task = None, q_dispatcher_task = None, q_dispatchers = [],
     q_readings = [], q_fresh = 0, q_accepted = [], q_taken = [], q_dispatched = [], q_results = []\<rparr>"

definition mq_new :: "bool \<Rightarrow> 'm mqueue" where
  "mq_new on_msg_coro =
     (case start_dispatching on_msg_coro mq_empty of Inr q \<Rightarrow> q | Inl _ \<Rightarrow> mq_empty)"

definition is_dispatching :: "'m mqueue \<Rightarrow> bool" where
  "is_dispatching q \<longleftrightarrow> q_dispatcher_task q \<noteq> None"

definition mq_len :: "'m mqueue \<Rightarrow> nat" where
  "mq_len q = length (q_msg_queue q)"

definition put :: "'m \<Rightarrow> 'm mqueue \<Rightarrow> 'm mqueue" where
  "put m q =
     (case q_buffer_msg_queue q of
        None \<Rightarrow> q\<lparr>q_msg_queue := q_msg_queue q @ [m], q_accepted := q_accepted q @ [m]\<rparr>
      | Some b \<Rightarrow> q\<lparr>q_buffer_msg_queue := Some (b @ [m]), q_accepted := q_accepted q @ [m]\<rparr>)"

definition pop :: "'m \<Rightarrow> 'm list \<Rightarrow> 'm mqueue \<Rightarrow> 'm mqueue" where
  "pop m ms q = q\<lparr>q_msg_queue := ms, q_taken := q_taken q @ [m]\<rparr>"

definition get_nowait :: "'m mqueue \<Rightarrow> ('m mqueue \<times> 'm option) result" where
  "get_nowait q =
     (if q_dispatcher_task q \<noteq> None then Inl StateError
      else case q_msg_queue q of
             m # ms \<Rightarrow> Inr (pop m ms q, Some m)
           | [] \<Rightarrow> if q_closed q then Inl EndOfQueue else Inr (q, None))"

text \<open>\<open>_blocking_read\<close> up to its await: the new task waits on the queue object of the moment.\<close>

definition blocking_read :: "nat \<Rightarrow> 'm mqueue \<Rightarrow> 'm mqueue" where
  "blocking_read r q =
     q\<lparr>q_recv_task := Some r, q_readings := q_readings q @ [(r, Waiting (q_generation q))]\<rparr>"

definition result_of :: "nat \<Rightarrow> 'm result \<Rightarrow> 'm mqueue \<Rightarrow> 'm mqueue" where
  "result_of r x q = q\<lparr>q_results := q_results q @ [(r, x)]\<rparr>"

text \<open>\<open>get\<close>, called by the reader \<open>r\<close>: \<open>return msg if msg else await self._blocking_read()\<close>, where
  \<open>tr\<close> is the truth value of a message.\<close>

definition get :: "('m \<Rightarrow> bool) \<Rightarrow> nat \<Rightarrow> 'm mqueue \<Rightarrow> 'm mqueue" where
  "get tr r q =
     (case get_nowait q of
        Inl e \<Rightarrow> result_of r (Inl e) q
      | Inr (q', Some m) \<Rightarrow> if tr m then result_of r (Inr m) q' else blocking_read r q'
      | Inr (q', None) \<Rightarrow> blocking_read r q')"

text \<open>\<open>stop_task\<close> on the task of a dispatcher or of a reader.\<close>

definition stop_dispatcher :: "nat option \<Rightarrow> 'm mqueue \<Rightarrow> 'm mqueue" where
  "stop_dispatcher t q =
     (case t of None \<Rightarrow> q | Some d \<Rightarrow> q\<lparr>q_dispatchers := map (\<lambda>p. if fst p = d then (d, Ended) else p) (q_dispatchers q)\<rparr>)"

definition cancel_reading :: "nat \<Rightarrow> nat \<times> 'm reading \<Rightarrow> nat \<times> 'm reading" where
  "cancel_reading r p = (case p of (k, Waiting g) \<Rightarrow> if k = r then (k, Cancelled) else p | _ \<Rightarrow> p)"

definition stop_reading :: "nat option \<Rightarrow> 'm mqueue \<Rightarrow> 'm mqueue" where
  "stop_reading t q =
     (case t of None \<Rightarrow> q | Some r \<Rightarrow> q\<lparr>q_readings := map (cancel_reading r) (q_readings q)\<rparr>)"

text \<open>The task of a reader runs: the first one that waits on the current queue object takes the
  first message.\<close>

definition reading_runs :: "'m mqueue \<Rightarrow> 'm mqueue" where
  "reading_runs q =
     (case (find (\<lambda>p. snd p = Waiting (q_generation q)) (q_readings q), q_msg_queue q) of
        (Some (r, _), m # ms) \<Rightarrow>
          (pop m ms q)\<lparr>q_readings := map (\<lambda>p. if p = (r, Waiting (q_generation q)) then (r, Got m) else p) (q_readings q)\<rparr>
      | _ \<Rightarrow> q)"

text \<open>The rest of \<open>_blocking_read\<close>, when the awaited task is over: the message is returned, or
  \<open>EndOfQueue\<close> raised; in both cases \<open>finally\<close> stops whatever task \<open>_recv_task\<close> refers to.\<close>

definition reader_resumes :: "nat \<Rightarrow> 'm mqueue \<Rightarrow> 'm mqueue" where
  "reader_resumes r q =
     (let finally = (\<lambda>x. (stop_reading (q_recv_task q)
            (result_of r x q))\<lparr>q_recv_task := None\<rparr>);
          leave = (\<lambda>q. q\<lparr>q_readings := filter (\<lambda>p. fst p \<noteq> r) (q_readings q)\<rparr>)
      in case map_of (q_readings q) r of
           Some (Got m) \<Rightarrow> leave (finally (Inr m))
         | Some Cancelled \<Rightarrow> leave (finally (Inl EndOfQueue))
         | _ \<Rightarrow> q)"

text \<open>One turn of \<open>_start_dispatching\<close>: taking a message and calling the handler, and what happens
  when the handler is over: it returned or raised (logged, the loop goes on), or was cancelled.\<close>

definition dispatcher_takes :: "nat \<Rightarrow> 'm mqueue \<Rightarrow> 'm mqueue" where
  "dispatcher_takes d q =
     (case (map_of (q_dispatchers q) d, q_msg_queue q) of
        (Some Idle, m # ms) \<Rightarrow>
          (pop m ms q)\<lparr>q_dispatchers := dict_set (q_dispatchers q) d (Handling m),
                       q_dispatched := q_dispatched q @ [m]\<rparr>
      | _ \<Rightarrow> q)"

datatype outcome = Returns | Raises | IsCancelled

definition handler_ends :: "nat \<Rightarrow> outcome \<Rightarrow> 'm mqueue \<Rightarrow> 'm mqueue" where
  "handler_ends d oc q =
     (case map_of (q_dispatchers q) d of
        Some (Handling m) \<Rightarrow>
          q\<lparr>q_dispatchers := dict_set (q_dispatchers q) d (if oc = IsCancelled then Ended else Idle)\<rparr>
      | _ \<Rightarrow> q)"

text \<open>\<open>pause_dispatching\<close>: its entry and its exit.\<close>

definition pause_enter :: "'m mqueue \<Rightarrow> 'm mqueue result" where
  "pause_enter q =
     (if q_dispatcher_task q = None then Inl StateError
      else Inr ((stop_dispatcher (q_dispatcher_task q) q)\<lparr>q_dispatcher_task := None\<rparr>))"

definition pause_exit :: "'m mqueue \<Rightarrow> 'm mqueue" where
  "pause_exit q = create_dispatcher q"

text \<open>\<open>buffer_until_drained\<close>: entry, the condition of its loop, and its \<open>finally\<close>.\<close>

definition buffer_enter :: "'m mqueue \<Rightarrow> 'm mqueue result" where
  "buffer_enter q =
     (if q_buffer_msg_queue q \<noteq> None then Inl StateError else Inr (q\<lparr>q_buffer_msg_queue := Some []\<rparr>))"

definition drained :: "'m mqueue \<Rightarrow> bool" where
  "drained q \<longleftrightarrow> q_msg_queue q = []"

definition swap_queues :: "'m mqueue \<Rightarrow> 'm mqueue" where
  "swap_queues q =
     (case q_buffer_msg_queue q of
        None \<Rightarrow> q
      | Some b \<Rightarrow> q\<lparr>q_msg_queue := b, q_generation := Suc (q_generation q)\<rparr>)"

definition buffer_exit :: "bool \<Rightarrow> 'm mqueue \<Rightarrow> 'm mqueue" where
  "buffer_exit discard_buffer q =
     (let q1 = (if discard_buffer then q
                else if is_dispatching q
                then (case pause_enter q of Inr p \<Rightarrow> pause_exit (swap_queues p) | Inl _ \<Rightarrow> q)
                else swap_queues q)
      in q1\<lparr>q_buffer_msg_queue := None\<rparr>)"

definition stop :: "'m mqueue \<Rightarrow> 'm mqueue" where
  "stop q =
     (if q_closed q then q
      else (stop_reading (q_recv_task q) (stop_dispatcher (q_dispatcher_task q) q))
             \<lparr>q_closed := True, q_dispatcher_task := None, q_recv_task := None\<rparr>)"

definition is_stopped :: "'m mqueue \<Rightarrow> bool" where
  "is_stopped q \<longleftrightarrow> q_closed q"

section \<open>Runs\<close>

datatype 'm mevent =
    Put 'm | Get nat | GetNowait | ReadingRuns | ReaderResumes nat | Takes nat
  | HandlerEnds nat outcome | StartDispatching bool | PauseEnter | PauseExit
  | BufferEnter | BufferExit bool | Stop

definition or_unchanged :: "'m mqueue \<Rightarrow> 'm mqueue result \<Rightarrow> 'm mqueue" where
  "or_unchanged q r = (case r of Inl _ \<Rightarrow> q | Inr q' \<Rightarrow> q')"

text \<open>A step of any of the tasks; a call that raises leaves the state as it was.\<close>

fun mq_step :: "('m \<Rightarrow> bool) \<Rightarrow> 'm mevent \<Rightarrow> 'm mqueue \<Rightarrow> 'm mqueue" where
  "mq_step tr (Put m) q = put m q"
| "mq_step tr (Get r) q = get tr r q"
| "mq_step tr GetNowait q = (case get_nowait q of Inl _ \<Rightarrow> q | Inr (q', _) \<Rightarrow> q')"
| "mq_step tr ReadingRuns q = reading_runs q"
| "mq_step tr (ReaderResumes r) q = reader_resumes r q"
| "mq_step tr (Takes d) q = dispatcher_takes d q"
| "mq_step tr (HandlerEnds d oc) q = handler_ends d oc q"
| "mq_step tr (StartDispatching b) q = or_unchanged q (start_dispatching b q)"
| "mq_step tr PauseEnter q = or_unchanged q (pause_enter q)"
| "mq_step tr PauseExit q = pause_exit q"
| "mq_step tr BufferEnter q = or_unchanged q (buffer_enter q)"
| "mq_step tr (BufferExit discard) q = buffer_exit discard q"
| "mq_step tr Stop q = stop q"

definition buffered :: "'m mqueue \<Rightarrow> 'm list" where
  "buffered q = (case q_buffer_msg_queue q of None \<Rightarrow> [] | Some b \<Rightarrow> b)"

definition inside :: "'m mqueue \<Rightarrow> 'm list" where
  "inside q = q_msg_queue q @ buffered q"

text \<open>The only steps that can lose a message: leaving \<open>buffer_until_drained\<close> with a buffer to
  discard, or with messages that were not drained.\<close>

fun mq_lossless :: "'m mevent \<Rightarrow> 'm mqueue \<Rightarrow> bool" where
  "mq_lossless (BufferExit discard) q \<longleftrightarrow>
     (if discard then buffered q = [] else q_buffer_msg_queue q = None \<or> drained q)"
| "mq_lossless _ q \<longleftrightarrow> True"

section \<open>Lemmas\<close>

text \<open>What an operation on tasks leaves alone.\<close>

definition same_store :: "'m mqueue \<Rightarrow> 'm mqueue \<Rightarrow> bool" where
  "same_store q q' \<longleftrightarrow> q_msg_queue q' = q_msg_queue q \<and> q_buffer_msg_queue q' = q_buffer_msg_queue q \<and>
     q_accepted q' = q_accepted q \<and> q_taken q' = q_taken q \<and> q_dispatched q' = q_dispatched q \<and>
     q_generation q' = q_generation q"

named_theorems queue_simps \<open>the parts of the queue after an operation\<close>

lemma same_store_tasks [queue_simps]:
  "same_store q (create_dispatcher q)"
  "same_store q (stop_dispatcher t q)"
  "same_store q (stop_reading u q)"
  "same_store q (result_of r x q)"
  "same_store q (blocking_read r q)"
  "same_store q (handler_ends d oc q)"
  "same_store q (pause_exit q)"
  by (auto simp: same_store_def create_dispatcher_def stop_dispatcher_def stop_reading_def
      result_of_def blocking_read_def handler_ends_def pause_exit_def
      split: option.splits dispatcher.splits)

lemma same_store_trans: "same_store q p \<Longrightarrow> same_store p r \<Longrightarrow> same_store q r"
  by (simp add: same_store_def)

lemma same_store_upd [queue_simps]:
  "same_store q p \<Longrightarrow> same_store q (p\<lparr>q_recv_task := a\<rparr>)"
  "same_store q p \<Longrightarrow> same_store q (p\<lparr>q_dispatcher_task := a\<rparr>)"
  "same_store q p \<Longrightarrow> same_store q (p\<lparr>q_readings := b\<rparr>)"
  "same_store q p \<Longrightarrow> same_store q (p\<lparr>q_closed := c\<rparr>)"
  "same_store q p \<Longrightarrow> same_store q (p\<lparr>q_on_msg_coro := c\<rparr>)"
  by (simp_all add: same_store_def)

lemma same_store_refl [queue_simps]: "same_store q q"
  by (simp add: same_store_def)

lemma same_store_resume: "same_store q (reader_resumes r q)"
proof -
  have "same_store q (stop_reading t (result_of r x q))" for t x
    by (rule same_store_trans [OF same_store_tasks(4) same_store_tasks(3)])
  then show ?thesis
    by (auto simp: reader_resumes_def Let_def queue_simps split: option.splits reading.splits)
qed

lemma same_store_stop: "same_store q (stop q)"
proof -
  have "same_store q (stop_reading t (stop_dispatcher u q))" for t u
    by (rule same_store_trans [OF same_store_tasks(2) same_store_tasks(3)])
  then show ?thesis by (auto simp: stop_def queue_simps)
qed

lemma same_store_start: "same_store q (or_unchanged q (start_dispatching b q))"
proof -
  have "same_store q (create_dispatcher (q\<lparr>q_on_msg_coro := True\<rparr>))"
    by (rule same_store_trans [OF same_store_upd(5) [OF same_store_refl] same_store_tasks(1)])
  then show ?thesis by (auto simp: or_unchanged_def start_dispatching_def queue_simps)
qed

lemma same_store_pause: "same_store q (or_unchanged q (pause_enter q))"
  by (auto simp: or_unchanged_def pause_enter_def queue_simps)

lemmas task_steps = same_store_resume same_store_stop same_store_start same_store_pause
  same_store_tasks(6,7)

lemma get_store:
  "same_store q (get tr r q) \<or> (\<exists>m ms. q_msg_queue q = m # ms \<and> same_store (pop m ms q) (get tr r q))"
  by (auto simp: get_def get_nowait_def queue_simps split: list.splits)

lemma taking_steps:
  "same_store q (reading_runs q) \<or> (\<exists>m ms. q_msg_queue q = m # ms \<and> same_store (pop m ms q) (reading_runs q))"
  "(\<exists>m ms. q_msg_queue q = m # ms \<and>
      same_store ((pop m ms q)\<lparr>q_dispatched := q_dispatched q @ [m]\<rparr>) (dispatcher_takes d q)) \<or>
    dispatcher_takes d q = q"
  by (auto simp: reading_runs_def dispatcher_takes_def same_store_def
      split: option.splits list.splits dispatcher.splits)

lemma swap_queues_simps [queue_simps]:
  "q_msg_queue (swap_queues q) = (case q_buffer_msg_queue q of None \<Rightarrow> q_msg_queue q | Some b \<Rightarrow> b)"
  "q_accepted (swap_queues q) = q_accepted q" "q_taken (swap_queues q) = q_taken q"
  "q_dispatched (swap_queues q) = q_dispatched q" "q_readings (swap_queues q) = q_readings q"
  "q_generation q \<le> q_generation (swap_queues q)"
  by (auto simp: swap_queues_def split: option.splits)

lemma buffer_exit_keep:
  "q_msg_queue (buffer_exit False q) = (case q_buffer_msg_queue q of None \<Rightarrow> q_msg_queue q | Some b \<Rightarrow> b)"
  "q_accepted (buffer_exit False q) = q_accepted q" "q_taken (buffer_exit False q) = q_taken q"
  "q_dispatched (buffer_exit False q) = q_dispatched q" "q_readings (buffer_exit False q) = q_readings q"
  "q_buffer_msg_queue (buffer_exit d q) = None"
  by (auto simp: buffer_exit_def is_dispatching_def pause_enter_def pause_exit_def create_dispatcher_def
      stop_dispatcher_def Let_def swap_queues_simps split: option.splits)

lemma buffer_exit_discard:
  "buffer_exit True q = q\<lparr>q_buffer_msg_queue := None\<rparr>"
  by (simp add: buffer_exit_def)

lemma buffer_exit_taken [queue_simps]:
  "q_taken (buffer_exit d q) = q_taken q" "q_accepted (buffer_exit d q) = q_accepted q"
  "q_dispatched (buffer_exit d q) = q_dispatched q"
  by (cases d; simp add: buffer_exit_keep buffer_exit_discard)+

lemma inside_same_store: "same_store q q' \<Longrightarrow> inside q' = inside q"
  by (simp add: same_store_def inside_def buffered_def)

lemma inside_pop: "q_msg_queue q = m # ms \<Longrightarrow> inside q = m # inside (pop m ms q)"
  by (simp add: inside_def buffered_def pop_def)

lemma conserved_task_step:
  "same_store q q' \<Longrightarrow> q_accepted q = q_taken q @ inside q \<Longrightarrow> q_accepted q' = q_taken q' @ inside q'"
  using inside_same_store [of q q'] by (simp add: same_store_def)

lemma conserved_pop:
  assumes "q_msg_queue q = m # ms" "q_accepted q = q_taken q @ inside q"
  shows "q_accepted (pop m ms q) = q_taken (pop m ms q) @ inside (pop m ms q)"
  using assms inside_pop [OF assms(1)] by (simp add: pop_def)

section \<open>The queue is a mailbox\<close>

lemma mq_conserve:
  assumes "mq_lossless e q" "q_accepted q = q_taken q @ inside q"
  shows "q_accepted (mq_step tr e q) = q_taken (mq_step tr e q) @ inside (mq_step tr e q)"
proof (cases e)
  case (Put m)
  with assms(2) show ?thesis by (auto simp: put_def inside_def buffered_def split: option.splits)
next
  case (Get r)
  from get_store [of q tr r] assms(2) conserved_task_step conserved_pop Get show ?thesis
    by (metis mq_step.simps(2))
next
  case GetNowait
  with assms(2) conserved_pop [of q] show ?thesis
    by (auto simp: get_nowait_def split: list.splits)
next
  case ReadingRuns
  from taking_steps(1) [of q] assms(2) conserved_task_step conserved_pop ReadingRuns show ?thesis
    by (metis mq_step.simps(4))
next
  case (Takes d)
  from taking_steps(2) [of q d] show ?thesis
  proof (elim disjE exE conjE)
    fix m ms
    assume m: "q_msg_queue q = m # ms"
      and st: "same_store ((pop m ms q)\<lparr>q_dispatched := q_dispatched q @ [m]\<rparr>) (dispatcher_takes d q)"
    from conserved_pop [OF m assms(2)]
    have "q_accepted ((pop m ms q)\<lparr>q_dispatched := q_dispatched q @ [m]\<rparr>) =
        q_taken ((pop m ms q)\<lparr>q_dispatched := q_dispatched q @ [m]\<rparr>) @
        inside ((pop m ms q)\<lparr>q_dispatched := q_dispatched q @ [m]\<rparr>)"
      by (simp add: inside_def buffered_def)
    from conserved_task_step [OF st this] Takes show ?thesis by simp
  qed (use Takes assms(2) in simp)
next
  case BufferEnter
  with assms(2) show ?thesis
    by (auto simp: or_unchanged_def buffer_enter_def inside_def buffered_def)
next
  case (BufferExit d)
  with assms show ?thesis
    by (cases d) (auto simp: buffer_exit_discard buffer_exit_keep inside_def buffered_def drained_def
        split: option.splits)
qed (use assms(2) conserved_task_step [OF task_steps(1)] conserved_task_step [OF task_steps(2)]
      conserved_task_step [OF task_steps(3)] conserved_task_step [OF task_steps(4)]
      conserved_task_step [OF task_steps(5)] conserved_task_step [OF task_steps(6)] in simp_all)

lemma mq_taken_grows: "\<exists>xs. q_taken (mq_step tr e q) = q_taken q @ xs"
proof -
  have task: "\<exists>xs. q_taken q' = q_taken q @ xs" if "same_store q q'" for q'
    using that by (simp add: same_store_def)
  have popped: "\<exists>xs. q_taken q' = q_taken q @ xs" if "same_store (pop m ms q) q'" for q' m ms
    using that by (simp add: same_store_def pop_def)
  show ?thesis
  proof (cases e)
    case (Get r)
    with get_store [of q tr r] task popped show ?thesis by (metis mq_step.simps(2))
  next
    case ReadingRuns
    with taking_steps(1) [of q] task popped show ?thesis by (metis mq_step.simps(4))
  next
    case (Takes d)
    with taking_steps(2) [of q d] show ?thesis by (auto simp: same_store_def pop_def)
  qed (use task [OF task_steps(1)] task [OF task_steps(2)] task [OF task_steps(3)]
      task [OF task_steps(4)] task [OF task_steps(5)] task [OF task_steps(6)] in
      \<open>auto simp: put_def get_nowait_def pop_def or_unchanged_def buffer_enter_def queue_simps
        split: option.splits list.splits\<close>)
qed

interpretation mq: mailbox "mq_step tr" q_accepted q_taken inside mq_lossless for tr
  by unfold_locales (rule mq_conserve, assumption+, rule mq_taken_grows)

text \<open>A dispatcher that waits for messages serves the queue, whether its handler returns or raises.\<close>

interpretation mq_served: served_mailbox "mq_step tr" q_accepted q_taken inside mq_lossless
  "\<lambda>oc. [Takes d, HandlerEnds d oc]" "\<lambda>oc. oc \<noteq> IsCancelled"
  "\<lambda>q. map_of (q_dispatchers q) d = Some Idle \<and> q_buffer_msg_queue q = None" for tr d
  by unfold_locales (auto simp: inside_def buffered_def dispatcher_takes_def handler_ends_def pop_def)

lemma mq_new_store:
  "q_accepted (mq_new b) = []" "q_taken (mq_new b) = []" "inside (mq_new b) = []"
  "q_dispatched (mq_new b) = []" "q_readings (mq_new b) = []"
  by (simp_all add: mq_new_def mq_empty_def start_dispatching_def create_dispatcher_def inside_def
      buffered_def)

text \<open>Without a \<open>get\<close>, only the dispatchers take messages.\<close>

fun no_get :: "'m mevent \<Rightarrow> bool" where
  "no_get (Get _) = False"
| "no_get GetNowait = False"
| "no_get _ = True"

lemma no_readings_step:
  "no_get e \<Longrightarrow> q_readings q = [] \<Longrightarrow> q_readings (mq_step tr e q) = []"
proof (cases e)
  case (BufferExit d)
  then show "q_readings q = [] \<Longrightarrow> ?thesis"
    by (cases d) (simp_all add: buffer_exit_discard buffer_exit_keep)
qed (auto simp: put_def reading_runs_def reader_resumes_def dispatcher_takes_def handler_ends_def
    or_unchanged_def start_dispatching_def create_dispatcher_def pause_enter_def pause_exit_def
    stop_dispatcher_def stop_reading_def buffer_enter_def stop_def pop_def Let_def
    split: option.splits list.splits dispatcher.splits)

lemma dispatched_step:
  assumes "no_get e" "q_readings q = []" "q_dispatched q = q_taken q"
  shows "q_dispatched (mq_step tr e q) = q_taken (mq_step tr e q)"
proof (cases e)
  case ReadingRuns
  with assms show ?thesis by (simp add: reading_runs_def)
next
  case (Takes d)
  with taking_steps(2) [of q d] assms show ?thesis by (auto simp: same_store_def pop_def)
qed (use assms task_steps [of q] in
    \<open>auto simp: put_def or_unchanged_def buffer_enter_def queue_simps same_store_def split: option.splits\<close>)

lemma dispatched_run:
  "list_all no_get es \<Longrightarrow> q_readings q = [] \<Longrightarrow> q_dispatched q = q_taken q \<Longrightarrow>
   q_dispatched (fold (mq_step tr) es q) = q_taken (fold (mq_step tr) es q)"
  by (induction es arbitrary: q) (auto simp: no_readings_step dispatched_step)

definition turns :: "nat \<Rightarrow> outcome list \<Rightarrow> 'm mevent list" where
  "turns d ocs = concat (map (\<lambda>oc. [Takes d, HandlerEnds d oc]) ocs)"

lemma dispatcher_serves:
  assumes "map_of (q_dispatchers q) d = Some Idle" "length ocs \<le> length (q_msg_queue q)"
    and "IsCancelled \<notin> set ocs"
  shows "q_msg_queue (fold (mq_step tr) (turns d ocs) q) = drop (length ocs) (q_msg_queue q) \<and>
    q_dispatched (fold (mq_step tr) (turns d ocs) q) =
      q_dispatched q @ take (length ocs) (q_msg_queue q)"
  using assms
proof (induction ocs arbitrary: q)
  case (Cons oc ocs)
  from Cons.prems(2) obtain m ms where m: "q_msg_queue q = m # ms"
    by (cases "q_msg_queue q") auto
  let ?q = "mq_step tr (HandlerEnds d oc) (mq_step tr (Takes d) q)"
  have oc: "oc \<noteq> IsCancelled" using Cons.prems(3) by auto
  from Cons.prems m oc have q: "q_msg_queue ?q = ms" "q_dispatched ?q = q_dispatched q @ [m]"
    "map_of (q_dispatchers ?q) d = Some Idle"
    by (simp_all add: dispatcher_takes_def handler_ends_def pop_def)
  from Cons.IH [of ?q] q m Cons.prems show ?case
    by (simp add: turns_def)
qed (simp add: turns_def)

text \<open>A blocked reader whose queue object was replaced.\<close>

fun no_wakeup :: "'m mevent \<Rightarrow> bool" where
  "no_wakeup (ReaderResumes _) = False"
| "no_wakeup Stop = False"
| "no_wakeup _ = True"

definition stranded :: "nat \<Rightarrow> nat \<Rightarrow> 'm mqueue \<Rightarrow> bool" where
  "stranded r g q \<longleftrightarrow> (r, Waiting g) \<in> set (q_readings q) \<and> g < q_generation q"

lemma generation_step: "q_generation q \<le> q_generation (mq_step tr e q)"
proof (cases e)
  case (Get r)
  with get_store [of q tr r] show ?thesis by (auto simp: same_store_def pop_def)
next
  case ReadingRuns
  with taking_steps(1) [of q] show ?thesis by (auto simp: same_store_def pop_def)
next
  case (Takes d)
  with taking_steps(2) [of q d] show ?thesis by (auto simp: same_store_def pop_def)
next
  case (BufferExit d)
  then show ?thesis
    by (auto simp: buffer_exit_def is_dispatching_def pause_enter_def pause_exit_def
        create_dispatcher_def stop_dispatcher_def Let_def swap_queues_def split: option.splits)
qed (use task_steps [of q] in
    \<open>auto simp: put_def get_nowait_def pop_def or_unchanged_def buffer_enter_def same_store_def
      split: option.splits list.splits\<close>)

lemma stranded_step:
  assumes "stranded r g q" "no_wakeup e"
  shows "stranded r g (mq_step tr e q)"
proof -
  have "(r, Waiting g) \<in> set (q_readings (mq_step tr e q))"
    using assms
  proof (cases e)
    case ReadingRuns
    with assms show ?thesis
      by (auto simp: reading_runs_def stranded_def pop_def split: option.splits list.splits)
  next
    case (BufferExit d)
    with assms show ?thesis
      by (cases d) (simp_all add: buffer_exit_discard buffer_exit_keep stranded_def)
  qed (auto simp: stranded_def put_def get_def get_nowait_def result_of_def blocking_read_def
      dispatcher_takes_def handler_ends_def or_unchanged_def start_dispatching_def
      create_dispatcher_def pause_enter_def pause_exit_def stop_dispatcher_def buffer_enter_def pop_def
      split: option.splits list.splits dispatcher.splits)
  with assms generation_step [of q tr e] show ?thesis by (simp add: stranded_def)
qed

lemma stranded_run:
  "stranded r g q \<Longrightarrow> list_all no_wakeup es \<Longrightarrow> stranded r g (fold (mq_step tr) es q)"
  by (induction es arbitrary: q) (auto simp: stranded_step)

section \<open>Properties\<close>

text \<open>
  C13: first in, first out. In every interleaving of the tasks of a new queue - puts, dispatchers,
  readers, pauses, buffering and stops - as long as no drain is left early or discards messages,
  the messages accepted are those taken, in that order, followed by those still inside; and when
  nobody calls \<open>get\<close>, those taken are exactly those given to the handler.
\<close>
theorem queue_fifo:
  assumes "mq.lossless_run tr es (mq_new on_msg)"
  shows "q_accepted (fold (mq_step tr) es (mq_new on_msg)) =
      q_taken (fold (mq_step tr) es (mq_new on_msg)) @ inside (fold (mq_step tr) es (mq_new on_msg)) \<and>
    (list_all no_get es \<longrightarrow>
      q_dispatched (fold (mq_step tr) es (mq_new on_msg)) = q_taken (fold (mq_step tr) es (mq_new on_msg)))"
  using mq.run_conserves [OF assms] dispatched_run [where q = "mq_new on_msg"]
  by (auto simp: mq_new_store)

definition sample_run :: "nat mevent list" where
  "sample_run = [Put 1, Put 2, Takes 0, BufferEnter, Put 3, HandlerEnds 0 Raises, Takes 0,
     BufferExit False, PauseEnter, PauseExit]"

theorem queue_fifo_witness:
  "q_dispatched (fold (mq_step (\<lambda>_. True)) sample_run (mq_new True)) = [1, 2] \<and>
   q_accepted (fold (mq_step (\<lambda>_. True)) sample_run (mq_new True)) = [1, 2, 3]"
proof -
  have l: "mq.lossless_run (\<lambda>_. True) sample_run (mq_new True)"
    and n: "list_all no_get sample_run"
    and t: "q_taken (fold (mq_step (\<lambda>_. True)) sample_run (mq_new True)) = [1, 2]"
    and i: "inside (fold (mq_step (\<lambda>_. True)) sample_run (mq_new True)) = [3]"
    by (simp_all add: sample_run_def mq_new_def mq_empty_def start_dispatching_def
        create_dispatcher_def put_def dispatcher_takes_def handler_ends_def pop_def or_unchanged_def
        buffer_enter_def buffer_exit_def is_dispatching_def pause_enter_def pause_exit_def
        stop_dispatcher_def swap_queues_def drained_def inside_def buffered_def)
  show ?thesis using queue_fifo [OF l] n t i by simp
qed

text \<open>
  C14: a running dispatcher hands every message over. From any state with an idle dispatcher, as
  many turns as there are messages leave the queue empty and give each message to the handler
  once, in order, whether the handler returns or raises.
\<close>
theorem dispatcher_hands_over_all:
  assumes "map_of (q_dispatchers q) d = Some Idle"
    and "length ocs = length (q_msg_queue q)" and "IsCancelled \<notin> set ocs"
  shows "q_msg_queue (fold (mq_step tr) (turns d ocs) q) = [] \<and>
    q_dispatched (fold (mq_step tr) (turns d ocs) q) = q_dispatched q @ q_msg_queue q"
  using dispatcher_serves [OF assms(1) _ assms(3), of tr] assms(2) by simp

theorem dispatcher_hands_over_all_witness:
  "q_dispatched (fold (mq_step (\<lambda>_. True)) (turns 0 [Raises, Returns]) (put (8::nat) (put 7 (mq_new True)))) = [7, 8]"
  using dispatcher_hands_over_all [of "put (8::nat) (put 7 (mq_new True))" 0 "[Raises, Returns]"]
  by (simp add: mq_new_def mq_empty_def start_dispatching_def create_dispatcher_def put_def)

text \<open>
  what a stopped queue still gives. Without a dispatcher, the messages left in a stopped
  queue are read in order by successive calls of \<open>get\<close> - provided none of them is false in
  Python - and every call after that raises \<open>EndOfQueue\<close>.
\<close>
theorem stopped_queue_reads:
  assumes "q_closed q" and "q_dispatcher_task q = None" and "list_all tr (q_msg_queue q)"
  shows "q_results (fold (get tr) (replicate (length (q_msg_queue q)) r @ replicate k r) q) =
    q_results q @ map (\<lambda>m. (r, Inr m)) (q_msg_queue q) @ replicate k (r, Inl EndOfQueue)"
  using assms
proof (induction "q_msg_queue q" arbitrary: q)
  case Nil
  then show ?case
  proof (induction k arbitrary: q)
    case (Suc k)
    have "get tr r q = result_of r (Inl EndOfQueue) q"
      using Suc.prems by (simp add: get_def get_nowait_def)
    with Suc.IH [of "result_of r (Inl EndOfQueue) q"] Suc.prems show ?case
      by (simp add: result_of_def)
  qed simp
next
  case (Cons m ms)
  have "get tr r q = result_of r (Inr m) (pop m ms q)"
    using Cons.prems Cons.hyps(2) [symmetric] by (simp add: get_def get_nowait_def)
  with Cons.hyps(1) [of "result_of r (Inr m) (pop m ms q)"] Cons.prems Cons.hyps(2) [symmetric]
  show ?case by (simp add: result_of_def pop_def)
qed

theorem stopped_queue_reads_witness:
  "q_results (fold (get (\<lambda>_. True)) [9, 9, 9] (stop (put (2::nat) (put 1 (mq_new False))))) =
    [(9, Inr 1), (9, Inr 2), (9, Inl EndOfQueue)]"
  using stopped_queue_reads [of "stop (put (2::nat) (put 1 (mq_new False)))" "\<lambda>_. True" 9 1]
  by (simp add: mq_new_def mq_empty_def start_dispatching_def put_def stop_def stop_reading_def
      stop_dispatcher_def numeral_2_eq_2)

text \<open>
  a message that is false in Python is lost. \<open>get\<close> takes it from the queue but does not
  return it: it starts waiting for another. A failed ASN.1 decoding gives such a message (an
  empty dictionary); on a stopped queue with no other message the reader waits though the queue
  is stopped, and stopping it again does not wake it.
\<close>
theorem false_message_lost:
  assumes "decode_with_length (Spec spec) pdu bs = Inl DecodeError"
    and "q_dispatcher_task q = None" and "q_closed q"
    and "q_msg_queue q = [snd (projr (asn1_decode decode_with_length spec pdu bs))]"
  shows "q_msg_queue (get (\<lambda>d. d \<noteq> []) r q) = [] \<and>
    q_results (get (\<lambda>d. d \<noteq> []) r q) = q_results q \<and>
    (r, Waiting (q_generation q)) \<in> set (q_readings (stop (get (\<lambda>d. d \<noteq> []) r q)))"
  using assms by (simp add: asn1_decode_def get_def get_nowait_def blocking_read_def pop_def stop_def)

theorem false_message_lost_witness:
  "q_results (get (\<lambda>d. d \<noteq> []) 9 (stop (put ([] :: (string \<times> pyval) list) (mq_new False)))) = []"
proof -
  let ?dec = "\<lambda>_ _ _. Inl DecodeError" and ?spec = "\<lparr>SpecName = ''s'', SpecPkgDir = ''d'', Spec = ()\<rparr>"
  have "q_results (get (\<lambda>d. d \<noteq> []) 9 (stop (put ([] :: (string \<times> pyval) list) (mq_new False)))) =
      q_results (stop (put ([] :: (string \<times> pyval) list) (mq_new False)))"
    using false_message_lost [of ?dec ?spec "''pdu''" "[]" "stop (put ([] :: (string \<times> pyval) list) (mq_new False))" 9]
    by (simp add: mq_new_def mq_empty_def start_dispatching_def put_def stop_def stop_reading_def
        stop_dispatcher_def asn1_decode_def)
  then show ?thesis
    by (simp add: mq_new_def mq_empty_def start_dispatching_def put_def stop_def stop_reading_def
        stop_dispatcher_def)
qed

text \<open>
  overlapping readers. When a second \<open>get\<close> starts waiting before the first has returned, the
  first message wakes the first reader, whose \<open>finally\<close> cancels the second: it gets
  \<open>EndOfQueue\<close> from a queue that is open. Stopping instead of putting wakes only the second.
\<close>
theorem overlapping_readers:
  assumes "q_closed q = False" and "q_dispatcher_task q = None" and "q_msg_queue q = []"
    and "q_buffer_msg_queue q = None" and "q_readings q = []" and "r1 \<noteq> r2"
  shows "(let q' = fold (mq_step tr) [Get r1, Get r2, Put m, ReadingRuns, ReaderResumes r1, ReaderResumes r2] q
          in q_results q' = q_results q @ [(r1, Inr m), (r2, Inl EndOfQueue)] \<and> \<not> q_closed q') \<and>
         (let q' = fold (mq_step tr) [Get r1, Get r2, Stop, ReaderResumes r2, ReaderResumes r1, Stop] q
          in q_results q' = q_results q @ [(r2, Inl EndOfQueue)] \<and>
             map_of (q_readings q') r1 = Some (Waiting (q_generation q')))"
  using assms
  by (simp add: Let_def get_def get_nowait_def blocking_read_def put_def reading_runs_def pop_def
      reader_resumes_def result_of_def stop_reading_def cancel_reading_def stop_def stop_dispatcher_def)

theorem overlapping_readers_witness:
  "q_results (fold (mq_step (\<lambda>_. True)) [Get 1, Get 2, Put (5::nat), ReadingRuns, ReaderResumes 1, ReaderResumes 2]
      (mq_new False)) = [(1, Inr 5), (2, Inl EndOfQueue)]"
proof -
  have n: "q_closed (mq_new False :: nat mqueue) = False" "q_dispatcher_task (mq_new False :: nat mqueue) = None"
    "q_msg_queue (mq_new False :: nat mqueue) = []" "q_buffer_msg_queue (mq_new False :: nat mqueue) = None"
    "q_readings (mq_new False :: nat mqueue) = []" "q_results (mq_new False :: nat mqueue) = []"
    by (simp_all add: mq_new_def mq_empty_def start_dispatching_def)
  from overlapping_readers [OF n(1-5), of 1 2 "\<lambda>_. True" 5] n(6) show ?thesis
    by (simp add: Let_def)
qed

text \<open>
  buffering strands a waiting reader. A reader that waits when \<open>buffer_until_drained\<close> is
  entered and left again is bound to the old queue object: whatever is put, taken, paused or
  buffered afterwards, it keeps waiting - messages in the queue or not - until the queue is
  stopped or another reader's \<open>finally\<close> cancels it.
\<close>
theorem swap_strands_reader:
  assumes "(r, Waiting (q_generation q)) \<in> set (q_readings q)" and "q_dispatcher_task q = None"
    and "q_buffer_msg_queue q = None" and "list_all no_wakeup es"
  shows "(r, Waiting (q_generation q)) \<in>
    set (q_readings (fold (mq_step tr) ([BufferEnter, BufferExit False] @ es) q))"
proof -
  let ?q = "fold (mq_step tr) [BufferEnter, BufferExit False] q"
  have "stranded r (q_generation q) ?q"
    using assms(1-3) by (simp add: stranded_def or_unchanged_def buffer_enter_def buffer_exit_def
        is_dispatching_def swap_queues_def)
  from stranded_run [OF this assms(4), of tr] show ?thesis
    by (simp add: stranded_def)
qed

theorem swap_strands_reader_witness:
  "(1, Waiting 0) \<in> set (q_readings
     (fold (mq_step (\<lambda>_. True)) ([BufferEnter, BufferExit False] @ [Put (5::nat), ReadingRuns, ReadingRuns])
       (get (\<lambda>_. True) 1 (mq_new False))))"
  using swap_strands_reader [of 1 "get (\<lambda>_. True) 1 (mq_new False)" "[Put (5::nat), ReadingRuns, ReadingRuns]"
      "\<lambda>_. True"]
  by (simp add: mq_new_def mq_empty_def start_dispatching_def get_def get_nowait_def blocking_read_def)

text \<open>
  stopping. A stop outside \<open>pause_dispatching\<close> ends the current dispatcher for good, nothing
  more is given to its handler; but when the queue is stopped inside \<open>pause_dispatching\<close>, leaving
  the block starts a new dispatcher on the stopped queue, and a second stop does not end it.
\<close>
theorem stop_and_pause:
  assumes "q_closed q = False" and "q_dispatcher_task q = Some d"
  shows "dispatcher_takes d (stop q) = stop q \<and> is_dispatching (stop q) = False \<and>
    (let q' = fold (mq_step tr) [PauseEnter, Stop, PauseExit, Stop] q
     in is_stopped q' \<and> is_dispatching q' \<and> (q_fresh q, Idle) \<in> set (q_dispatchers q'))"
proof (intro conjI)
  have "map_of (map (\<lambda>p. if fst p = d then (d, Ended) else p) ds) d \<noteq> Some Idle" for ds :: "(nat \<times> 'a dispatcher) list"
    by (induction ds) auto
  with assms show "dispatcher_takes d (stop q) = stop q"
    by (auto simp: stop_def stop_dispatcher_def stop_reading_def dispatcher_takes_def
        split: option.splits dispatcher.splits)
qed (use assms in \<open>auto simp: Let_def stop_def is_dispatching_def is_stopped_def or_unchanged_def
    pause_enter_def pause_exit_def create_dispatcher_def stop_dispatcher_def stop_reading_def
    split: option.splits\<close>)

theorem stop_and_pause_witness:
  "q_dispatched (fold (mq_step (\<lambda>_. True)) [PauseEnter, Stop, PauseExit, Stop, Put (5::nat), Takes 1] (mq_new True)) = [5] \<and>
   is_stopped (fold (mq_step (\<lambda>_. True)) [PauseEnter, Stop, PauseExit, Stop] (mq_new True :: nat mqueue))"
  using stop_and_pause [of "mq_new True :: nat mqueue" 0 "\<lambda>_. True"]
  by (simp add: Let_def mq_new_def mq_empty_def start_dispatching_def create_dispatcher_def stop_def
      or_unchanged_def pause_enter_def pause_exit_def stop_dispatcher_def stop_reading_def put_def
      dispatcher_takes_def pop_def)

end
