(* ===== verification/Heartbeat.thy ===== *)
theory Heartbeat
  imports Prelude
begin

text \<open>
  \<open>HeartbeatMonitor\<close> (\<open>common/session.py\<close>): one step per turn of its loop, after the sleep of one
  interval. \<open>hb_trips\<close> counts the calls of \<open>on_no_activity_coro\<close>; \<open>hb_missed\<close> is the value the
  counter yields next. A callback may raise, which ends the task.
\<close>

record monitor =
  hb_interval :: nat
  hb_stop_when_no_activity :: bool
  hb_tolerate :: int
  hb_pinged :: bool
  hb_missed :: nat
  hb_task :: bool
  hb_trips :: nat

text \<open>\<open>Validators.not_none\<close>.\<close>

definition not_none :: "'a option \<Rightarrow> 'a result" where
  "not_none x = (case x of None \<Rightarrow> Inl ValueError | Some v \<Rightarrow> Inr v)"

definition new_monitor :: "nat option \<Rightarrow> bool \<Rightarrow> int \<Rightarrow> monitor result" where
  "new_monitor interval stop tolerate =
     rbind (not_none interval) (\<lambda>i.
       Inr \<lparr>hb_interval = i, hb_stop_when_no_activity = stop, hb_tolerate = tolerate,
            hb_pinged = True, hb_missed = 1, hb_task = True, hb_trips = 0\<rparr>)"

definition ping :: "monitor \<Rightarrow> monitor" where
  "ping m = m\<lparr>hb_pinged := True\<rparr>"

definition is_running :: "monitor \<Rightarrow> bool" where
  "is_running m \<longleftrightarrow> hb_task m"

definition monitor_stop :: "monitor \<Rightarrow> monitor" where
  "monitor_stop m = m\<lparr>hb_task := False\<rparr>"

definition monitor_is_stopped :: "monitor \<Rightarrow> bool" where
  "monitor_is_stopped m \<longleftrightarrow> \<not> is_running m"

definition monitor_tick :: "bool \<Rightarrow> monitor \<Rightarrow> monitor" where
  "monitor_tick returns m =
     (if \<not> hb_task m then m
      else if hb_pinged m then m\<lparr>hb_pinged := False, hb_missed := 1\<rparr>
      else let m' = m\<lparr>hb_missed := Suc (hb_missed m)\<rparr>
           in if hb_tolerate m \<le> int (hb_missed m)
              then m'\<lparr>hb_trips := Suc (hb_trips m),
                      hb_task := returns \<and> \<not> hb_stop_when_no_activity m\<rparr>
              else m')"

datatype hb_event = Ping | Interval

fun hb_step :: "hb_event \<Rightarrow> monitor \<Rightarrow> monitor" where
  "hb_step Ping m = ping m"
| "hb_step Interval m = monitor_tick True m"

lemma silent_run:
  assumes "hb_task m" "\<not> hb_pinged m" "hb_stop_when_no_activity m = stop"
    and "hb_tolerate m = int k" "hb_missed m \<le> k"
  shows "hb_trips (fold hb_step (replicate n Interval) m) =
      hb_trips m + (if stop then of_bool (k - hb_missed m < n) else n - (k - hb_missed m)) \<and>
    hb_task (fold hb_step (replicate n Interval) m) = (stop \<longrightarrow> n \<le> k - hb_missed m)"
  using assms
proof (induction n arbitrary: m)
  case (Suc n)
  have ended: "fold hb_step (replicate n Interval) p = p" if "\<not> hb_task p" for p
    using that by (induction n) (simp_all add: monitor_tick_def)
  have trips: "hb_trips (fold hb_step (replicate n Interval) p) = hb_trips p + n \<and>
      hb_task (fold hb_step (replicate n Interval) p)"
    if "hb_task p" "\<not> hb_pinged p" "\<not> hb_stop_when_no_activity p" "hb_tolerate p \<le> int (hb_missed p)" for p
    using that
  proof (induction n arbitrary: p)
    case (Suc n)
    from Suc.IH [of "monitor_tick True p"] Suc.prems show ?case
      by (simp add: monitor_tick_def Let_def)
  qed simp
  show ?case
  proof (cases "hb_missed m < k")
    case True
    with Suc.IH [of "monitor_tick True m"] Suc.prems show ?thesis
      by (auto simp: monitor_tick_def Let_def)
  next
    case False
    with Suc.prems have "hb_missed m = k" by simp
    with Suc.prems trips [of "monitor_tick True m"] ended [of "monitor_tick True m"] show ?thesis
      by (cases stop) (simp_all add: monitor_tick_def Let_def)
  qed
qed auto

lemma active_run:
  assumes "hb_task m" "list_all (\<lambda>n. 0 < n) ns"
  shows "hb_trips (fold hb_step (concat (map (\<lambda>n. replicate n Ping @ [Interval]) ns)) m) = hb_trips m \<and>
    hb_task (fold hb_step (concat (map (\<lambda>n. replicate n Ping @ [Interval]) ns)) m)"
  using assms
proof (induction ns arbitrary: m)
  case (Cons n ns)
  have idem: "fold hb_step (replicate k Ping) (ping m) = ping m" for k
    by (induction k) (simp_all add: ping_def)
  from Cons.prems(2) obtain j where j: "n = Suc j" by (auto simp: gr0_conv_Suc)
  have p: "fold hb_step (replicate n Ping) m = ping m"
    unfolding j using idem [of j] by (simp only: replicate_Suc fold_simps hb_step.simps)
  from Cons.IH [of "monitor_tick True (ping m)"] p Cons.prems show ?case
    by (simp add: monitor_tick_def ping_def)
qed simp

text \<open>
  C15: a silent peer is noticed after exactly the tolerated number of intervals. After the last
  ping, one interval consumes it; of the \<open>n\<close> silent intervals that follow, a monitor that stops
  trips once when \<open>n\<close> reaches the tolerance and is over then, and a monitor that goes on trips
  in every interval from there. A ping in every interval keeps it from tripping at all.
\<close>
theorem monitor_detects_silence:
  assumes "hb_task m" and "hb_tolerate m = int k" and "0 < k" and "list_all (\<lambda>n. 0 < n) ns"
  shows "let active = concat (map (\<lambda>n. replicate n Ping @ [Interval]) ns);
             m' = fold hb_step (active @ [Ping, Interval] @ replicate n Interval) m
         in hb_trips m' = hb_trips m + (if hb_stop_when_no_activity m then of_bool (k \<le> n) else n - (k - 1)) \<and>
            hb_task m' = (hb_stop_when_no_activity m \<longrightarrow> n < k)"
proof -
  define active where "active = concat (map (\<lambda>n. replicate n Ping @ [Interval]) ns)"
  define p where "p = fold hb_step active m"
  have keep: "hb_tolerate (fold hb_step es q) = hb_tolerate q \<and>
      hb_stop_when_no_activity (fold hb_step es q) = hb_stop_when_no_activity q" for es q
  proof (induction es arbitrary: q)
    case (Cons e es)
    have "hb_tolerate (hb_step e q) = hb_tolerate q \<and>
        hb_stop_when_no_activity (hb_step e q) = hb_stop_when_no_activity q"
      by (cases e) (simp_all add: ping_def monitor_tick_def Let_def)
    with Cons show ?case by simp
  qed simp
  have p: "hb_trips p = hb_trips m" "hb_task p"
    using active_run [OF assms(1,4)] by (simp_all add: p_def active_def)
  from silent_run [of "monitor_tick True (ping p)" "hb_stop_when_no_activity m" k n]
    keep [of active m] p assms(2,3) show ?thesis
    unfolding Let_def active_def [symmetric]
    by (auto simp: p_def [symmetric] monitor_tick_def ping_def)
qed

theorem monitor_detects_silence_witness:
  "hb_trips (fold hb_step ([Ping, Ping, Interval] @ [Ping, Interval] @ [Interval, Interval, Interval])
     \<lparr>hb_interval = 10, hb_stop_when_no_activity = True, hb_tolerate = 2, hb_pinged = True,
      hb_missed = 1, hb_task = True, hb_trips = 0\<rparr>) = 1"
  using monitor_detects_silence [of "\<lparr>hb_interval = 10, hb_stop_when_no_activity = True,
      hb_tolerate = 2, hb_pinged = True, hb_missed = 1, hb_task = True, hb_trips = 0\<rparr>" 2 "[2]" 3]
  by (simp add: Let_def numeral_2_eq_2 numeral_3_eq_3)

end
