(* ===== verification/Session.thy ===== *)
theory Session
  imports Reader MessageQueue Heartbeat
begin

text \<open>
  \<open>AsyncSession\<close> (\<open>common/session.py\<close>): a session owns a reader, a message queue, two heartbeat
  monitors and the transport. What happens to it - callbacks of asyncio, turns of its tasks,
  calls of its user - are steps; \<open>close\<close> is a sequence of phases, one between two awaits, so that
  everything else may happen in between. \<open>on_message\<close>, \<open>send_heartbeat\<close> and \<open>deserialize\<close> belong
  to the subclass: the locale \<open>session_class\<close> states what they may not touch, and the facts on
  closing are proved in it. That a task that stops itself is cancelled at its next await is not
  modelled: closing goes on.
\<close>

section \<open>State\<close>

datatype sent = Wrote bytes | TransportClosed | CalledOnClose nat

text \<open>The phases of \<open>close\<close>, named by what comes next.\<close>

datatype phase =
    NotClosing | StopMonitors bool | ReaderDrain | QueueDrain | StopQueue | StopReader
  | CallOnClose | CloseDone | CloseFailed exn

record 'm session =
  s_closed :: bool
  s_closing_task :: "bool option"
  s_closing_started :: bool
  s_transport :: bool
  s_reader :: "'m reader option"
  s_queue :: "'m mqueue"
  s_local_hb :: "monitor option"
  s_remote_hb :: "monitor option"
  s_on_msg_coro :: "nat option"
  s_on_close_coro :: "nat option"
  s_dispatch_on_connect :: bool
  s_graceful_shutdown :: bool
  s_phase :: phase
  s_sent :: "sent list"

definition session_new :: "nat option \<Rightarrow> nat option \<Rightarrow> bool \<Rightarrow> bool \<Rightarrow> 'm session" where
  "session_new on_msg on_close dispatch graceful =
     \<lparr>s_closed = False, s_closing_task = None, s_closing_started = False, s_transport = False,
      s_reader = None, s_queue = mq_new False, s_local_hb = None, s_remote_hb = None,
      s_on_msg_coro = on_msg, s_on_close_coro = on_close, s_dispatch_on_connect = dispatch,
      s_graceful_shutdown = graceful, s_phase = NotClosing, s_sent = []\<rparr>"

definition is_active :: "('m, 'x) session_scheme \<Rightarrow> bool" where
  "is_active s \<longleftrightarrow> \<not> (s_closed s \<or> s_closing_task s \<noteq> None)"

definition is_closed :: "('m, 'x) session_scheme \<Rightarrow> bool" where
  "is_closed s \<longleftrightarrow> s_closed s"

section \<open>Closing\<close>

definition initiate_close :: "bool \<Rightarrow> ('m, 'x) session_scheme \<Rightarrow> ('m, 'x) session_scheme" where
  "initiate_close drain s =
     (if s_closed s \<or> s_closing_task s \<noteq> None then s else s\<lparr>s_closing_task := Some drain\<rparr>)"

text \<open>\<open>close\<close> up to its first await.\<close>

definition close_enter :: "bool \<Rightarrow> ('m, 'x) session_scheme \<Rightarrow> ('m, 'x) session_scheme" where
  "close_enter drain s =
     (if s_closed s then s
      else s\<lparr>s_closed := True,
             s_sent := s_sent s @ (if s_transport s then [TransportClosed] else []),
             s_phase := StopMonitors drain\<rparr>)"

text \<open>The task created by \<open>initiate_close\<close> begins.\<close>

definition closing_task_begins :: "('m, 'x) session_scheme \<Rightarrow> ('m, 'x) session_scheme" where
  "closing_task_begins s =
     (case s_closing_task s of
        None \<Rightarrow> s
      | Some drain \<Rightarrow>
          if s_closing_started s then s else close_enter drain (s\<lparr>s_closing_started := True\<rparr>))"

text \<open>The rest of \<open>close\<close>, phase by phase; \<open>buffer_until_drained\<close> of the session enters that of
  the reader and then that of the queue, and leaves them discarding what was buffered.\<close>

definition close_step :: "('m, 'x) session_scheme \<Rightarrow> ('m, 'x) session_scheme" where
  "close_step s =
     (case s_phase s of
        StopMonitors drain \<Rightarrow>
          let s1 = s\<lparr>s_local_hb := map_option monitor_stop (s_local_hb s),
                     s_remote_hb := map_option monitor_stop (s_remote_hb s)\<rparr>
          in if \<not> drain then s1\<lparr>s_phase := StopQueue\<rparr>
             else (case s_reader s of
                     None \<Rightarrow> s1\<lparr>s_phase := CloseFailed AttributeError\<rparr>
                   | Some r \<Rightarrow>
                       (case drain_enter r of
                          Inl e \<Rightarrow> s1\<lparr>s_phase := CloseFailed e\<rparr>
                        | Inr r' \<Rightarrow> s1\<lparr>s_reader := Some r', s_phase := ReaderDrain\<rparr>))
      | ReaderDrain \<Rightarrow>
          (case s_reader s of
             None \<Rightarrow> s
           | Some r \<Rightarrow>
               if drain_mode r = Some True
               then (case buffer_enter (s_queue s) of
                       Inl e \<Rightarrow> s\<lparr>s_reader := Some (drain_exit True r), s_phase := CloseFailed e\<rparr>
                     | Inr q \<Rightarrow> s\<lparr>s_queue := q, s_phase := QueueDrain\<rparr>)
               else s)
      | QueueDrain \<Rightarrow>
          if drained (s_queue s)
          then s\<lparr>s_queue := buffer_exit True (s_queue s),
                 s_reader := map_option (drain_exit True) (s_reader s), s_phase := StopQueue\<rparr>
          else s
      | StopQueue \<Rightarrow> s\<lparr>s_queue := stop (s_queue s), s_phase := StopReader\<rparr>
      | StopReader \<Rightarrow> s\<lparr>s_reader := map_option reader_stop (s_reader s), s_phase := CallOnClose\<rparr>
      | CallOnClose \<Rightarrow>
          s\<lparr>s_sent := s_sent s @ (case s_on_close_coro s of None \<Rightarrow> [] | Some h \<Rightarrow> [CalledOnClose h]),
            s_phase := CloseDone\<rparr>
      | _ \<Rightarrow> s)"

section \<open>Handlers, heartbeats and the callbacks of asyncio\<close>

text \<open>\<open>set_handlers\<close>: the session afterwards, and the exception if one is raised.\<close>

definition set_handlers ::
  "nat option \<Rightarrow> nat option \<Rightarrow> ('m, 'x) session_scheme \<Rightarrow> ('m, 'x) session_scheme \<times> exn option" where
  "set_handlers on_msg on_close s =
     (if on_msg \<noteq> None \<and> is_dispatching (s_queue s) then (s, Some StateError)
      else let s1 = (if on_msg \<noteq> None then s\<lparr>s_on_msg_coro := on_msg\<rparr> else s)
           in if on_close = None then (s1, None)
              else (s1\<lparr>s_on_close_coro := on_close\<rparr>,
                    if s_closing_task s \<noteq> None \<or> s_closed s then Some StateError else None))"

definition session_start_dispatching :: "('m, 'x) session_scheme \<Rightarrow> ('m, 'x) session_scheme result" where
  "session_start_dispatching s =
     (if s_on_msg_coro s = None then Inr s
      else rbind (start_dispatching True (s_queue s)) (\<lambda>q. Inr (s\<lparr>s_queue := q\<rparr>)))"

definition start_heartbeats ::
  "nat option \<Rightarrow> nat option \<Rightarrow> ('m, 'x) session_scheme \<Rightarrow> ('m, 'x) session_scheme result" where
  "start_heartbeats local_interval remote_interval s =
     rbind (new_monitor local_interval False 1) (\<lambda>l.
     rbind (new_monitor remote_interval True 1) (\<lambda>r.
       Inr (s\<lparr>s_local_hb := Some l, s_remote_hb := Some r\<rparr>)))"

definition connection_made :: "('m, 'x) session_scheme \<Rightarrow> ('m, 'x) session_scheme result" where
  "connection_made s =
     (let s1 = s\<lparr>s_transport := True, s_reader := Some new_reader\<rparr>
      in if s_dispatch_on_connect s then session_start_dispatching s1 else Inr s1)"

definition data_received :: "bytes \<Rightarrow> ('m, 'x) session_scheme \<Rightarrow> ('m, 'x) session_scheme result" where
  "data_received data s =
     (let s1 = s\<lparr>s_remote_hb := map_option ping (s_remote_hb s)\<rparr>
      in case s_reader s of
           None \<Rightarrow> Inl AttributeError
         | Some r \<Rightarrow> Inr (s1\<lparr>s_reader := Some (on_data data r)\<rparr>))"

definition connection_lost :: "('m, 'x) session_scheme \<Rightarrow> ('m, 'x) session_scheme" where
  "connection_lost s = initiate_close (s_graceful_shutdown s) s"

definition async_on_message :: "'m \<Rightarrow> ('m, 'x) session_scheme \<Rightarrow> ('m, 'x) session_scheme" where
  "async_on_message m s = s\<lparr>s_queue := put m (s_queue s)\<rparr>"

text \<open>A turn of the reader's task: the messages it delivers go to \<open>on_message\<close>, and stopping
  itself it calls \<open>close\<close>.\<close>

definition reader_turn ::
  "'m deserializer \<Rightarrow> ('m \<Rightarrow> ('m, 'x) session_scheme \<Rightarrow> ('m, 'x) session_scheme) \<Rightarrow>
     ('m, 'x) session_scheme \<Rightarrow> ('m, 'x) session_scheme" where
  "reader_turn deserialize on_message s =
     (case s_reader s of
        None \<Rightarrow> s
      | Some r \<Rightarrow>
          let r' = process_tick deserialize (\<lambda>_. True) r;
              s1 = fold on_message (drop (length (delivered r)) (delivered r')) (s\<lparr>s_reader := Some r'\<rparr>)
          in if close_calls r < close_calls r' then close_enter False s1 else s1)"

text \<open>An interval of a monitor: the local one sends a heartbeat when it trips, the remote one
  closes the session.\<close>

definition tripped :: "monitor \<Rightarrow> monitor \<Rightarrow> bool" where
  "tripped m m' \<longleftrightarrow> hb_trips m < hb_trips m'"

definition local_interval ::
  "(('m, 'x) session_scheme \<Rightarrow> ('m, 'x) session_scheme) \<Rightarrow> ('m, 'x) session_scheme \<Rightarrow> ('m, 'x) session_scheme" where
  "local_interval send_heartbeat s =
     (case s_local_hb s of
        None \<Rightarrow> s
      | Some m \<Rightarrow>
          let m' = monitor_tick True m; s1 = s\<lparr>s_local_hb := Some m'\<rparr>
          in if tripped m m' then send_heartbeat s1 else s1)"

definition remote_interval :: "('m, 'x) session_scheme \<Rightarrow> ('m, 'x) session_scheme" where
  "remote_interval s =
     (case s_remote_hb s of
        None \<Rightarrow> s
      | Some m \<Rightarrow>
          let m' = monitor_tick True m; s1 = s\<lparr>s_remote_hb := Some m'\<rparr>
          in if tripped m m' then close_enter False s1 else s1)"

section \<open>Steps\<close>

datatype 'm sevent =
    ConnectionMade | DataReceived bytes | ConnectionLost | ReaderTurn | QueueEvent "'m mevent"
  | LocalInterval | RemoteInterval | InitiateClose bool | Close bool | ClosingTask | CloseStep
  | SetHandlers "nat option" "nat option" | StartDispatchingS | StartHeartbeats "nat option" "nat option"

definition or_same :: "'s \<Rightarrow> 's result \<Rightarrow> 's" where
  "or_same s r = (case r of Inl _ \<Rightarrow> s | Inr s' \<Rightarrow> s')"

fun session_step ::
  "'m deserializer \<Rightarrow> ('m \<Rightarrow> ('m, 'x) session_scheme \<Rightarrow> ('m, 'x) session_scheme) \<Rightarrow>
   (('m, 'x) session_scheme \<Rightarrow> ('m, 'x) session_scheme) \<Rightarrow> 'm sevent \<Rightarrow>
   ('m, 'x) session_scheme \<Rightarrow> ('m, 'x) session_scheme" where
  "session_step d om hb ConnectionMade s = or_same s (connection_made s)"
| "session_step d om hb (DataReceived bs) s = or_same s (data_received bs s)"
| "session_step d om hb ConnectionLost s = connection_lost s"
| "session_step d om hb ReaderTurn s = reader_turn d om s"
| "session_step d om hb (QueueEvent e) s = s\<lparr>s_queue := mq_step (\<lambda>_. True) e (s_queue s)\<rparr>"
| "session_step d om hb LocalInterval s = local_interval hb s"
| "session_step d om hb RemoteInterval s = remote_interval s"
| "session_step d om hb (InitiateClose drain) s = initiate_close drain s"
| "session_step d om hb (Close drain) s = close_enter drain s"
| "session_step d om hb ClosingTask s = closing_task_begins s"
| "session_step d om hb CloseStep s = close_step s"
| "session_step d om hb (SetHandlers m c) s = fst (set_handlers m c s)"
| "session_step d om hb StartDispatchingS s = or_same s (session_start_dispatching s)"
| "session_step d om hb (StartHeartbeats l r) s = or_same s (start_heartbeats l r s)"

section \<open>What closing rests on\<close>

definition closes :: "('m, 'x) session_scheme \<Rightarrow> nat" where
  "closes s = length (filter (\<lambda>x. case x of CalledOnClose _ \<Rightarrow> True | _ \<Rightarrow> False) (s_sent s))"

definition stage :: "('m, 'x) session_scheme \<Rightarrow> bool \<times> phase \<times> nat" where
  "stage s = (s_closed s, s_phase s, closes s)"

definition session_core :: "('m, 'x) session_scheme \<Rightarrow> (bool \<times> phase \<times> nat) \<times> 'm reader option \<times> bool" where
  "session_core s = (stage s, s_reader s, q_closed (s_queue s))"

text \<open>What a subclass must leave alone in \<open>on_message\<close> and \<open>send_heartbeat\<close>.\<close>

locale session_class =
  fixes deserialize :: "'m deserializer"
    and on_message :: "'m \<Rightarrow> ('m, 'x) session_scheme \<Rightarrow> ('m, 'x) session_scheme"
    and send_heartbeat :: "('m, 'x) session_scheme \<Rightarrow> ('m, 'x) session_scheme"
  assumes on_message_core: "session_core (on_message m s) = session_core s"
    and send_heartbeat_core: "session_core (send_heartbeat s) = session_core s"

lemma q_closed_step: "q_closed (mq_step tr e q) = (q_closed q \<or> e = Stop)"
proof (cases e)
  case (BufferExit d)
  then show ?thesis
    by (auto simp: buffer_exit_def is_dispatching_def pause_enter_def pause_exit_def
        create_dispatcher_def stop_dispatcher_def swap_queues_def Let_def split: option.splits)
next
  case (ReaderResumes r)
  then show ?thesis
    by (auto simp: reader_resumes_def result_of_def stop_reading_def Let_def
        split: option.splits reading.splits)
next
  case (Get r)
  then show ?thesis
    by (auto simp: get_def get_nowait_def result_of_def blocking_read_def pop_def split: list.splits)
qed (auto simp: put_def get_nowait_def reading_runs_def dispatcher_takes_def handler_ends_def
    or_unchanged_def start_dispatching_def create_dispatcher_def pause_enter_def pause_exit_def
    stop_dispatcher_def stop_reading_def buffer_enter_def stop_def pop_def
    split: option.splits list.splits dispatcher.splits)

lemma closes_fields [simp]:
  "closes (s\<lparr>s_closed := a\<rparr>) = closes s" "closes (s\<lparr>s_phase := b\<rparr>) = closes s"
  "closes (s\<lparr>s_reader := c\<rparr>) = closes s" "closes (s\<lparr>s_queue := q\<rparr>) = closes s"
  "closes (s\<lparr>s_local_hb := l\<rparr>) = closes s" "closes (s\<lparr>s_remote_hb := l\<rparr>) = closes s"
  "closes (s\<lparr>s_closing_task := t\<rparr>) = closes s" "closes (s\<lparr>s_closing_started := u\<rparr>) = closes s"
  "closes (s\<lparr>s_transport := u\<rparr>) = closes s" "closes (s\<lparr>s_on_msg_coro := h\<rparr>) = closes s"
  "closes (s\<lparr>s_on_close_coro := h\<rparr>) = closes s"
  by (simp_all add: closes_def)

lemma close_enter_stage:
  "stage (close_enter drain s) = (if s_closed s then stage s else (True, StopMonitors drain, closes s))"
  by (auto simp: stage_def close_enter_def closes_def)

lemma close_enter_keeps [simp]:
  "s_reader (close_enter drain s) = s_reader s" "s_queue (close_enter drain s) = s_queue s"
  by (simp_all add: close_enter_def)

definition begins_close :: "('m, 'x) session_scheme \<Rightarrow> ('m, 'x) session_scheme \<Rightarrow> bool" where
  "begins_close s s' \<longleftrightarrow>
     stage s' = stage s \<or> (\<not> s_closed s \<and> (\<exists>drain. stage s' = (True, StopMonitors drain, closes s)))"

lemma begins_close_refl [intro]: "stage s' = stage s \<Longrightarrow> begins_close s s'"
  by (simp add: begins_close_def)

lemma stage_fields [simp]:
  "stage (s\<lparr>s_reader := c\<rparr>) = stage s" "stage (s\<lparr>s_queue := q\<rparr>) = stage s"
  "stage (s\<lparr>s_local_hb := l\<rparr>) = stage s" "stage (s\<lparr>s_remote_hb := l\<rparr>) = stage s"
  "stage (s\<lparr>s_closing_task := t\<rparr>) = stage s" "stage (s\<lparr>s_closing_started := u\<rparr>) = stage s"
  "stage (s\<lparr>s_transport := u\<rparr>) = stage s" "stage (s\<lparr>s_on_msg_coro := h\<rparr>) = stage s"
  "stage (s\<lparr>s_on_close_coro := h\<rparr>) = stage s"
  by (simp_all add: stage_def)

lemma begins_close_enter:
  assumes "stage s' = stage s"
  shows "begins_close s (close_enter drain s')"
proof -
  from assms have "s_closed s' = s_closed s" "closes s' = closes s" by (simp_all add: stage_def)
  with assms close_enter_stage [of drain s'] show ?thesis by (auto simp: begins_close_def)
qed

lemma task_begins: "begins_close s (closing_task_begins s)"
  by (auto simp: closing_task_begins_def split: option.split intro!: begins_close_enter)

lemma start_dispatching_closed: "start_dispatching b q = Inr q' \<Longrightarrow> q_closed q' = q_closed q"
  by (auto simp: start_dispatching_def create_dispatcher_def split: if_splits)

lemma session_start_keeps:
  assumes "session_start_dispatching s = Inr s'"
  shows "stage s' = stage s" "s_reader s' = s_reader s" "q_closed (s_queue s') = q_closed (s_queue s)"
  using assms by (auto simp: session_start_dispatching_def result_simps dest: start_dispatching_closed split: if_splits)

context session_class begin

lemma on_messages_core: "session_core (fold on_message ms s) = session_core s"
  by (induction ms arbitrary: s) (simp_all add: on_message_core)

lemma on_messages_parts:
  "stage (fold on_message ms s) = stage s" "s_reader (fold on_message ms s) = s_reader s"
  "q_closed (s_queue (fold on_message ms s)) = q_closed (s_queue s)"
  using on_messages_core [of ms s] by (simp_all add: session_core_def)

lemma heartbeat_parts:
  "stage (send_heartbeat s) = stage s" "s_reader (send_heartbeat s) = s_reader s"
  "q_closed (s_queue (send_heartbeat s)) = q_closed (s_queue s)"
  using send_heartbeat_core [of s] by (simp_all add: session_core_def)

abbreviation sstep where "sstep \<equiv> session_step deserialize on_message send_heartbeat"

lemma step_begins_close:
  assumes "e \<noteq> CloseStep"
  shows "begins_close s (sstep e s)"
proof (cases e)
  case ConnectionMade
  have "stage s' = stage s" if "connection_made s = Inr s'" for s'
    using that session_start_keeps(1) [of "s\<lparr>s_transport := True, s_reader := Some new_reader\<rparr>" s']
    by (auto simp: connection_made_def Let_def split: if_splits)
  with ConnectionMade show ?thesis by (auto simp: or_same_def split: sum.split)
next
  case (DataReceived bs)
  then show ?thesis
    by (auto simp: or_same_def data_received_def Let_def split: option.split)
next
  case ConnectionLost
  then show ?thesis by (auto simp: connection_lost_def initiate_close_def)
next
  case ReaderTurn
  show ?thesis
  proof (cases "s_reader s")
    case None
    with ReaderTurn show ?thesis by (simp add: reader_turn_def begins_close_refl)
  next
    case (Some r)
    let ?s = "fold on_message (drop (length (delivered r)) (delivered (process_tick deserialize (\<lambda>_. True) r)))
      (s\<lparr>s_reader := Some (process_tick deserialize (\<lambda>_. True) r)\<rparr>)"
    have "stage ?s = stage s" unfolding on_messages_parts by simp
    with ReaderTurn Some begins_close_enter [of ?s s False] show ?thesis
      by (auto simp: reader_turn_def Let_def)
  qed
next
  case (QueueEvent e)
  then show ?thesis by auto
next
  case LocalInterval
  then show ?thesis
    by (auto simp: local_interval_def Let_def heartbeat_parts split: option.split)
next
  case RemoteInterval
  then show ?thesis
    by (auto simp: remote_interval_def Let_def split: option.split intro!: begins_close_enter)
next
  case (InitiateClose drain)
  then show ?thesis by (auto simp: initiate_close_def)
next
  case (Close drain)
  then show ?thesis by (simp add: begins_close_enter)
next
  case ClosingTask
  then show ?thesis by (simp add: task_begins)
next
  case (SetHandlers m c)
  then show ?thesis by (auto simp: set_handlers_def Let_def)
next
  case StartDispatchingS
  with session_start_keeps(1) [of s] show ?thesis by (auto simp: or_same_def split: sum.split)
next
  case (StartHeartbeats l r)
  then show ?thesis
    by (auto simp: or_same_def start_heartbeats_def result_simps split: sum.split)
qed (use assms in simp)

definition reader_effect :: "'m sevent \<Rightarrow> 'm reader \<Rightarrow> 'm reader" where
  "reader_effect e =
     (case e of DataReceived bs \<Rightarrow> on_data bs
      | ReaderTurn \<Rightarrow> process_tick deserialize (\<lambda>_. True) | _ \<Rightarrow> id)"

lemma step_reader:
  assumes "e \<noteq> ConnectionMade" "e \<noteq> CloseStep"
  shows "s_reader (sstep e s) = map_option (reader_effect e) (s_reader s)"
proof (cases e)
  case ReaderTurn
  then show ?thesis
    by (auto simp: reader_turn_def reader_effect_def Let_def on_messages_parts split: option.split)
next
  case LocalInterval
  then show ?thesis
    by (auto simp: local_interval_def reader_effect_def Let_def heartbeat_parts option.map_id0
        split: option.split)
next
  case StartDispatchingS
  with session_start_keeps(2) [of s] show ?thesis
    by (auto simp: or_same_def reader_effect_def option.map_id0 split: sum.split)
qed (use assms in \<open>auto simp: or_same_def data_received_def connection_lost_def initiate_close_def
    remote_interval_def closing_task_begins_def set_handlers_def start_heartbeats_def
    result_simps reader_effect_def option.map_id0 Let_def split: option.splits sum.split\<close>)

lemma close_step_queue: "q_closed (s_queue s) \<Longrightarrow> q_closed (s_queue (close_step s))"
  by (auto simp: close_step_def stop_def buffer_enter_def buffer_exit_def Let_def
      split: phase.split option.split sum.split)

lemma step_queue:
  assumes "q_closed (s_queue s)"
  shows "q_closed (s_queue (sstep e s))"
proof (cases e)
  case ConnectionMade
  with assms session_start_keeps(3) [of "s\<lparr>s_transport := True, s_reader := Some new_reader\<rparr>"]
  show ?thesis
    by (auto simp: or_same_def connection_made_def Let_def split: sum.split if_splits)
next
  case ReaderTurn
  with assms show ?thesis
    by (auto simp: reader_turn_def Let_def on_messages_parts split: option.split)
next
  case LocalInterval
  with assms show ?thesis
    by (auto simp: local_interval_def Let_def heartbeat_parts split: option.split)
next
  case StartDispatchingS
  with assms session_start_keeps(3) [of s] show ?thesis
    by (auto simp: or_same_def split: sum.split)
qed (use assms in \<open>auto simp: or_same_def data_received_def connection_lost_def initiate_close_def
    remote_interval_def closing_task_begins_def set_handlers_def start_heartbeats_def
    result_simps q_closed_step close_step_queue Let_def split: option.splits sum.split\<close>)

end

lemma stopped_step: "stopped r \<Longrightarrow> stopped (process_tick d ok r)"
  by (auto simp: process_tick_def)

definition closed_once :: "('m, 'x) session_scheme \<Rightarrow> bool" where
  "closed_once s \<longleftrightarrow> (s_closed s \<longleftrightarrow> s_phase s \<noteq> NotClosing) \<and> closes s \<le> 1 \<and>
     (closes s = 0 \<or> s_phase s = CloseDone)"

definition released :: "('m, 'x) session_scheme \<Rightarrow> bool" where
  "released s \<longleftrightarrow>
     (s_phase s \<in> {StopReader, CallOnClose, CloseDone} \<longrightarrow> q_closed (s_queue s)) \<and>
     (s_phase s \<in> {CallOnClose, CloseDone} \<longrightarrow> (\<forall>r. s_reader s = Some r \<longrightarrow> stopped r))"

fun rank :: "phase \<Rightarrow> nat option" where
  "rank (StopMonitors drain) = (if drain then None else Some 4)"
| "rank StopQueue = Some 3"
| "rank StopReader = Some 2"
| "rank CallOnClose = Some 1"
| "rank CloseDone = Some 0"
| "rank _ = None"

definition stuck :: "('m, 'x) session_scheme \<Rightarrow> bool" where
  "stuck s \<longleftrightarrow> s_closed s \<and> s_phase s = ReaderDrain \<and>
     (\<exists>r. s_reader s = Some r \<and> rtask r \<noteq> Running \<and> drain_mode r \<noteq> Some True)"

lemma close_step_once: "closed_once s \<Longrightarrow> closed_once (close_step s)"
  by (cases "s_phase s")
    (auto simp: close_step_def closed_once_def closes_def Let_def split: option.split sum.split)

lemma close_step_released: "released s \<Longrightarrow> released (close_step s)"
  by (cases "s_phase s")
    (auto simp: close_step_def released_def Let_def stop_def split: option.split sum.split)

lemma close_step_rank: "rank (s_phase s) = Some n \<Longrightarrow> rank (s_phase (close_step s)) = Some (n - 1)"
  by (cases "s_phase s") (auto simp: close_step_def Let_def split: if_splits)

lemma close_step_stuck: "stuck s \<Longrightarrow> close_step s = s"
  by (auto simp: stuck_def close_step_def)

lemma begins_close_once: "closed_once s \<Longrightarrow> begins_close s s' \<Longrightarrow> closed_once s'"
  by (auto simp: closed_once_def begins_close_def stage_def)

lemma begins_close_phase: "begins_close s s' \<Longrightarrow> s_closed s \<Longrightarrow> stage s' = stage s"
  by (auto simp: begins_close_def)

context session_class begin

lemma step_once: "closed_once s \<Longrightarrow> closed_once (sstep e s)"
  using step_begins_close [of e s] begins_close_once [of s] close_step_once [of s]
  by (cases "e = CloseStep") auto

lemma step_released:
  assumes "released s" "e \<noteq> ConnectionMade"
  shows "released (sstep e s)"
proof (cases "e = CloseStep")
  case False
  from step_begins_close [OF False, of s]
  have ph: "s_phase (sstep e s) = s_phase s \<or> (\<exists>d. s_phase (sstep e s) = StopMonitors d)"
    by (auto simp: begins_close_def stage_def)
  have "stopped r \<Longrightarrow> stopped (reader_effect e r)" for r
    by (cases e) (auto simp: reader_effect_def on_data_def stopped_step split: option.split)
  then have r: "\<forall>r. s_reader (sstep e s) = Some r \<longrightarrow> (\<forall>r. s_reader s = Some r \<longrightarrow> stopped r) \<longrightarrow> stopped r"
    unfolding step_reader [OF assms(2) False, of s] by auto
  from ph r step_queue [of s e] assms(1) show ?thesis
    unfolding released_def by (elim disjE exE) simp_all
qed (use assms close_step_released in simp)

lemma step_rank:
  assumes "closed_once s" "rank (s_phase s) = Some n"
  shows "rank (s_phase (sstep e s)) = Some (if e = CloseStep then n - 1 else n)"
proof (cases "e = CloseStep")
  case False
  from assms have "s_closed s" by (auto simp: closed_once_def)
  with begins_close_phase [OF step_begins_close [OF False]] assms(2) False show ?thesis
    by (simp add: stage_def)
qed (use assms close_step_rank in simp)

lemma step_stuck:
  assumes "stuck s" "e \<noteq> ConnectionMade"
  shows "stuck (sstep e s) \<and> closes (sstep e s) = closes s"
proof (cases "e = CloseStep")
  case False
  from assms have "s_closed s" by (simp add: stuck_def)
  with begins_close_phase [OF step_begins_close [OF False]]
  have st: "stage (sstep e s) = stage s" by blast
  have "rtask r \<noteq> Running \<Longrightarrow> rtask (reader_effect e r) \<noteq> Running \<and> drain_mode (reader_effect e r) = drain_mode r" for r
    by (cases e) (auto simp: reader_effect_def on_data_def process_tick_def split: option.split)
  with st step_reader [OF assms(2) False, of s] assms(1) show ?thesis
    by (auto simp: stuck_def stage_def)
qed (use assms close_step_stuck [OF assms(1)] in simp)

lemma run_once: "closed_once s \<Longrightarrow> closed_once (fold sstep es s)"
  by (induction es arbitrary: s) (simp_all add: step_once)

lemma run_stuck:
  "stuck s \<Longrightarrow> ConnectionMade \<notin> set es \<Longrightarrow> stuck (fold sstep es s) \<and> closes (fold sstep es s) = closes s"
proof (induction es arbitrary: s)
  case (Cons e es)
  then have e: "e \<noteq> ConnectionMade" "ConnectionMade \<notin> set es" by auto
  from step_stuck [OF Cons.prems(1) e(1)] Cons.IH [OF _ e(2), of "sstep e s"] show ?case
    by (simp only: fold_simps)
qed simp

lemma run_released: "released s \<Longrightarrow> ConnectionMade \<notin> set es \<Longrightarrow> released (fold sstep es s)"
  by (induction es arbitrary: s) (auto simp: step_released)

lemma run_rank:
  "closed_once s \<Longrightarrow> rank (s_phase s) = Some n \<Longrightarrow>
   rank (s_phase (fold sstep es s)) = Some (n - count_list es CloseStep)"
proof (induction es arbitrary: s n)
  case (Cons e es)
  from step_rank [OF Cons.prems, of e] Cons.IH [OF step_once [OF Cons.prems(1), of e]] show ?case
    by (auto simp: diff_diff_add)
qed simp

lemma rank_0: "rank p = Some 0 \<longleftrightarrow> p = CloseDone"
  by (cases p) auto

lemma prompt_close:
  assumes "closed_once s" "released s" "rank (s_phase s) = Some n" "n \<le> count_list es CloseStep"
    and "ConnectionMade \<notin> set es"
  shows "s_phase (fold sstep es s) = CloseDone \<and> q_closed (s_queue (fold sstep es s)) \<and>
    (\<forall>r. s_reader (fold sstep es s) = Some r \<longrightarrow> stopped r)"
proof -
  have "rank (s_phase (fold sstep es s)) = Some 0"
    using run_rank [OF assms(1,3), of es] assms(4) by simp
  then have "s_phase (fold sstep es s) = CloseDone" by (simp add: rank_0)
  with run_released [OF assms(2,5)] show ?thesis by (simp add: released_def)
qed

end

text \<open>A step of the subclass's own that may begin to close, but touches nothing else.\<close>

definition quiet :: "('m, 'x) session_scheme \<Rightarrow> ('m, 'x) session_scheme \<Rightarrow> bool" where
  "quiet s s' \<longleftrightarrow> begins_close s s' \<and> s_reader s' = s_reader s \<and>
     (q_closed (s_queue s) \<longrightarrow> q_closed (s_queue s'))"

lemma quiet_core: "session_core s' = session_core s \<Longrightarrow> quiet s s'"
  by (auto simp: quiet_def session_core_def)

lemma quiet_close_enter: "session_core s' = session_core s \<Longrightarrow> quiet s (close_enter drain s')"
  by (auto simp: quiet_def session_core_def begins_close_enter)

lemma quiet_once: "quiet s s' \<Longrightarrow> closed_once s \<Longrightarrow> closed_once s'"
  by (auto simp: quiet_def intro: begins_close_once)

lemma quiet_released: "quiet s s' \<Longrightarrow> released s \<Longrightarrow> released s'"
  by (auto simp: quiet_def begins_close_def stage_def released_def)

lemma quiet_rank: "quiet s s' \<Longrightarrow> closed_once s \<Longrightarrow> rank (s_phase s) = Some n \<Longrightarrow> rank (s_phase s') = Some n"
  by (auto simp: quiet_def begins_close_def stage_def closed_once_def)

lemma quiet_stuck: "quiet s s' \<Longrightarrow> stuck s \<Longrightarrow> stuck s' \<and> closes s' = closes s"
  by (auto simp: quiet_def begins_close_def stage_def stuck_def)

lemma start_heartbeats_core: "start_heartbeats l r s = Inr s' \<Longrightarrow> session_core s' = session_core s"
  by (auto simp: start_heartbeats_def result_simps session_core_def)

lemma session_start_core: "session_start_dispatching s = Inr s' \<Longrightarrow> session_core s' = session_core s"
  using session_start_keeps [of s s'] by (simp add: session_core_def)

lemma session_new_closed_once: "closed_once (session_new m c d g)"
  by (simp add: closed_once_def session_new_def closes_def)

lemma session_new_released: "released (session_new m c d g)"
  by (simp add: released_def session_new_def)

end
