(* ===== verification/SoupSession.thy ===== *)
theory SoupSession
  imports SoupReader Session
begin

text \<open>
  The SoupBinTCP sessions of \<open>soup/session.py\<close>: \<open>SoupSession\<close> (sending, logging out), the client
  (login, sequence numbers) and the server (dispatch of requests, login), and \<open>connect_async\<close> of
  \<open>soup/__init__.py\<close>. The client and the server interpret \<open>session_class\<close>. The application's
  \<open>on_login\<close> is a parameter, its \<open>on_unsequenced\<close> a log.
\<close>

section \<open>Sessions\<close>

record soup_session = "SoupMessage session" +
  sequence :: int
  sid_user :: pystr
  sid_session :: pystr
  client_heartbeat_interval :: nat
  server_heartbeat_interval :: nat
  logged_in :: bool
  unsequenced :: "bytes list"

definition extend_soup :: "SoupMessage session \<Rightarrow> nat \<Rightarrow> nat \<Rightarrow> soup_session" where
  "extend_soup s client_hb server_hb =
     session.extend s (soup_session.fields 1 (lit ''nouser'') (lit ''nosession'') client_hb server_hb False [])"

definition client_new :: "nat option \<Rightarrow> nat option \<Rightarrow> nat \<Rightarrow> nat \<Rightarrow> soup_session" where
  "client_new on_msg on_close = extend_soup (session_new on_msg on_close False True)"

text \<open>The server sets its own handlers: \<open>_on_msg\<close> and, for the end, \<open>close\<close> itself.\<close>

definition server_new :: "nat \<Rightarrow> nat \<Rightarrow> soup_session" where
  "server_new = extend_soup (session_new (Some 0) (Some 1) True True)"

text \<open>\<open>SoupSessionId.update\<close>, without a transport.\<close>

fun sid_update :: "SoupMessage \<Rightarrow> soup_session \<Rightarrow> soup_session" where
  "sid_update (LoginRequest u _ _ _) s = s\<lparr>sid_user := u\<rparr>"
| "sid_update (LoginAccepted i _) s = s\<lparr>sid_session := i\<rparr>"
| "sid_update _ s = s"

fun is_sequenced :: "SoupMessage \<Rightarrow> bool" where
  "is_sequenced (SequencedData _) = True"
| "is_sequenced _ = False"

definition send_msg :: "SoupMessage \<Rightarrow> soup_session \<Rightarrow> soup_session result" where
  "send_msg m s =
     rbind (soup_to_bytes m) (\<lambda>(_, bs).
       if \<not> s_transport s then Inl AttributeError
       else let s1 = s\<lparr>s_sent := s_sent s @ [Wrote bs]\<rparr>;
                s2 = (if is_heartbeat m then s1 else s1\<lparr>s_local_hb := map_option ping (s_local_hb s1)\<rparr>)
            in Inr (if is_sequenced m then s2\<lparr>sequence := sequence s2 + 1\<rparr> else s2))"

definition send_debug :: "pystr \<Rightarrow> soup_session \<Rightarrow> soup_session result" where
  "send_debug text s = send_msg (Debug text) s"

definition logout :: "soup_session \<Rightarrow> soup_session result" where
  "logout s = rbind (send_msg LogoutRequest s) (\<lambda>s1. Inr (initiate_close False s1))"

section \<open>The client\<close>

definition client_send_heartbeat :: "soup_session \<Rightarrow> soup_session" where
  "client_send_heartbeat s = or_same s (send_msg ClientHeartbeat s)"

definition send_unseq_data :: "bytes \<Rightarrow> soup_session \<Rightarrow> soup_session result" where
  "send_unseq_data data s = send_msg (UnSequencedData data) s"

definition client_on_message :: "SoupMessage \<Rightarrow> soup_session \<Rightarrow> soup_session" where
  "client_on_message m s =
     async_on_message m (if is_sequenced m then s\<lparr>sequence := sequence s + 1\<rparr> else s)"

text \<open>\<open>login\<close> up to its await, and from there on with the reply, or the exception, of
  \<open>receive_msg\<close>. The second component is the exception \<open>login\<close> raises.\<close>

definition login_begin :: "SoupMessage \<Rightarrow> soup_session \<Rightarrow> soup_session result" where
  "login_begin m s = send_msg m (sid_update m s)"

definition login_resume :: "SoupMessage result \<Rightarrow> soup_session \<Rightarrow> soup_session \<times> exn option" where
  "login_resume reply s =
     (case reply of
        Inl e \<Rightarrow> (s, Some e)
      | Inr (LoginAccepted session_id sq) \<Rightarrow>
          let s1 = (sid_update (LoginAccepted session_id sq) s)\<lparr>sequence := sq - 1\<rparr>
          in (case rbind (start_heartbeats (Some (client_heartbeat_interval s1))
                           (Some (server_heartbeat_interval s1)) s1) session_start_dispatching of
                Inl e \<Rightarrow> (s1, Some e)
              | Inr s2 \<Rightarrow> (s2, None))
      | Inr _ \<Rightarrow> (close_enter False s, Some ConnectionRefusedError))"

section \<open>The server\<close>

definition server_send_heartbeat :: "soup_session \<Rightarrow> soup_session" where
  "server_send_heartbeat s = or_same s (send_msg ServerHeartbeat s)"

definition send_seq_msg :: "bytes \<Rightarrow> soup_session \<Rightarrow> soup_session result" where
  "send_seq_msg data s = send_msg (SequencedData data) s"

definition end_session :: "soup_session \<Rightarrow> soup_session result" where
  "end_session s = rbind (send_msg EndOfSession s) (\<lambda>s1. Inr (initiate_close False s1))"

definition handle_login ::
  "(SoupMessage \<Rightarrow> SoupMessage) \<Rightarrow> SoupMessage \<Rightarrow> soup_session \<Rightarrow> soup_session \<times> exn option" where
  "handle_login on_login m s =
     (if logged_in s then (s, Some StateError)
      else let reply = on_login m
           in case send_msg reply s of
                Inl e \<Rightarrow> (s, Some e)
              | Inr s1 \<Rightarrow>
                  (case reply of
                     LoginAccepted session_id sq \<Rightarrow>
                       let s2 = (sid_update reply s1)\<lparr>logged_in := True\<rparr>
                       in (case start_heartbeats (Some (client_heartbeat_interval s2))
                                  (Some (server_heartbeat_interval s2)) s2 of
                             Inl e \<Rightarrow> (s2, Some e)
                           | Inr s3 \<Rightarrow> (s3, None))
                   | _ \<Rightarrow> (close_enter False s1, None)))"

fun server_on_msg ::
  "(SoupMessage \<Rightarrow> SoupMessage) \<Rightarrow> SoupMessage \<Rightarrow> soup_session \<Rightarrow> soup_session \<times> exn option" where
  "server_on_msg on_login (LoginRequest u p i q) s =
     handle_login on_login (LoginRequest u p i q) (sid_update (LoginRequest u p i q) s)"
| "server_on_msg on_login (UnSequencedData d) s = (s\<lparr>unsequenced := unsequenced s @ [d]\<rparr>, None)"
| "server_on_msg on_login LogoutRequest s = (close_enter False s, None)"
| "server_on_msg on_login _ s = (s, None)"

section \<open>Connecting\<close>

text \<open>\<open>connect_async\<close>: the outcome of \<open>create_connection\<close> (\<open>None\<close> when it timed out) and that of
  \<open>login\<close> give the exception raised.\<close>

definition login_request :: "pystr \<Rightarrow> pystr \<Rightarrow> pystr \<Rightarrow> int \<Rightarrow> SoupMessage" where
  "login_request user passwd session_id sq = LoginRequest user passwd session_id (show_int sq)"

definition connect_exn :: "exn option \<Rightarrow> exn option" where
  "connect_exn e = (if e = Some EndOfQueue then Some ConnectionRefusedError else e)"

section \<open>Both are sessions\<close>

lemma send_msg_core:
  assumes "send_msg m s = Inr s'"
  shows "session_core s' = session_core s" "s_queue s' = s_queue s"
  using assms by (auto simp: send_msg_def session_core_def stage_def closes_def Let_def result_simps
      split: if_splits)

lemma closes_soup [simp]:
  "closes (s\<lparr>sequence := a\<rparr>) = closes s" "closes (s\<lparr>sid_user := b\<rparr>) = closes s"
  "closes (s\<lparr>sid_session := b\<rparr>) = closes s" "closes (s\<lparr>logged_in := c\<rparr>) = closes s"
  "closes (s\<lparr>unsequenced := d\<rparr>) = closes s"
  by (simp_all add: closes_def)

lemma core_soup [simp]:
  "session_core (s\<lparr>sequence := a\<rparr>) = session_core s" "session_core (s\<lparr>sid_user := b\<rparr>) = session_core s"
  "session_core (s\<lparr>sid_session := b\<rparr>) = session_core s" "session_core (s\<lparr>logged_in := c\<rparr>) = session_core s"
  "session_core (s\<lparr>unsequenced := d\<rparr>) = session_core s"
  "session_core (s\<lparr>s_queue := put m (s_queue s)\<rparr>) = session_core s"
  by (simp_all add: session_core_def stage_def put_def split: option.split)

lemma sid_update_core [simp]: "session_core (sid_update m s) = session_core s"
  by (cases m) simp_all

lemma or_same_send: "session_core (or_same s (send_msg m s)) = session_core s"
  by (cases "send_msg m s") (simp_all add: or_same_def send_msg_core)

lemma client_on_message_core: "session_core (client_on_message m s) = session_core s"
  using core_soup(6) [where s = "s\<lparr>sequence := sequence s + 1\<rparr>"]
  by (simp add: client_on_message_def async_on_message_def)

interpretation client: session_class soup_deserialize client_on_message client_send_heartbeat
  by unfold_locales (simp_all add: client_on_message_core client_send_heartbeat_def or_same_send)

interpretation server: session_class soup_deserialize async_on_message server_send_heartbeat
  by unfold_locales (simp_all add: async_on_message_def server_send_heartbeat_def or_same_send)

section \<open>Runs of a client and of a server\<close>

datatype client_event =
    ClientSession "SoupMessage sevent" | SendMsg SoupMessage | LoginBegin SoupMessage
  | LoginResume "SoupMessage result" | Logout

fun client_step :: "client_event \<Rightarrow> soup_session \<Rightarrow> soup_session" where
  "client_step (ClientSession e) s = session_step soup_deserialize client_on_message client_send_heartbeat e s"
| "client_step (SendMsg m) s = or_same s (send_msg m s)"
| "client_step (LoginBegin m) s = or_same s (login_begin m s)"
| "client_step (LoginResume r) s = fst (login_resume r s)"
| "client_step Logout s = or_same s (logout s)"

text \<open>The dispatcher of a server takes a message and \<open>_on_msg\<close> handles it.\<close>

definition server_dispatch :: "(SoupMessage \<Rightarrow> SoupMessage) \<Rightarrow> nat \<Rightarrow> soup_session \<Rightarrow> soup_session" where
  "server_dispatch on_login d s =
     (case (map_of (q_dispatchers (s_queue s)) d, q_msg_queue (s_queue s)) of
        (Some Idle, m # ms) \<Rightarrow>
          (case server_on_msg on_login m (s\<lparr>s_queue := dispatcher_takes d (s_queue s)\<rparr>) of
             (s', e) \<Rightarrow> s'\<lparr>s_queue := handler_ends d (if e = None then Returns else Raises) (s_queue s')\<rparr>)
      | _ \<Rightarrow> s)"

datatype server_event =
    ServerSession "SoupMessage sevent" | SendSeq bytes | EndSession | Dispatch nat

fun server_step :: "(SoupMessage \<Rightarrow> SoupMessage) \<Rightarrow> server_event \<Rightarrow> soup_session \<Rightarrow> soup_session" where
  "server_step on_login (ServerSession e) s =
     session_step soup_deserialize async_on_message server_send_heartbeat e s"
| "server_step on_login (SendSeq d) s = or_same s (send_seq_msg d s)"
| "server_step on_login EndSession s = or_same s (end_session s)"
| "server_step on_login (Dispatch d) s = server_dispatch on_login d s"

lemma initiate_close_core [simp]: "session_core (initiate_close d s) = session_core s"
  by (simp add: initiate_close_def session_core_def)

lemma or_same_send_close:
  "session_core (or_same s (rbind (send_msg m s) (\<lambda>s1. Inr (initiate_close d s1)))) = session_core s"
  by (cases "send_msg m s") (simp_all add: or_same_def send_msg_core)

lemma login_resume_quiet: "quiet s (fst (login_resume r s))"
proof (cases r)
  case (Inl e)
  then show ?thesis by (simp add: login_resume_def quiet_core)
next
  case (Inr m)
  show ?thesis
  proof (cases m)
    case (LoginAccepted i q)
    let ?s = "(sid_update (LoginAccepted i q) s)\<lparr>sequence := q - 1\<rparr>"
    have "session_core (fst (login_resume r s)) = session_core s"
      using Inr LoginAccepted
      by (auto simp: login_resume_def Let_def result_simps split: sum.split
          dest!: start_heartbeats_core session_start_core)
    then show ?thesis by (rule quiet_core)
  qed (use Inr in \<open>simp_all add: login_resume_def quiet_close_enter\<close>)
qed

lemma client_own_quiet:
  assumes "\<nexists>x. e = ClientSession x"
  shows "quiet s (client_step e s)"
proof (cases e)
  case (LoginBegin m)
  have "session_core (or_same s (login_begin m s)) = session_core s"
    by (cases "login_begin m s")
      (simp_all add: or_same_def login_begin_def send_msg_core(1) [where s = "sid_update m s"])
  with LoginBegin show ?thesis by (simp add: quiet_core)
qed (use assms in \<open>simp_all add: quiet_core or_same_send logout_def or_same_send_close login_resume_quiet\<close>)

lemma handle_login_quiet: "quiet s (fst (handle_login on_login m s))"
proof (cases "logged_in s")
  case False
  show ?thesis
  proof (cases "send_msg (on_login m) s")
    case (Inr s1)
    note core = send_msg_core(1) [OF Inr]
    show ?thesis
    proof (cases "on_login m")
      case (LoginAccepted i q)
      with False Inr core have "session_core (fst (handle_login on_login m s)) = session_core s"
        by (auto simp: handle_login_def Let_def split: sum.split dest!: start_heartbeats_core)
      then show ?thesis by (rule quiet_core)
    qed (use False Inr core in \<open>simp_all add: handle_login_def Let_def quiet_close_enter\<close>)
  qed (use False in \<open>simp add: handle_login_def Let_def quiet_core\<close>)
qed (simp add: handle_login_def quiet_core)

lemma quiet_shift: "session_core s = session_core s' \<Longrightarrow> quiet s t \<Longrightarrow> quiet s' t"
  by (auto simp: quiet_def session_core_def begins_close_def stage_def)

lemma server_on_msg_quiet: "quiet s (fst (server_on_msg on_login m s))"
proof (cases m)
  case (LoginRequest u p i q)
  have "quiet s (fst (handle_login on_login m (sid_update m s)))"
    by (rule quiet_shift [OF sid_update_core handle_login_quiet])
  with LoginRequest show ?thesis by simp
qed (simp_all add: quiet_core quiet_close_enter)

lemma quiet_queue:
  "quiet s s' \<Longrightarrow> q_closed q = q_closed (s_queue s') \<Longrightarrow> quiet s (s'\<lparr>s_queue := q\<rparr>)"
  by (simp add: quiet_def begins_close_def)

lemma dispatcher_closed [simp]:
  "q_closed (dispatcher_takes d q) = q_closed q" "q_closed (handler_ends d oc q) = q_closed q"
  using q_closed_step [of "\<lambda>_. True" "Takes d" q] q_closed_step [of "\<lambda>_. True" "HandlerEnds d oc" q]
  by simp_all

lemma server_dispatch_quiet: "quiet s (server_dispatch on_login d s)"
proof -
  have "quiet s (s'\<lparr>s_queue := handler_ends d oc (s_queue s')\<rparr>)"
    if "server_on_msg on_login m (s\<lparr>s_queue := dispatcher_takes d (s_queue s)\<rparr>) = (s', e)" for m s' e oc
  proof (rule quiet_queue)
    have "session_core (s\<lparr>s_queue := dispatcher_takes d (s_queue s)\<rparr>) = session_core s"
      by (simp add: session_core_def)
    from quiet_shift [OF this server_on_msg_quiet [of _ on_login m]] that show "quiet s s'" by simp
  qed simp
  then show ?thesis
    by (auto simp: server_dispatch_def quiet_core split: option.split dispatcher.split list.split prod.split)
qed

lemma server_own_quiet:
  assumes "\<nexists>x. e = ServerSession x"
  shows "quiet s (server_step on_login e s)"
  using assms
  by (cases e) (simp_all add: quiet_core or_same_send send_seq_msg_def end_session_def
      or_same_send_close server_dispatch_quiet)

lemma client_step_once: "closed_once s \<Longrightarrow> closed_once (client_step e s)"
  by (cases "\<exists>x. e = ClientSession x")
    (auto simp: client.step_once intro: quiet_once [OF client_own_quiet])

lemma client_run_once: "closed_once s \<Longrightarrow> closed_once (fold client_step es s)"
  by (induction es arbitrary: s) (simp_all add: client_step_once)

lemma server_step_once: "closed_once s \<Longrightarrow> closed_once (server_step l e s)"
  by (cases "\<exists>x. e = ServerSession x")
    (auto simp: server.step_once intro: quiet_once [OF server_own_quiet])

lemma server_run_once: "closed_once s \<Longrightarrow> closed_once (fold (server_step l) es s)"
  by (induction es arbitrary: s) (simp_all add: server_step_once)

lemma extend_soup_stage: "stage (extend_soup s a b) = stage s"
  by (simp add: extend_soup_def session.defs soup_session.defs stage_def closes_def)

lemma new_once: "closed_once (client_new m c a b)" "closed_once (server_new a b)"
proof -
  have "closed_once s'" if "stage s' = stage s" "closed_once s" for s s' :: "('a, 'b) session_scheme"
    using that by (simp add: closed_once_def stage_def)
  moreover have "stage (session_new m' c' d g) = (False, NotClosing, 0)" for m' c' d g
    by (simp add: stage_def session_new_def closes_def)
  then have "stage (client_new m c a b) = (False, NotClosing, 0)" "stage (server_new a b) = (False, NotClosing, 0)"
    by (simp_all add: client_new_def server_new_def extend_soup_stage)
  then show "closed_once (client_new m c a b)" "closed_once (server_new a b)"
    by (simp_all add: stage_def closed_once_def)
qed





lemma client_run_stuck:
  assumes "stuck s" "ClientSession ConnectionMade \<notin> set es"
  shows "stuck (fold client_step es s) \<and> closes (fold client_step es s) = closes s"
  using assms
proof (induction es arbitrary: s)
  case (Cons e es)
  then have e: "e \<noteq> ClientSession ConnectionMade" "ClientSession ConnectionMade \<notin> set es" by auto
  have "stuck (client_step e s) \<and> closes (client_step e s) = closes s"
  proof (cases "\<exists>x. e = ClientSession x")
    case True
    then obtain x where "e = ClientSession x" ..
    with client.step_stuck [OF Cons.prems(1), of x] e(1) show ?thesis by simp
  next
    case False
    with quiet_stuck [OF client_own_quiet Cons.prems(1)] show ?thesis by blast
  qed
  with Cons.IH [OF _ e(2), of "client_step e s"] show ?case by simp
qed simp

section \<open>Properties\<close>

text \<open>
  C16: a session closes once. In every run of a client and of a server - whatever their peers,
  users, timers and handlers do, and in whatever order - \<open>on_close_coro\<close> is called at most once
  and only as the last thing, and a session counts as closed from the moment closing begins.
\<close>
theorem session_closes_once:
  "(let s = fold client_step es (client_new on_msg on_close client_hb server_hb)
    in closes s \<le> 1 \<and> (closes s = 1 \<longrightarrow> s_phase s = CloseDone) \<and>
       (is_closed s \<longleftrightarrow> s_phase s \<noteq> NotClosing)) \<and>
   (let s = fold (server_step on_login) evs (server_new client_hb server_hb)
    in closes s \<le> 1 \<and> (closes s = 1 \<longrightarrow> s_phase s = CloseDone) \<and>
       (is_closed s \<longleftrightarrow> s_phase s \<noteq> NotClosing))"
  using client_run_once [OF new_once(1) [of on_msg on_close client_hb server_hb], of es]
    server_run_once [OF new_once(2) [of client_hb server_hb], of on_login evs]
  unfolding Let_def closed_once_def is_closed_def by linarith

theorem session_closes_once_witness:
  "closes (fold client_step (map ClientSession [Close False, CloseStep, Close True, CloseStep, CloseStep, CloseStep, ConnectionLost])
     (client_new None (Some 7) 10 10)) \<le> 1"
  using session_closes_once [of "map ClientSession [Close False, CloseStep, Close True, CloseStep, CloseStep, CloseStep, ConnectionLost]"
      None "Some 7" 10 10]
  unfolding Let_def by blast



text \<open>
  C18: a graceful close hangs on a logout. When the connection of a client is lost while an end
  of session is still unread, the draining close waits for a reader that has stopped: whatever
  happens next, closing stays in that phase and \<open>on_close_coro\<close> is never called.
\<close>
theorem graceful_close_hangs:
  assumes "s_reader s = Some r" and "alive r" and "reader_wf r" and "drain_mode r = None"
    and "rview r = soup_bytes m @ w" and "valid_soup m" and "is_logout m"
    and "is_active s" and "\<not> s_closing_started s" and "s_graceful_shutdown s"
    and "ClientSession ConnectionMade \<notin> set es"
  shows "let s' = fold client_step (map ClientSession [ConnectionLost, ClosingTask, CloseStep, ReaderTurn] @ es) s
    in s_phase s' = ReaderDrain \<and> closes s' = closes s"
proof -
  let ?r = "r\<lparr>drain_mode := Some False, drain_buffer := Some []\<rparr>"
  let ?s3 = "fold client_step (map ClientSession [ConnectionLost, ClosingTask, CloseStep]) s"
  have act: "\<not> s_closed s" "s_closing_task s = None"
    using assms(8) by (simp_all add: is_active_def)
  have s3: "s_phase ?s3 = ReaderDrain" "s_reader ?s3 = Some ?r" "s_closed ?s3" "closes ?s3 = closes s"
    using act assms(1,4,9,10)
    by (simp_all add: connection_lost_def initiate_close_def closing_task_begins_def close_enter_def
        close_step_def drain_enter_def closes_def Let_def)
  have "soup_next (rview ?r) = Some (Msg m True (is_heartbeat m), length (soup_bytes m))"
    using assms(5-7) by (simp add: rview_def soup_next_encoded)
  from soup.stop_item_tick [OF _ _ this, of "\<lambda>_. True"] assms(2,3) obtain r1
    where t: "process_tick soup_deserialize (\<lambda>_. True) ?r = reader_stop r1"
      and r1: "drain_mode r1 = Some False" "rtask r1 = Running" "\<not> stopped r1" "delivered r1 = delivered ?r"
    by (auto simp: reader_wf_def alive_def)
  have "client_step (ClientSession ReaderTurn) ?s3 = ?s3\<lparr>s_reader := Some (reader_stop r1)\<rparr>"
    using s3(2,3) t r1(4) by (simp add: reader_turn_def Let_def close_enter_def)
  then have "stuck (client_step (ClientSession ReaderTurn) ?s3)"
    and c: "closes (client_step (ClientSession ReaderTurn) ?s3) = closes s"
    using s3 r1 by (simp_all add: stuck_def reader_stop_def)
  from client_run_stuck [OF this(1) assms(11)] c show ?thesis
    by (simp add: Let_def stuck_def del: client_step.simps)
qed

theorem graceful_close_hangs_witness:
  "closes (fold client_step (map ClientSession [ConnectionLost, ClosingTask, CloseStep, ReaderTurn] @
       replicate 9 (ClientSession CloseStep))
     ((client_new None (Some 7) 10 10)\<lparr>s_reader := Some (new_reader\<lparr>rbuffer := soup_bytes EndOfSession\<rparr>)\<rparr>)) = 0"
proof -
  let ?s = "(client_new None (Some 7) 10 10)\<lparr>s_reader := Some (new_reader\<lparr>rbuffer := soup_bytes EndOfSession\<rparr>)\<rparr>"
  have s: "is_active ?s" "\<not> s_closing_started ?s" "s_graceful_shutdown ?s" "closes ?s = 0"
    by (simp_all add: is_active_def client_new_def extend_soup_def session.defs soup_session.defs
        session_new_def closes_def)
  have r: "alive (new_reader\<lparr>rbuffer := soup_bytes EndOfSession\<rparr>)"
    "reader_wf (new_reader\<lparr>rbuffer := soup_bytes EndOfSession\<rparr>)"
    "drain_mode (new_reader\<lparr>rbuffer := soup_bytes EndOfSession\<rparr>) = None"
    "rview (new_reader\<lparr>rbuffer := soup_bytes EndOfSession\<rparr>) = soup_bytes EndOfSession @ []"
    by (simp_all add: new_reader_def alive_def reader_wf_def rview_def)
  from graceful_close_hangs [OF _ r(1-4) _ _ s(1-3), of "replicate 9 (ClientSession CloseStep)"] s(4)
  show ?thesis by (simp add: Let_def is_logout_def del: client_step.simps fold_simps)
qed

lemma client_on_message_fields:
  "sequence (client_on_message m s) = sequence s + of_bool (is_sequenced m)"
  "q_accepted (s_queue (client_on_message m s)) = q_accepted (s_queue s) @ [m]"
  by (auto simp: client_on_message_def async_on_message_def put_def split: option.split)

lemma client_on_messages:
  "sequence (fold client_on_message ms s) = sequence s + int (length (filter is_sequenced ms)) \<and>
   q_accepted (s_queue (fold client_on_message ms s)) = q_accepted (s_queue s) @ ms"
  by (induction ms arbitrary: s) (simp_all add: client_on_message_fields)

lemma login_accepted:
  "sequence (fst (login_resume (Inr (LoginAccepted i n)) s)) = n - 1 \<and>
   q_accepted (s_queue (fst (login_resume (Inr (LoginAccepted i n)) s))) = q_accepted (s_queue s)"
  by (cases "s_on_msg_coro s"; cases "q_dispatcher_task (s_queue s)";
      simp add: login_resume_def start_heartbeats_def session_start_dispatching_def
        start_dispatching_def create_dispatcher_def new_monitor_def not_none_def Let_def)

text \<open>
  the client's sequence number. After a login accepted with next number \<open>n\<close>, it is \<open>n - 1\<close>
  plus the number of sequenced messages that reach the client after \<open>login\<close> goes on. Those that
  reach it between the acceptance and that moment are queued like any other, but not counted.
\<close>
theorem client_sequence:
  "let s1 = fold client_on_message before_login s;
       s2 = fst (login_resume (Inr (LoginAccepted i n)) s1);
       s3 = fold client_on_message after_login s2
   in sequence s3 = n - 1 + int (length (filter is_sequenced after_login)) \<and>
      q_accepted (s_queue s3) = q_accepted (s_queue s) @ before_login @ after_login"
  using client_on_messages [of before_login s] login_accepted [of i n "fold client_on_message before_login s"]
    client_on_messages [of after_login "fst (login_resume (Inr (LoginAccepted i n)) (fold client_on_message before_login s))"]
  by (simp add: Let_def)

text \<open>
  the outcome of a login. Only an accepted login succeeds: then the session carries the name
  the server gave, both monitors run, and dispatching has begun if there is a handler. Any other
  reply begins to close the session and ends in \<open>ConnectionRefusedError\<close>, which is also what
  \<open>connect_async\<close> makes of a queue that ended.
\<close>
theorem login_outcome:
  assumes "q_dispatcher_task (s_queue s) = None"
  shows "case login_resume r s of (s', e) \<Rightarrow>
    (case r of
       Inr (LoginAccepted i n) \<Rightarrow>
         e = None \<and> sid_session s' = i \<and> is_closed s' = is_closed s \<and>
         (\<exists>l m. s_local_hb s' = Some l \<and> is_running l \<and> \<not> hb_stop_when_no_activity l \<and>
                s_remote_hb s' = Some m \<and> is_running m \<and> hb_stop_when_no_activity m) \<and>
         is_dispatching (s_queue s') = (s_on_msg_coro s \<noteq> None)
     | Inr _ \<Rightarrow> connect_exn e = Some ConnectionRefusedError \<and> is_closed s'
     | Inl x \<Rightarrow> s' = s \<and> (x = EndOfQueue \<longrightarrow> connect_exn e = Some ConnectionRefusedError))"
proof (cases r)
  case (Inl x)
  then show ?thesis by (simp add: login_resume_def connect_exn_def)
next
  case (Inr m)
  show ?thesis
  proof (cases m)
    case (LoginAccepted i n)
    with Inr assms show ?thesis
      by (auto simp: login_resume_def start_heartbeats_def session_start_dispatching_def
          start_dispatching_def create_dispatcher_def new_monitor_def not_none_def is_closed_def
          is_running_def is_dispatching_def Let_def)
  qed (use Inr in \<open>simp_all add: login_resume_def connect_exn_def is_closed_def close_enter_def\<close>)
qed

theorem login_outcome_witness:
  "is_closed (fst (login_resume (Inr (LoginRejected NOT_AUTHORIZED)) (client_new (Some 1) None 10 10)))"
proof -
  have "q_dispatcher_task (s_queue (client_new (Some 1) None 10 10)) = None"
    by (simp add: client_new_def extend_soup_def session.defs soup_session.defs session_new_def
        mq_new_def mq_empty_def start_dispatching_def)
  from login_outcome [OF this, of "Inr (LoginRejected NOT_AUTHORIZED)"] show ?thesis
    by (simp add: case_prod_beta)
qed

text \<open>
  what a server checks. Unsequenced data is handed to the application whether or not the
  client has logged in. A second login raises \<open>StateError\<close> and changes nothing but the user name
  of the session, which is replaced by the one in the refused request.
\<close>
theorem server_requests:
  "server_on_msg on_login (UnSequencedData d) s = (s\<lparr>unsequenced := unsequenced s @ [d]\<rparr>, None) \<and>
   (logged_in s \<longrightarrow> server_on_msg on_login (LoginRequest u p i q) s = (s\<lparr>sid_user := u\<rparr>, Some StateError)) \<and>
   (\<not> logged_in s \<and> s_transport s \<and> on_login (LoginRequest u p i q) = LoginAccepted i' n \<and>
      valid_soup (LoginAccepted i' n) \<longrightarrow>
    (\<exists>s'. server_on_msg on_login (LoginRequest u p i q) s = (s', None) \<and> logged_in s' \<and>
       sid_user s' = u \<and> sid_session s' = i' \<and>
       s_sent s' = s_sent s @ [Wrote (soup_bytes (LoginAccepted i' n))]))"
proof (intro conjI impI)
  assume a: "\<not> logged_in s \<and> s_transport s \<and> on_login (LoginRequest u p i q) = LoginAccepted i' n \<and>
      valid_soup (LoginAccepted i' n)"
  then obtain bs where "soup_to_bytes (LoginAccepted i' n) = Inr (length bs, bs)"
    using soup_decode_encode by blast
  with a show "\<exists>s'. server_on_msg on_login (LoginRequest u p i q) s = (s', None) \<and> logged_in s' \<and>
       sid_user s' = u \<and> sid_session s' = i' \<and>
       s_sent s' = s_sent s @ [Wrote (soup_bytes (LoginAccepted i' n))]"
    by (simp add: handle_login_def Let_def send_msg_def is_heartbeat_def start_heartbeats_def
        new_monitor_def not_none_def soup_bytes_def)
qed (simp_all add: handle_login_def)

theorem server_requests_witness:
  "server_on_msg (\<lambda>_. LoginRejected NOT_AUTHORIZED) (LoginRequest (lit ''eve'') [] [] [])
     ((server_new 10 10)\<lparr>logged_in := True\<rparr>) =
   ((server_new 10 10)\<lparr>logged_in := True, sid_user := lit ''eve''\<rparr>, Some StateError)"
  using server_requests [where s = "(server_new 10 10)\<lparr>logged_in := True\<rparr>" and u = "lit ''eve''"
      and p = "[]" and i = "[]" and q = "[]" and on_login = "\<lambda>_. LoginRejected NOT_AUTHORIZED"]
  by simp

text \<open>
  a refused handler is installed all the same. \<open>set_handlers\<close> on a session that is closing
  raises \<open>StateError\<close> after replacing the close handler, and the closing then calls the new one;
  on a session that is dispatching it refuses a message handler and changes nothing.
\<close>
theorem set_handlers_refused:
  assumes "is_closed s" and "\<not> is_dispatching (s_queue s)" and "s_phase s = CallOnClose"
  shows "snd (set_handlers on_msg (Some h) s) = Some StateError \<and>
    s_sent (close_step (fst (set_handlers on_msg (Some h) s))) = s_sent s @ [CalledOnClose h] \<and>
    (is_dispatching q \<longrightarrow> set_handlers (Some h') (Some h) (s\<lparr>s_queue := q\<rparr>) = (s\<lparr>s_queue := q\<rparr>, Some StateError))"
  using assms by (auto simp: set_handlers_def Let_def is_closed_def close_step_def)

theorem set_handlers_refused_witness:
  "s_sent (close_step (fst (set_handlers None (Some 9)
     ((session_new None (Some 7) False True :: SoupMessage session)\<lparr>s_closed := True, s_phase := CallOnClose\<rparr>)))) =
   [CalledOnClose 9]"
  using set_handlers_refused [of "(session_new None (Some 7) False True :: SoupMessage session)\<lparr>s_closed := True, s_phase := CallOnClose\<rparr>" None 9]
  by (simp add: is_closed_def session_new_def is_dispatching_def mq_new_def mq_empty_def start_dispatching_def)

end
