(* ===== verification/AppSession.thy ===== *)
theory AppSession
  imports SoupSession
begin

text \<open>
  The client sessions of the applications over SoupBinTCP: \<open>SoupAppClientSession\<close> of
  \<open>soup/soup_app.py\<close> with its subclasses in \<open>ouch\<close>, \<open>itch\<close> and \<open>sqf\<close>, and \<open>Asn1SoupClientSession\<close>
  of \<open>asn1_app/soup_session.py\<close>, which has the same operations. The sequenced data of the soup
  session is decoded by the application's messages and put into the session's own queue. The
  handlers are numbered: \<open>app_on_msg\<close> and \<open>app_on_close\<close> are the session's bound methods.
\<close>

section \<open>State\<close>

text \<open>\<open>app_close_event\<close> is the event of \<open>close\<close>, with whether it is set. \<open>app_calls\<close> logs the calls
  of the user's \<open>on_close_coro\<close>.\<close>

record 'm app_session =
  app_soup :: soup_session
  app_on_msg_coro :: bool
  app_on_close_coro :: "nat option"
  app_closed :: bool
  app_close_event :: "bool option"
  app_queue :: "'m mqueue"
  app_calls :: "nat list"

datatype protocol = Ouch | Itch | Sqf | Asn1

fun protocol_name :: "protocol \<Rightarrow> string" where
  "protocol_name Ouch = ''ouch''"
| "protocol_name Itch = ''itch''"
| "protocol_name Sqf = ''sqf''"
| "protocol_name Asn1 = ''asn1''"

text \<open>\<open>SoupAppSessionId.__str__\<close>.\<close>

definition app_session_id :: "protocol \<Rightarrow> pystr option \<Rightarrow> pystr" where
  "app_session_id p soup_session_id =
     lit (protocol_name p) @ lit ''-'' @
     (case soup_session_id of None \<Rightarrow> lit ''nosoup'' | Some i \<Rightarrow> i)"

definition app_on_msg :: nat where "app_on_msg = 100"
definition app_on_close :: nat where "app_on_close = 101"

section \<open>Operations\<close>

text \<open>\<open>__attrs_post_init__\<close>: the exception of \<open>set_handlers\<close> or \<open>start_dispatching\<close> leaves the
  constructor.\<close>

definition app_init :: "bool \<Rightarrow> nat option \<Rightarrow> soup_session \<Rightarrow> 'm app_session result" where
  "app_init on_msg on_close soup =
     (case set_handlers (Some app_on_msg) (Some app_on_close) soup of
        (_, Some e) \<Rightarrow> Inl e
      | (soup1, None) \<Rightarrow>
          rbind (session_start_dispatching soup1) (\<lambda>soup2.
            Inr \<lparr>app_soup = soup2, app_on_msg_coro = on_msg, app_on_close_coro = on_close,
                 app_closed = False, app_close_event = None, app_queue = mq_new on_msg, app_calls = []\<rparr>))"

definition receive_message :: "('m \<Rightarrow> bool) \<Rightarrow> nat \<Rightarrow> 'm app_session \<Rightarrow> 'm app_session" where
  "receive_message tr r a = a\<lparr>app_queue := get tr r (app_queue a)\<rparr>"

text \<open>\<open>send_message\<close>; that of \<open>itch\<close> raises, and an ASN.1 session has none.\<close>

definition send_message :: "protocol \<Rightarrow> 'm packer \<Rightarrow> 'm \<Rightarrow> 'm app_session \<Rightarrow> 'm app_session result" where
  "send_message p to_bytes msg a =
     (case p of
        Itch \<Rightarrow> Inl NotImplementedError
      | Asn1 \<Rightarrow> Inl AttributeError
      | _ \<Rightarrow> rbind (to_bytes msg) (\<lambda>(_, bs).
               rbind (send_unseq_data bs (app_soup a)) (\<lambda>s. Inr (a\<lparr>app_soup := s\<rparr>))))"

text \<open>\<open>close\<close> up to its await; the flag says whether it returns at once.\<close>

definition app_close :: "'m app_session \<Rightarrow> 'm app_session \<times> bool" where
  "app_close a =
     (if app_close_event a \<noteq> None \<or> app_closed a then (a, True)
      else (a\<lparr>app_close_event := Some False, app_soup := initiate_close False (app_soup a)\<rparr>, False))"

text \<open>\<open>_on_soup_message\<close>, with the exception that decoding raises.\<close>

definition on_soup_message ::
  "'m unpacker \<Rightarrow> SoupMessage \<Rightarrow> 'm app_session \<Rightarrow> 'm app_session \<times> exn option" where
  "on_soup_message dec msg a =
     (case msg of
        SequencedData d \<Rightarrow>
          (case dec d of
             Inl e \<Rightarrow> (a, Some e)
           | Inr (_, m) \<Rightarrow> (a\<lparr>app_queue := put m (app_queue a)\<rparr>, None))
      | _ \<Rightarrow> (a, None))"

definition on_soup_close :: "'m app_session \<Rightarrow> 'm app_session" where
  "on_soup_close a =
     a\<lparr>app_queue := stop (app_queue a),
       app_calls := app_calls a @ (case app_on_close_coro a of None \<Rightarrow> [] | Some h \<Rightarrow> [h]),
       app_close_event := map_option (\<lambda>_. True) (app_close_event a),
       app_closed := True\<rparr>"

text \<open>\<open>decode\<close> of the subclasses.\<close>

definition app_decode :: "registries \<Rightarrow> msg_class \<Rightarrow> message unpacker" where
  "app_decode reg cls = message_from_bytes reg cls"

definition asn1_app_decode ::
  "('spec \<Rightarrow> string \<Rightarrow> bytes \<Rightarrow> ((string \<times> pyval) list \<times> int) result) \<Rightarrow> 'spec asn1_spec \<Rightarrow> string \<Rightarrow>
     (string \<times> pyval) list unpacker" where
  "asn1_app_decode decode_with_length spec pdu_name bs = asn1_decode decode_with_length spec pdu_name bs"

section \<open>Lemmas\<close>

fun decoded :: "'m unpacker \<Rightarrow> SoupMessage list \<Rightarrow> 'm list" where
  "decoded dec [] = []"
| "decoded dec (SequencedData d # ms) =
     (case dec d of Inl e \<Rightarrow> decoded dec ms | Inr (_, m) \<Rightarrow> m # decoded dec ms)"
| "decoded dec (_ # ms) = decoded dec ms"

definition handle_all :: "'m unpacker \<Rightarrow> SoupMessage list \<Rightarrow> 'm app_session \<Rightarrow> 'm app_session" where
  "handle_all dec ms a = fold (\<lambda>m a. fst (on_soup_message dec m a)) ms a"

lemma put_accepted [simp]: "q_accepted (put m q) = q_accepted q @ [m]"
  by (simp add: put_def split: option.split)

lemma handle_all_accepted:
  "q_accepted (app_queue (handle_all dec ms a)) = q_accepted (app_queue a) @ decoded dec ms"
  unfolding handle_all_def
  by (induction dec ms arbitrary: a rule: decoded.induct)
    (auto simp: on_soup_message_def split: sum.split prod.split)

lemma handle_all_soup: "app_soup (handle_all dec ms a) = app_soup a"
  unfolding handle_all_def
  by (induction ms arbitrary: a)
    (auto simp: on_soup_message_def split: SoupMessage.split sum.split)

lemma decoded_encoded:
  assumes "\<And>m. m \<in> set ms \<Longrightarrow> \<exists>bs. enc m = Inr (int (length bs), bs) \<and> dec bs = Inr (int (length bs), m)"
  shows "decoded dec (map (\<lambda>m. SequencedData (snd (projr (enc m)))) ms) = ms"
  using assms
proof (induction ms)
  case (Cons m ms)
  from Cons.prems [of m] obtain bs where "enc m = Inr (int (length bs), bs)" "dec bs = Inr (int (length bs), m)"
    by auto
  with Cons show ?case by simp
qed simp

text \<open>
  what an application receives. Of the messages its soup session dispatches to it, the
  application's queue accepts exactly the sequenced ones that decode, in order; one that does not
  decode is dropped, and the session goes on. In particular the messages a server packed arrive.
\<close>
theorem app_receives:
  assumes "\<And>m. m \<in> set ms \<Longrightarrow>
      \<exists>bs. message_to_bytes m = Inr (int (length bs), bs) \<and> app_decode reg cls bs = Inr (int (length bs), m)"
  shows "q_accepted (app_queue (handle_all (app_decode reg cls)
      (map (\<lambda>m. SequencedData (snd (projr (message_to_bytes m)))) ms) a)) = q_accepted (app_queue a) @ ms \<and>
    q_accepted (app_queue (handle_all dec (ss @ SequencedData d # ts) a')) =
      q_accepted (app_queue (handle_all dec ss a')) @
      (case dec d of Inl _ \<Rightarrow> [] | Inr (_, m) \<Rightarrow> [m]) @ decoded dec ts \<and>
    is_closed (app_soup (handle_all dec (ss @ SequencedData d # ts) a')) = is_closed (app_soup a')"
proof (intro conjI)
  have split_seq: "decoded dec (ss @ ts) = decoded dec ss @ decoded dec ts" for ss ts
    by (induction dec ss rule: decoded.induct) (auto split: sum.split)
  show "q_accepted (app_queue (handle_all dec (ss @ SequencedData d # ts) a')) =
      q_accepted (app_queue (handle_all dec ss a')) @
      (case dec d of Inl _ \<Rightarrow> [] | Inr (_, m) \<Rightarrow> [m]) @ decoded dec ts"
    by (simp add: handle_all_accepted split_seq split: sum.split prod.split)
qed (simp_all add: handle_all_accepted decoded_encoded assms handle_all_soup)

definition sample_registries :: registries where
  "sample_registries = no_classes\<lparr>MsgIdToClsMap :=
     [(Some ''ouch'', \<lparr>indicator = 79, direction = ''outgoing''\<rparr>) \<mapsto> enter_order ''outgoing'']\<rparr>"

definition sample_message :: message where
  "sample_message = \<lparr>msg_cls = enter_order ''outgoing'', msg_record = VRec ''BodyRecord'' [(''qty'', VInt 500)]\<rparr>"

lemma sample_message_bytes:
  "message_to_bytes sample_message = Inr (5, [79, 0, 0, 1, 244])"
  "message_from_bytes sample_registries app_base [79, 0, 0, 1, 244] = Inr (5, sample_message)"
proof -
  show "message_to_bytes sample_message = Inr (5, [79, 0, 0, 1, 244])"
    by code_simp
  have "unpack order_body [0, 0, 1, 244] = Inr (4, VRec ''BodyRecord'' [(''qty'', VInt 500)])"
    by code_simp
  then show "message_from_bytes sample_registries app_base [79, 0, 0, 1, 244] = Inr (5, sample_message)"
    by (simp add: message_decode sample_registries_def sample_message_def app_base_def
        enter_order_def message_init_def)
qed

theorem app_receives_witness:
  "q_accepted (app_queue (handle_all (app_decode sample_registries app_base)
      (map (\<lambda>m. SequencedData (snd (projr (message_to_bytes m)))) [sample_message, sample_message])
      \<lparr>app_soup = client_new None None 10 10, app_on_msg_coro = False, app_on_close_coro = None,
       app_closed = False, app_close_event = None, app_queue = mq_new False, app_calls = []\<rparr>)) =
   [sample_message, sample_message]"
proof -
  have "\<exists>bs. message_to_bytes m = Inr (int (length bs), bs) \<and>
      app_decode sample_registries app_base bs = Inr (int (length bs), m)"
    if "m \<in> set [sample_message, sample_message]" for m
    using that sample_message_bytes
    by (intro exI [of _ "[79, 0, 0, 1, 244]"]) (simp add: app_decode_def)
  from app_receives [where ms = "[sample_message, sample_message]" and a =
      "\<lparr>app_soup = client_new None None 10 10, app_on_msg_coro = False, app_on_close_coro = None,
        app_closed = False, app_close_event = None, app_queue = mq_new False, app_calls = []\<rparr>",
      OF this, THEN conjunct1]
  show ?thesis by (simp only: app_session.simps mq_new_store append_Nil)
qed

text \<open>
  closing an application's session. The first \<open>close\<close> begins to close the soup session and
  waits; any other returns at once. When the soup session has closed, the queue is stopped, the
  user's handler is called, the waiting \<open>close\<close> goes on, and later ones return at once.
\<close>
theorem app_close_effect:
  assumes "app_close_event a = None" and "\<not> app_closed a"
  shows "let a1 = fst (app_close a); a2 = on_soup_close a1
    in \<not> snd (app_close a) \<and> \<not> is_active (app_soup a1) \<and> app_close a1 = (a1, True) \<and>
       app_close_event a2 = Some True \<and> is_stopped (app_queue a2) \<and>
       app_calls a2 = app_calls a @ (case app_on_close_coro a of None \<Rightarrow> [] | Some h \<Rightarrow> [h]) \<and>
       app_close a2 = (a2, True)"
  using assms
  by (auto simp: Let_def app_close_def on_soup_close_def is_active_def initiate_close_def
      is_stopped_def stop_def)

theorem app_close_effect_witness:
  "app_calls (on_soup_close (fst (app_close
      (\<lparr>app_soup = client_new None None 10 10, app_on_msg_coro = False, app_on_close_coro = Some 3,
       app_closed = False, app_close_event = None, app_queue = mq_new False, app_calls = []\<rparr> :: message app_session)))) = [3]"
  using app_close_effect [of "\<lparr>app_soup = client_new None None 10 10, app_on_msg_coro = False,
      app_on_close_coro = Some 3, app_closed = False, app_close_event = None,
      app_queue = mq_new False, app_calls = []\<rparr> :: message app_session"]
  unfolding Let_def by simp

end
