(* ===== verification/FixTypes.thy ===== *)
theory FixTypes
  imports FieldTypes
begin

text \<open>
  The field types of \<open>fix/types.py\<close>: values travel as ASCII text. A float is represented by its
  canonical text \<open>repr(f)\<close>, which determines it; \<open>float_text\<close>, the function that maps a text to
  \<open>repr(float(text))\<close> (or \<open>None\<close> where \<open>float\<close> raises \<open>ValueError\<close>), is a parameter. The types
  supported by each version of the protocol are those of \<open>fix/parser/version_types.py\<close>.
\<close>

section \<open>Classes and values\<close>

datatype FixType =
    FixString | FixBool | FixInt | FixFloat | FixChar | FixQuantity | FixPrice | FixPriceOffset
  | FixAmount | FixMultipleValueString | FixCurrency | FixExchange | FixUTCTimeStamp | FixUTCTime
  | FixLocalMktDate | FixTzTime | FixTzTimestamp | FixDayOfMonth | FixUTCTimeOnly | FixTzTimeonly

datatype fix_value = FStr pystr | FInt int | FBool bool | FFloat pystr

datatype fix_kind = KString | KBool | KInt | KFloat

text \<open>The base class that defines the conversions.\<close>

fun kind_of :: "FixType \<Rightarrow> fix_kind" where
  "kind_of FixBool = KBool"
| "kind_of FixInt = KInt"
| "kind_of FixDayOfMonth = KInt"
| "kind_of FixFloat = KFloat"
| "kind_of FixQuantity = KFloat"
| "kind_of FixPrice = KFloat"
| "kind_of FixPriceOffset = KFloat"
| "kind_of FixAmount = KFloat"
| "kind_of _ = KString"

section \<open>Conversions\<close>

definition pack_text_fix :: "pystr packer" where
  "pack_text_fix s = rbind (encode Ascii s) (\<lambda>bs. Inr (int (length s), bs))"

definition unpack_text_fix :: "pystr unpacker" where
  "unpack_text_fix bs = rbind (decode Ascii bs) (\<lambda>s. Inr (int (length bs), s))"

text \<open>\<open>str(value)\<close>.\<close>

fun py_str :: "fix_value \<Rightarrow> pystr" where
  "py_str (FStr s) = s"
| "py_str (FInt i) = show_int i"
| "py_str (FBool b) = lit (if b then ''True'' else ''False'')"
| "py_str (FFloat t) = t"

fun fix_truthy :: "fix_value \<Rightarrow> bool" where
  "fix_truthy (FStr s) = (s \<noteq> [])"
| "fix_truthy (FInt i) = (i \<noteq> 0)"
| "fix_truthy (FBool b) = b"
| "fix_truthy (FFloat t) = (t \<noteq> lit ''0.0'' \<and> t \<noteq> lit ''-0.0'')"

definition fix_pack :: "FixType \<Rightarrow> fix_value packer" where
  "fix_pack ty v =
     (case kind_of ty of
        KString \<Rightarrow> (case v of FStr s \<Rightarrow> pack_text_fix s | _ \<Rightarrow> Inl TypeError)
      | KBool \<Rightarrow> Inr (1, if fix_truthy v then [89] else [78])
      | _ \<Rightarrow> pack_text_fix (py_str v))"

definition fix_unpack :: "(pystr \<Rightarrow> pystr option) \<Rightarrow> FixType \<Rightarrow> fix_value unpacker" where
  "fix_unpack float_text ty bs =
     (case kind_of ty of
        KString \<Rightarrow> rbind (unpack_text_fix bs) (\<lambda>(n, s). Inr (n, FStr s))
      | KBool \<Rightarrow> Inr (int (length bs), FBool (bs = [89]))
      | KInt \<Rightarrow> rbind (unpack_text_fix bs) (\<lambda>(n, s). rbind (parse_int s) (\<lambda>i. Inr (n, FInt i)))
      | KFloat \<Rightarrow> rbind (unpack_text_fix bs) (\<lambda>(n, s).
                   case float_text s of None \<Rightarrow> Inl ValueError | Some t \<Rightarrow> Inr (n, FFloat t)))"

text \<open>\<open>to_str\<close> and \<open>from_str\<close>.\<close>

definition fix_to_str :: "FixType \<Rightarrow> fix_value \<Rightarrow> pystr" where
  "fix_to_str ty v =
     (case kind_of ty of KBool \<Rightarrow> (if fix_truthy v then lit ''Y'' else lit ''N'') | _ \<Rightarrow> py_str v)"

definition fix_from_str :: "(pystr \<Rightarrow> pystr option) \<Rightarrow> FixType \<Rightarrow> pystr \<Rightarrow> fix_value result" where
  "fix_from_str float_text ty s =
     (case kind_of ty of
        KString \<Rightarrow> Inr (FStr s)
      | KBool \<Rightarrow> Inr (FBool (s \<in> {lit ''Y'', lit ''y''}))
      | KInt \<Rightarrow> rbind (parse_int s) (\<lambda>i. Inr (FInt i))
      | KFloat \<Rightarrow> (case float_text s of None \<Rightarrow> Inl ValueError | Some t \<Rightarrow> Inr (FFloat t)))"

text \<open>\<open>isinstance(value, type_cls)\<close> and \<open>default_value\<close>.\<close>

definition fix_isinstance :: "FixType \<Rightarrow> fix_value \<Rightarrow> bool" where
  "fix_isinstance ty v =
     (case (kind_of ty, v) of
        (KString, FStr _) \<Rightarrow> True | (KBool, FBool _) \<Rightarrow> True
      | (KInt, FInt _) \<Rightarrow> True | (KInt, FBool _) \<Rightarrow> True
      | (KFloat, FFloat _) \<Rightarrow> True | _ \<Rightarrow> False)"

definition fix_default :: "FixType \<Rightarrow> fix_value" where
  "fix_default ty = (case kind_of ty of KString \<Rightarrow> FStr [] | KBool \<Rightarrow> FBool False | _ \<Rightarrow> FInt 0)"

section \<open>The registry\<close>

definition fix_decorators :: "(string \<times> FixType) list" where
  "fix_decorators =
     [(''fix_string'', FixString), (''fix_bool'', FixBool), (''fix_bool'', FixInt),
      (''fix_float'', FixFloat), (''fix_char'', FixChar), (''fix_quantity'', FixQuantity),
      (''fix_price'', FixPrice), (''fix_price_offset'', FixPriceOffset), (''fix_amount'', FixAmount),
      (''fix_multiple_value_string'', FixMultipleValueString), (''fix_currency'', FixCurrency),
      (''fix_exchange'', FixExchange), (''fix_utc_timestamp'', FixUTCTimeStamp),
      (''fix_utc_time'', FixUTCTime), (''fix_local_mkt_date'', FixLocalMktDate),
      (''fix_tx_time'', FixTzTime), (''fix_tz_timestamp'', FixTzTimestamp),
      (''fix_day_of_month'', FixDayOfMonth)]"

definition FixDefinitions :: "string \<rightharpoonup> FixType" where
  "FixDefinitions = fold add_type fix_decorators Map.empty"

lemma fix_bool_overwritten: "FixDefinitions ''fix_bool'' = Some FixInt \<and> FixDefinitions ''fix_int'' = None"
  by (simp add: FixDefinitions_def fix_decorators_def add_type_def)

section \<open>Versions\<close>

definition fix_42_version_types :: "string \<rightharpoonup> FixType" where
  "fix_42_version_types = map_of
     [(''AMT'', FixAmount), (''BOOLEAN'', FixBool), (''CHAR'', FixChar), (''CURRENCY'', FixCurrency),
      (''DATA'', FixString), (''DAYOFMONTH'', FixDayOfMonth), (''EXCHANGE'', FixExchange),
      (''FLOAT'', FixFloat), (''INT'', FixInt), (''LENGTH'', FixInt), (''LOCALMKTDATE'', FixString),
      (''MONTHYEAR'', FixInt), (''MULTIPLEVALUESTRING'', FixMultipleValueString),
      (''PRICE'', FixPrice), (''PRICEOFFSET'', FixPriceOffset), (''QTY'', FixQuantity),
      (''STRING'', FixString), (''UTCDATE'', FixString), (''UTCTIMEONLY'', FixUTCTimeOnly),
      (''UTCTIMESTAMP'', FixUTCTimeStamp), (''COUNTRY'', FixString), (''PERCENTAGE'', FixFloat),
      (''LONG'', FixInt)]"

definition fix_44_version_types :: "string \<rightharpoonup> FixType" where
  "fix_44_version_types = fix_42_version_types(''SEQNUM'' \<mapsto> FixInt, ''NUMINGROUP'' \<mapsto> FixInt)"

definition fix_50_version_types :: "string \<rightharpoonup> FixType" where
  "fix_50_version_types = fix_42_version_types(''FIXSTRING'' \<mapsto> FixString,
     ''MULTIPLECHARVALUE'' \<mapsto> FixString, ''NUMINGROUP'' \<mapsto> FixInt, ''SEQNUM'' \<mapsto> FixInt)"

definition fix_502_version_types :: "string \<rightharpoonup> FixType" where
  "fix_502_version_types = fix_50_version_types(''LOCALMKTDATE'' \<mapsto> FixLocalMktDate,
     ''TZTIMEONLY'' \<mapsto> FixTzTimeonly, ''MULTIPLESTRINGVALUE'' \<mapsto> FixMultipleValueString)"

definition get_supported_types :: "string \<Rightarrow> (string \<rightharpoonup> FixType) result" where
  "get_supported_types version =
     (if version = ''4.2'' then Inr fix_42_version_types
      else if version = ''4.4'' then Inr fix_44_version_types
      else if version = ''5.0'' then Inr fix_50_version_types
      else if version = ''5.0SP2'' then Inr fix_502_version_types
      else Inl ValueError)"

section \<open>Values that survive\<close>

text \<open>The values whose text fits into a field: of the type's kind, ASCII, and without the byte
  that separates fields.\<close>

definition soh_free :: "pystr \<Rightarrow> bool" where
  "soh_free s \<longleftrightarrow> 1 \<notin> set s"

definition good_fix :: "(pystr \<Rightarrow> pystr option) \<Rightarrow> FixType \<Rightarrow> fix_value \<Rightarrow> bool" where
  "good_fix float_text ty v \<longleftrightarrow>
     (case (kind_of ty, v) of
        (KString, FStr s) \<Rightarrow> encodable Ascii s \<and> soh_free s
      | (KBool, FBool _) \<Rightarrow> True
      | (KInt, FInt _) \<Rightarrow> True
      | (KFloat, FFloat t) \<Rightarrow> encodable Ascii t \<and> soh_free t \<and> float_text t = Some t
      | _ \<Rightarrow> False)"

lemma of_nat_byte_eq_1: "c < 256 \<Longrightarrow> (of_nat c :: byte) = 1 \<longleftrightarrow> c = 1"
  by (metis of_nat_1 unat_of_nat_byte numeral_One one_less_numeral_iff semiring_norm(76))

lemma soh_free_bytes: "encodable Ascii s \<Longrightarrow> soh_free s \<Longrightarrow> (1 :: byte) \<notin> set (map of_nat s)"
  by (auto simp: encodable_def list_all_iff soh_free_def of_nat_byte_eq_1 dest!: sym [of 1])

lemma soh_free_show_int [simp]: "soh_free (show_int i)"
  using show_int_chars [of 1 i] by (auto simp: soh_free_def is_digit_def)

lemma fix_pack_unpack:
  assumes "good_fix fl ty v"
  obtains bs where "fix_pack ty v = Inr (int (length bs), bs)"
    and "fix_unpack fl ty bs = Inr (int (length bs), v)" and "1 \<notin> set bs"
proof (cases v)
  case (FStr s)
  with assms have "kind_of ty = KString" "encodable Ascii s" "soh_free s"
    by (auto simp: good_fix_def split: fix_kind.splits)
  with FStr soh_free_bytes [of s] show thesis
    by (intro that [of "map of_nat s"])
      (simp_all add: fix_pack_def fix_unpack_def pack_text_fix_def unpack_text_fix_def codec_simps)
next
  case (FInt i)
  with assms have "kind_of ty = KInt"
    by (auto simp: good_fix_def split: fix_kind.splits)
  with FInt soh_free_bytes [of "show_int i"] show thesis
    by (intro that [of "map of_nat (show_int i)"])
      (simp_all add: fix_pack_def fix_unpack_def pack_text_fix_def unpack_text_fix_def codec_simps)
next
  case (FBool b)
  with assms have "kind_of ty = KBool"
    by (auto simp: good_fix_def split: fix_kind.splits)
  with FBool show thesis
    by (intro that [of "if b then [89] else [78]"]) (simp_all add: fix_pack_def fix_unpack_def)
next
  case (FFloat t)
  with assms have "kind_of ty = KFloat" "encodable Ascii t" "soh_free t" "fl t = Some t"
    by (auto simp: good_fix_def split: fix_kind.splits)
  with FFloat soh_free_bytes [of t] show thesis
    by (intro that [of "map of_nat t"])
      (simp_all add: fix_pack_def fix_unpack_def pack_text_fix_def unpack_text_fix_def codec_simps)
qed

end
