(* ===== verification/FixCore.thy ===== *)
theory FixCore
  imports FixTypes Structures
begin

text \<open>
  FIX messages (\<open>fix/core.py\<close>): fields, data segments, repeating groups and messages. The classes
  generated for an application are data here: a segment class is its list of entries, an entry a
  field class or a group container with the entries of its group. A segment's dictionary maps
  tags to values in insertion order. The loop of \<open>DataSegment.from_bytes\<close> is \<open>seg_loop\<close>; its
  value \<open>Diverges\<close> for an entry that would consume nothing is shown never to occur.
\<close>

section \<open>Classes and instances\<close>

datatype fielddef = FieldDef (f_tag: int) (f_name: string) (f_type: FixType)

datatype entry_def =
    EField fielddef
  | EGroup string fielddef string "(entry_def \<times> bool) list"

type_synonym entries = "(entry_def \<times> bool) list"

fun entry_field :: "entry_def \<Rightarrow> fielddef" where
  "entry_field (EField fd) = fd"
| "entry_field (EGroup _ fd _ _) = fd"

definition entry_tag :: "entry_def \<Rightarrow> int" where
  "entry_tag e = f_tag (entry_field e)"

text \<open>An instance of a field, or the dictionaries of the groups of a container.\<close>

datatype fixval = VField fix_value | VGroups "(int \<times> fixval) list list"

type_synonym segment = "(int \<times> fixval) list"

text \<open>\<open>IndexedEntries[tag]\<close>: of two entries with a tag the later one counts.\<close>

definition find_entry :: "entries \<Rightarrow> int \<Rightarrow> (entry_def \<times> bool) option" where
  "find_entry es tag = find (\<lambda>p. entry_tag (fst p) = tag) (rev es)"

lemma find_entry_mem: "find_entry es tag = Some p \<Longrightarrow> p \<in> set es \<and> entry_tag (fst p) = tag"
  by (auto simp: find_entry_def find_Some_iff rev_nth)

lemma size_entry [termination_simp]:
  "find_entry es tag = Some (d, r) \<Longrightarrow> size d < Suc (size_list (\<lambda>x. Suc (size (fst x))) es)"
proof -
  assume "find_entry es tag = Some (d, r)"
  then have "(d, r) \<in> set es" by (blast dest: find_entry_mem)
  then show ?thesis
    by (induction es) auto
qed

definition SOH :: byte where "SOH = 1"
definition SEPARATOR :: byte where "SEPARATOR = 61"

section \<open>Fields\<close>

definition tag_bytes :: "int \<Rightarrow> bytes" where
  "tag_bytes tag = map of_nat (show_int tag) @ [SEPARATOR]"

definition field_to_bytes :: "fielddef \<Rightarrow> fix_value packer" where
  "field_to_bytes fd v =
     rbind (fix_pack (f_type fd) v) (\<lambda>(_, bs).
       Inr (int (length (tag_bytes (f_tag fd) @ bs)), tag_bytes (f_tag fd) @ bs))"

definition field_from_bytes :: "(pystr \<Rightarrow> pystr option) \<Rightarrow> fielddef \<Rightarrow> fix_value unpacker" where
  "field_from_bytes fl fd bs =
     (let value_start = py_find bs [SEPARATOR]; soh = py_find bs [SOH];
          value_end = (if soh = -1 then int (length bs) else soh);
          total = (if soh = -1 then int (length bs) else soh + 1)
      in if value_start = -1 then Inl ValueError
         else rbind (fix_unpack fl (f_type fd) (py_slice bs (value_start + 1) value_end)) (\<lambda>(_, v).
                Inr (total, v)))"

text \<open>What a caller may assign: an instance of a field class, a plain value, \<open>None\<close>, a dictionary,
  a list (or container) of groups, an instance of a segment class with its dictionary.\<close>

datatype fkey = KTag int | KName string

datatype fix_arg =
    AField fielddef fix_value | AVal fix_value | ANone | ADict "(fkey \<times> fix_arg) list"
  | AList "fix_arg list" | ASegment string "(int \<times> fix_arg) list"

definition field_from_value :: "fielddef \<Rightarrow> fix_arg \<Rightarrow> fix_value result" where
  "field_from_value fd a =
     (case a of
        AField fd' v \<Rightarrow> if fd' = fd then Inr v else Inl TypeError
      | AVal v \<Rightarrow> if fix_isinstance (f_type fd) v then Inr v else Inl TypeError
      | _ \<Rightarrow> Inl TypeError)"

section \<open>Serialization\<close>

text \<open>\<open>SOH.join(parts)\<close>.\<close>

fun soh_join :: "bytes list \<Rightarrow> bytes" where
  "soh_join [] = []"
| "soh_join [b] = b"
| "soh_join (b # c # bs) = b @ [SOH] @ soh_join (c # bs)"

definition with_length :: "bytes result \<Rightarrow> (int \<times> bytes) result" where
  "with_length r = rbind r (\<lambda>bs. Inr (int (length bs), bs))"

text \<open>\<open>to_bytes\<close> of an entry's instance: for a container, the count and then every group, whose
  fields are written in the order of the class.\<close>

fun entry_to_bytes :: "entry_def \<Rightarrow> fixval \<Rightarrow> bytes result" where
  "entry_to_bytes (EField fd) v =
     (case v of VField x \<Rightarrow> rbind (field_to_bytes fd x) (\<lambda>(_, bs). Inr bs) | _ \<Rightarrow> Inl AttributeError)"
| "entry_to_bytes (EGroup cname fd gname es) v =
     (case v of
        VGroups gs \<Rightarrow>
          rbind (field_from_value fd (AVal (FInt (int (length gs))))) (\<lambda>n.
          rbind (field_to_bytes fd n) (\<lambda>(_, count).
          rbind (map_result (\<lambda>g.
                   rbind (map_result (\<lambda>p. case p of (d, req) \<Rightarrow>
                            (case map_of g (entry_tag d) of
                               None \<Rightarrow> Inr []
                             | Some x \<Rightarrow> rbind (entry_to_bytes d x) (\<lambda>bs. Inr [bs]))) es)
                     (\<lambda>parts. Inr (soh_join (concat parts)))) gs)
            (\<lambda>groups. Inr (soh_join (count # groups)))))
      | _ \<Rightarrow> Inl AttributeError)"

definition group_to_bytes :: "entries \<Rightarrow> segment \<Rightarrow> bytes result" where
  "group_to_bytes es g =
     rbind (map_result (\<lambda>p. case p of (d, req) \<Rightarrow>
              (case map_of g (entry_tag d) of
                 None \<Rightarrow> Inr []
               | Some x \<Rightarrow> rbind (entry_to_bytes d x) (\<lambda>bs. Inr [bs]))) es)
       (\<lambda>parts. Inr (soh_join (concat parts)))"

definition segment_to_bytes :: "entries \<Rightarrow> segment \<Rightarrow> bytes result" where
  "segment_to_bytes es d =
     rbind (map_result (\<lambda>p. case find_entry es (fst p) of
              None \<Rightarrow> Inl KeyError | Some (e, _) \<Rightarrow> entry_to_bytes e (snd p)) d)
       (\<lambda>parts. Inr (soh_join parts))"

section \<open>Parsing\<close>

definition read_tag :: "bytes \<Rightarrow> int result" where
  "read_tag bs = rbind (decode Ascii (py_slice bs 0 (py_find bs [SEPARATOR]))) parse_int"

function seg_loop ::
  "(int \<Rightarrow> (bytes \<Rightarrow> (int \<times> fixval) result) option) \<Rightarrow> bytes \<Rightarrow> segment \<Rightarrow> int \<Rightarrow>
     (int \<times> segment) result" where
  "seg_loop look bs d n =
     (if bs = [] then Inr (n, d)
      else rbind (read_tag bs) (\<lambda>tag.
        if tag \<in> fst ` set d then Inr (n, d)
        else case look tag of
               None \<Rightarrow> Inr (n, d)
             | Some p \<Rightarrow>
                 rbind (p bs) (\<lambda>(k, v).
                   if length (py_from bs k) < length bs
                   then seg_loop look (py_from bs k) (d @ [(tag, v)]) (n + k)
                   else Inl Diverges)))"
  by pat_completeness auto
termination
  by (relation "measure (\<lambda>(look, bs, d, n). length bs)") auto

declare seg_loop.simps [simp del]

lemma seg_loop_cong [fundef_cong]:
  "bs = cs \<Longrightarrow> d = e \<Longrightarrow> n = m \<Longrightarrow> (\<And>t. look t = look' t) \<Longrightarrow>
   seg_loop look bs d n = seg_loop look' cs e m"
  by presburger

text \<open>The loop of \<open>GroupContainer.from_bytes\<close>: at most \<open>k\<close> more groups, while bytes are left.\<close>

fun groups_loop ::
  "(bytes \<Rightarrow> (int \<times> segment) result) \<Rightarrow> nat \<Rightarrow> bytes \<Rightarrow> segment list \<Rightarrow> int \<Rightarrow>
     (int \<times> segment list) result" where
  "groups_loop p 0 bs gs n = Inr (n, gs)"
| "groups_loop p (Suc k) bs gs n =
     (if bs = [] then Inr (n, gs)
      else rbind (p bs) (\<lambda>(e, g). groups_loop p k (py_from bs e) (gs @ [g]) (n + e)))"

lemma groups_loop_cong [fundef_cong]:
  "k = k' \<Longrightarrow> bs = cs \<Longrightarrow> gs = hs \<Longrightarrow> n = m \<Longrightarrow> (\<And>b. p b = q b) \<Longrightarrow>
   groups_loop p k bs gs n = groups_loop q k' cs hs m"
  by presburger

fun count_value :: "fix_value \<Rightarrow> int result" where
  "count_value (FInt i) = Inr i"
| "count_value (FBool b) = Inr (of_bool b)"
| "count_value _ = Inl TypeError"

fun entry_from_bytes :: "(pystr \<Rightarrow> pystr option) \<Rightarrow> entry_def \<Rightarrow> bytes \<Rightarrow> (int \<times> fixval) result" where
  "entry_from_bytes fl (EField fd) bs =
     rbind (field_from_bytes fl fd bs) (\<lambda>(n, v). Inr (n, VField v))"
| "entry_from_bytes fl (EGroup cname fd gname es) bs =
     rbind (field_from_bytes fl fd bs) (\<lambda>(e, v).
     rbind (count_value v) (\<lambda>count.
     rbind (groups_loop
              (\<lambda>b. seg_loop (\<lambda>tag. case find_entry es tag of
                      None \<Rightarrow> None | Some (d, req) \<Rightarrow> Some (\<lambda>b. entry_from_bytes fl d b)) b [] 0)
              (nat count) (py_from bs e) [] e) (\<lambda>(n, gs).
       if int (length gs) \<noteq> count then Inl ValueError else Inr (n, VGroups gs))))"

definition segment_from_bytes ::
  "(pystr \<Rightarrow> pystr option) \<Rightarrow> entries \<Rightarrow> bytes \<Rightarrow> (int \<times> segment) result" where
  "segment_from_bytes fl es bs =
     seg_loop (\<lambda>tag. case find_entry es tag of
         None \<Rightarrow> None | Some (d, req) \<Rightarrow> Some (entry_from_bytes fl d)) bs [] 0"

section \<open>Progress\<close>

lemma find_from_ge: "find_from pat xs k = -1 \<or> int k \<le> find_from pat xs k"
proof (induction xs arbitrary: k)
  case (Cons x xs)
  from Cons.IH [of "Suc k"] show ?case by auto
qed auto

lemma field_consumes:
  assumes "field_from_bytes fl fd bs = Inr (n, v)" "bs \<noteq> []"
  shows "0 < n"
  using assms find_from_ge [of "[SOH]" bs 0]
  by (auto simp: field_from_bytes_def Let_def result_simps py_find_def split: if_splits)

lemma py_from_shorter: "0 < k \<Longrightarrow> bs \<noteq> [] \<Longrightarrow> length (py_from bs k) < length bs"
  by (auto simp: py_from_def py_idx_def)

lemma seg_loop_grows:
  assumes "\<And>t p b k v. look t = Some p \<Longrightarrow> p b = Inr (k, v) \<Longrightarrow> b \<noteq> [] \<Longrightarrow> 0 < k"
    and "\<And>t p b. look t = Some p \<Longrightarrow> p b \<noteq> Inl Diverges"
  shows "seg_loop look bs d n \<noteq> Inl Diverges \<and> (\<forall>m d'. seg_loop look bs d n = Inr (m, d') \<longrightarrow> n \<le> m)"
  using assms
proof (induction look bs d n rule: seg_loop.induct)
  case (1 look bs d n)
  show ?case
  proof (cases "bs = []")
    case True
    then show ?thesis by (subst (1 2) seg_loop.simps) simp
  next
    case False
    have tag: "read_tag bs \<noteq> Inl Diverges"
      by (auto simp: read_tag_def result_simps decode_def parse_int_def nat_result_def
          split: list.splits if_splits option.splits)
    have step: "rbind (p bs) (\<lambda>(k, v). if length (py_from bs k) < length bs
          then seg_loop look (py_from bs k) (d @ [(t, v)]) (n + k) else Inl Diverges) \<noteq> Inl Diverges \<and>
        (\<forall>m d'. rbind (p bs) (\<lambda>(k, v). if length (py_from bs k) < length bs
          then seg_loop look (py_from bs k) (d @ [(t, v)]) (n + k) else Inl Diverges) = Inr (m, d') \<longrightarrow> n \<le> m)"
      if t: "read_tag bs = Inr t" "t \<notin> fst ` set d" "look t = Some p" for t p
    proof (cases "p bs")
      case (Inl e)
      with "1.prems"(2) [OF t(3), of bs] show ?thesis by simp
    next
      case (Inr kv)
      obtain k v where kv: "kv = (k, v)" by (cases kv)
      with "1.prems"(1) [OF t(3)] Inr False have k: "0 < k" by auto
      with False py_from_shorter [of k bs] have sh: "length (py_from bs k) < length bs" by simp
      have "seg_loop look (py_from bs k) (d @ [(t, v)]) (n + k) \<noteq> Inl Diverges \<and>
          (\<forall>m d'. seg_loop look (py_from bs k) (d @ [(t, v)]) (n + k) = Inr (m, d') \<longrightarrow> n + k \<le> m)"
        by (rule "1.IH" [OF False t(1,2,3) Inr kv [symmetric] sh]) (fact "1.prems")+
      with Inr kv sh k show ?thesis by auto
    qed
    show ?thesis
      using False tag step
      by (subst (1 2) seg_loop.simps) (cases "read_tag bs"; auto split: option.splits)
  qed
qed

lemma groups_loop_grows:
  assumes "\<And>b e g. p b = Inr (e, g) \<Longrightarrow> 0 \<le> e" "\<And>b. p b \<noteq> Inl Diverges"
  shows "groups_loop p k bs gs n \<noteq> Inl Diverges \<and>
    (\<forall>m gs'. groups_loop p k bs gs n = Inr (m, gs') \<longrightarrow> n \<le> m)"
proof (induction k arbitrary: bs gs n)
  case (Suc k)
  show ?case
  proof (cases "p bs")
    case (Inl e)
    with assms(2) [of bs] show ?thesis by auto
  next
    case (Inr r)
    then obtain e g where r: "p bs = Inr (e, g)" by (cases r) auto
    from Suc.IH [of "py_from bs e" "gs @ [g]" "n + e"] r assms(1) [OF r] show ?thesis
      by (auto simp: order_trans)
  qed
qed simp

lemma fix_unpack_no_diverge: "fix_unpack fl ty bs \<noteq> Inl Diverges"
  by (auto simp: fix_unpack_def unpack_text_fix_def result_simps decode_def parse_int_def nat_result_def
      split: fix_kind.splits option.splits list.splits if_splits)

lemma field_no_diverge: "field_from_bytes fl fd bs \<noteq> Inl Diverges"
  using fix_unpack_no_diverge
  by (auto simp: field_from_bytes_def Let_def result_simps)

lemma entry_progress:
  "entry_from_bytes fl e bs \<noteq> Inl Diverges \<and>
   (\<forall>n v. entry_from_bytes fl e bs = Inr (n, v) \<longrightarrow> bs \<noteq> [] \<longrightarrow> 0 < n)"
proof (induction fl e bs rule: entry_from_bytes.induct)
  case (1 fl fd bs)
  then show ?case
    using field_no_diverge [of fl fd bs] field_consumes [of fl fd bs] by (auto simp: result_simps)
next
  case (2 fl cname fd gname es bs)
  let ?look = "\<lambda>tag. case find_entry es tag of None \<Rightarrow> None | Some (d, req) \<Rightarrow> Some (\<lambda>b. entry_from_bytes fl d b)"
  show ?case
  proof (cases "field_from_bytes fl fd bs")
    case (Inl x)
    with field_no_diverge [of fl fd bs] show ?thesis by auto
  next
    case (Inr r)
    then obtain e v where f: "field_from_bytes fl fd bs = Inr (e, v)" by (cases r) auto
    show ?thesis
    proof (cases "count_value v")
      case (Inl x)
      with f show ?thesis by (cases v) auto
    next
      case (Inr c)
      note ih = "2.IH" [OF f refl Inr _ refl]
      have look: "seg_loop ?look b d n \<noteq> Inl Diverges \<and> (\<forall>m d'. seg_loop ?look b d n = Inr (m, d') \<longrightarrow> n \<le> m)"
        for b d n
      proof (rule seg_loop_grows)
        fix t p b k v
        assume p: "?look t = Some p" and b: "p b = Inr (k, v)" "b \<noteq> []"
        from p obtain d q where d: "find_entry es t = Some (d, q)" "p = entry_from_bytes fl d"
          by (auto split: option.splits)
        from ih [OF d(1), of b] b d(2) show "0 < k" by blast
      next
        fix t p b
        assume "?look t = Some p"
        then obtain d q where d: "find_entry es t = Some (d, q)" "p = entry_from_bytes fl d"
          by (auto split: option.splits)
        from ih [OF d(1), of b] d(2) show "p b \<noteq> Inl Diverges" by blast
      qed
      have "groups_loop (\<lambda>b. seg_loop ?look b [] 0) (nat c) (py_from bs e) [] e \<noteq> Inl Diverges \<and>
          (\<forall>m gs. groups_loop (\<lambda>b. seg_loop ?look b [] 0) (nat c) (py_from bs e) [] e = Inr (m, gs) \<longrightarrow> e \<le> m)"
        using look [of _ "[]" 0] by (intro groups_loop_grows) blast+
      with f Inr field_consumes [OF f] show ?thesis
        by (auto simp: result_simps split: if_splits)
    qed
  qed
qed

end
