(* ===== verification/FixRoundtrip.thy ===== *)
theory FixRoundtrip
  imports FixCore
begin

text \<open>
  The round trip of FIX segments: a dictionary written by \<open>to_bytes\<close> is read back by
  \<open>from_bytes\<close>. There are no length fields: a segment, a group and a container end where the
  next tag does not belong to them or repeats, so the values that survive (\<open>good_entry\<close>,
  \<open>good_segment\<close>) are defined with the tag that comes next.
\<close>

section \<open>What comes next\<close>

text \<open>\<open>None\<close> is the end of the data.\<close>

fun next_is :: "int option \<Rightarrow> bytes \<Rightarrow> bool" where
  "next_is None w \<longleftrightarrow> w = []"
| "next_is (Some t) w \<longleftrightarrow> (\<exists>rest. w = tag_bytes t @ rest)"

fun with_next :: "('a \<Rightarrow> int) \<Rightarrow> 'a list \<Rightarrow> int option \<Rightarrow> ('a \<times> int option) list" where
  "with_next h [] nt = []"
| "with_next h [x] nt = [(x, nt)]"
| "with_next h (x # y # xs) nt = (x, Some (h y)) # with_next h (y # xs) nt"

definition stops_at :: "entries \<Rightarrow> segment \<Rightarrow> int option \<Rightarrow> bool" where
  "stops_at es d nt \<longleftrightarrow>
     (case nt of None \<Rightarrow> True | Some t \<Rightarrow> t \<in> fst ` set d \<or> find_entry es t = None)"

text \<open>A group's fields come in the order of its class, as they are written.\<close>

definition in_order :: "entries \<Rightarrow> segment \<Rightarrow> bool" where
  "in_order es g \<longleftrightarrow> distinct (map (entry_tag \<circ> fst) es) \<and>
     map fst g = filter (\<lambda>t. t \<in> fst ` set g) (map (entry_tag \<circ> fst) es)"

fun good_entry :: "(pystr \<Rightarrow> pystr option) \<Rightarrow> entry_def \<Rightarrow> fixval \<Rightarrow> int option \<Rightarrow> bool" where
  "good_entry fl (EField fd) v nt \<longleftrightarrow> (case v of VField x \<Rightarrow> good_fix fl (f_type fd) x | _ \<Rightarrow> False)"
| "good_entry fl (EGroup cname fd gname es) v nt \<longleftrightarrow>
     (case v of
        VGroups gs \<Rightarrow>
          kind_of (f_type fd) = KInt \<and>
          list_all (\<lambda>p. fst p \<noteq> [] \<and> in_order es (fst p) \<and> stops_at es (fst p) (snd p) \<and>
            list_all (\<lambda>q. case find_entry es (fst (fst q)) of
                None \<Rightarrow> False | Some (d, req) \<Rightarrow> good_entry fl d (snd (fst q)) (snd q))
              (with_next fst (fst p) (snd p)))
            (with_next (fst \<circ> hd) gs nt)
      | _ \<Rightarrow> False)"

definition good_items :: "(pystr \<Rightarrow> pystr option) \<Rightarrow> entries \<Rightarrow> segment \<Rightarrow> int option \<Rightarrow> bool" where
  "good_items fl es d nt \<longleftrightarrow>
     list_all (\<lambda>q. case find_entry es (fst (fst q)) of
         None \<Rightarrow> False | Some (e, req) \<Rightarrow> good_entry fl e (snd (fst q)) (snd q))
       (with_next fst d nt)"

definition good_segment :: "(pystr \<Rightarrow> pystr option) \<Rightarrow> entries \<Rightarrow> segment \<Rightarrow> int option \<Rightarrow> bool" where
  "good_segment fl es d nt \<longleftrightarrow> distinct (map fst d) \<and> stops_at es d nt \<and> good_items fl es d nt"

section \<open>Fields\<close>

lemma byte_of_digit:
  assumes "c < 128" "c \<noteq> d" "d < 128"
  shows "(of_nat c :: byte) \<noteq> of_nat d"
proof
  assume "(of_nat c :: byte) = of_nat d"
  then have "unat (of_nat c :: byte) = unat (of_nat d :: byte)" by simp
  with assms show False by (simp add: unat_of_nat_byte)
qed

lemma tag_text_bytes:
  "SEPARATOR \<notin> set (map of_nat (show_int t) :: bytes)" "SOH \<notin> set (tag_bytes t)"
proof -
  have eq: "(of_nat c :: byte) \<noteq> 61" "(of_nat c :: byte) \<noteq> 1" if "c \<in> set (show_int t)" for c
  proof -
    have "c < 128" using show_int_not_space [OF that] by simp
    moreover have "c \<noteq> 61" "c \<noteq> 1" using show_int_chars [OF that] by (auto simp: is_digit_def)
    ultimately show "(of_nat c :: byte) \<noteq> 61" "(of_nat c :: byte) \<noteq> 1"
      using byte_of_digit [of c 61] byte_of_digit [of c 1] by simp_all
  qed
  then show "SEPARATOR \<notin> set (map of_nat (show_int t) :: bytes)" "SOH \<notin> set (tag_bytes t)"
    by (auto simp: SEPARATOR_def SOH_def tag_bytes_def dest: sym)
qed

lemma find_separator: "py_find (tag_bytes t @ w) [SEPARATOR] = int (length (show_int t))"
  using find_from_first [OF tag_text_bytes(1), of t w 0] by (simp add: py_find_def tag_bytes_def)

lemma read_tag_next: "read_tag (tag_bytes t @ w) = Inr t"
proof -
  have "py_slice (tag_bytes t @ w) 0 (int (length (show_int t))) = map of_nat (show_int t)"
    by (simp add: slice_simps tag_bytes_def)
  then show ?thesis by (simp add: read_tag_def find_separator codec_simps)
qed

lemma tag_bytes_nonempty [simp]: "tag_bytes t \<noteq> []"
  by (simp add: tag_bytes_def)

lemma field_carries:
  assumes "good_fix fl (f_type fd) x"
  obtains b where "field_to_bytes fd x = Inr (int (length (tag_bytes (f_tag fd) @ b)), tag_bytes (f_tag fd) @ b)"
    and "last (tag_bytes (f_tag fd) @ b) \<noteq> SOH"
    and "\<And>w. field_from_bytes fl fd ((tag_bytes (f_tag fd) @ b) @ SOH # w) =
      Inr (int (length (tag_bytes (f_tag fd) @ b) + 1), x)"
proof -
  from fix_pack_unpack [OF assms] obtain b where b: "fix_pack (f_type fd) x = Inr (int (length b), b)"
    "fix_unpack fl (f_type fd) b = Inr (int (length b), x)" "1 \<notin> set b" .
  let ?t = "tag_bytes (f_tag fd)"
  show thesis
  proof (rule that)
    show "field_to_bytes fd x = Inr (int (length (?t @ b)), ?t @ b)"
      by (simp add: field_to_bytes_def b(1))
    show "last (?t @ b) \<noteq> SOH"
      using b(3) by (auto simp: tag_bytes_def SOH_def SEPARATOR_def dest: last_in_set)
    fix w
    have soh: "py_find ((?t @ b) @ SOH # w) [SOH] = int (length (?t @ b))"
      using find_from_first [of SOH "?t @ b" w 0] b(3) tag_text_bytes(2) [of "f_tag fd"]
      by (simp add: py_find_def SOH_def)
    have sep: "py_find ((?t @ b) @ SOH # w) [SEPARATOR] = int (length (show_int (f_tag fd)))"
      using find_separator [of "f_tag fd" "b @ SOH # w"] by simp
    have len: "length ?t = length (show_int (f_tag fd)) + 1"
      by (simp add: tag_bytes_def)
    have "py_slice ((?t @ b) @ SOH # w) (int (length (show_int (f_tag fd))) + 1) (int (length (?t @ b))) = b"
      using py_slice_nat [of "(?t @ b) @ SOH # w" "length ?t" "length (?t @ b)"] len
      by (simp add: add.commute)
    then show "field_from_bytes fl fd ((?t @ b) @ SOH # w) = Inr (int (length (?t @ b) + 1), x)"
      using sep soh b(2) by (simp add: field_from_bytes_def Let_def)
  qed
qed

section \<open>The loops\<close>

definition ended :: "bytes list \<Rightarrow> bytes" where
  "ended bs = concat (map (\<lambda>b. b @ [SOH]) bs)"

lemma ended_simps [simp]: "ended [] = []" "ended (b # bs) = b @ SOH # ended bs"
  by (simp_all add: ended_def)

lemma soh_join_ended: "bs \<noteq> [] \<Longrightarrow> soh_join bs @ [SOH] = ended bs"
  by (induction bs rule: soh_join.induct) simp_all

lemma last_soh_join:
  "bs \<noteq> [] \<Longrightarrow> \<forall>b \<in> set bs. b \<noteq> [] \<and> last b \<noteq> SOH \<Longrightarrow> last (soh_join bs) \<noteq> SOH"
proof (induction bs rule: soh_join.induct)
  case (3 b c bs)
  then have "soh_join (c # bs) \<noteq> []" by (cases bs) auto
  with 3 show ?case by simp
qed simp_all

lemma next_is_ended:
  assumes "list_all2 (\<lambda>x b. \<exists>r. b = tag_bytes (h x) @ r) (x # xs) bs"
  shows "next_is (Some (h x)) (ended bs @ w)"
  using assms by (cases bs) auto

lemma seg_loop_stop:
  assumes "next_is nt w" "\<And>t. nt = Some t \<Longrightarrow> t \<in> fst ` set d \<or> look t = None"
  shows "seg_loop look w d n = Inr (n, d)"
proof (cases nt)
  case None
  with assms(1) show ?thesis by (subst seg_loop.simps) simp
next
  case (Some t)
  with assms(1) obtain rest where w: "w = tag_bytes t @ rest" by auto
  from assms(2) [OF Some] read_tag_next [of t rest] show ?thesis
    by (subst seg_loop.simps) (auto simp: w split: option.split)
qed

text \<open>The items of a dictionary are read one after the other, up to the tag that stops it.\<close>

lemma seg_loop_items:
  assumes "list_all2 (\<lambda>p b. \<exists>f. look (fst (fst p)) = Some f \<and> (\<exists>r. b = tag_bytes (fst (fst p)) @ r) \<and>
      (\<forall>w. next_is (snd p) w \<longrightarrow> f (b @ SOH # w) = Inr (int (length b + 1), snd (fst p))))
      (with_next fst items nt) bs"
    and "distinct (map fst (d @ items))" and "next_is nt w"
    and "\<And>t. nt = Some t \<Longrightarrow> t \<in> fst ` set (d @ items) \<or> look t = None"
  shows "seg_loop look (ended bs @ w) d n = Inr (n + int (length (ended bs)), d @ items)"
  using assms
proof (induction "fst :: int \<times> fixval \<Rightarrow> int" items nt arbitrary: bs d n rule: with_next.induct)
  case (1 nt)
  then have "bs = []" by simp
  with seg_loop_stop [OF "1.prems"(3), of d] "1.prems"(4) show ?case by simp
next
  case (2 x nt)
  then obtain b f r where bs: "bs = [b]" and f: "look (fst x) = Some f" and b: "b = tag_bytes (fst x) @ r"
    and p: "f (b @ SOH # w) = Inr (int (length b + 1), snd x)"
    by (auto simp: list_all2_Cons1)
  have rest: "py_from (b @ SOH # w) (int (length b + 1)) = w"
    using py_from_append [of "b @ [SOH]" w] by simp
  have x: "fst x \<notin> fst ` set d" using "2.prems"(2) by auto
  have "read_tag (b @ SOH # w) = Inr (fst x)"
    unfolding b using read_tag_next [of "fst x" "r @ SOH # w"] by simp
  then have "seg_loop look (b @ SOH # w) d n = seg_loop look w (d @ [x]) (n + int (length b + 1))"
    using f p rest x by (subst seg_loop.simps) (simp del: of_nat_add)
  moreover have "seg_loop look w (d @ [x]) m = Inr (m, d @ [x])" for m
    using "2.prems"(4) by (intro seg_loop_stop [OF "2.prems"(3)]) simp
  ultimately show ?case by (simp add: bs)
next
  case (3 x y xs nt)
  then obtain b bs' f r where bs: "bs = b # bs'" and f: "look (fst x) = Some f" and b: "b = tag_bytes (fst x) @ r"
    and p: "\<And>w. next_is (Some (fst y)) w \<Longrightarrow> f (b @ SOH # w) = Inr (int (length b + 1), snd x)"
    and l: "list_all2 (\<lambda>p b. \<exists>f. look (fst (fst p)) = Some f \<and> (\<exists>r. b = tag_bytes (fst (fst p)) @ r) \<and>
      (\<forall>w. next_is (snd p) w \<longrightarrow> f (b @ SOH # w) = Inr (int (length b + 1), snd (fst p))))
      (with_next fst (y # xs) nt) bs'"
    by (auto simp: list_all2_Cons1)
  let ?w = "ended bs' @ w"
  from l have "next_is (Some (fst y)) ?w"
    by (cases xs) (auto simp: list_all2_Cons1)
  note p = p [OF this]
  have rest: "py_from (b @ SOH # ?w) (int (length b + 1)) = ?w"
    using py_from_append [of "b @ [SOH]" ?w] by simp
  have x: "fst x \<notin> fst ` set d" using "3.prems"(2) by auto
  have "read_tag (b @ SOH # ?w) = Inr (fst x)"
    unfolding b using read_tag_next [of "fst x" "r @ SOH # ?w"] by simp
  then have "seg_loop look (b @ SOH # ?w) d n = seg_loop look ?w (d @ [x]) (n + int (length b + 1))"
    using f p rest x by (subst seg_loop.simps) (simp del: of_nat_add)
  also have "\<dots> = Inr (n + int (length b + 1) + int (length (ended bs')), (d @ [x]) @ y # xs)"
    using "3.prems"(2-4) by (intro "3.hyps" [OF l]) auto
  finally show ?case by (simp add: bs)
qed

lemma groups_loop_step:
  "f (b @ SOH # v) = Inr (int (length b + 1), x) \<Longrightarrow>
   groups_loop f (Suc k) (b @ SOH # v) hs n = groups_loop f k v (hs @ [x]) (n + int (length b + 1))"
  using py_from_append [of "b @ [SOH]" v] by simp

lemma groups_loop_items:
  assumes "list_all2 (\<lambda>p b. (\<exists>r. b = tag_bytes (fst (hd (fst p))) @ r) \<and>
      (\<forall>w. next_is (snd p) w \<longrightarrow> f (b @ SOH # w) = Inr (int (length b + 1), fst p)))
      (with_next (fst \<circ> hd) gs nt) bs"
    and "next_is nt w"
  shows "groups_loop f (length gs) (ended bs @ w) hs n = Inr (n + int (length (ended bs)), hs @ gs)"
  using assms
proof (induction "fst \<circ> hd :: segment \<Rightarrow> int" gs nt arbitrary: bs hs n rule: with_next.induct)
  case (1 nt)
  then show ?case by simp
next
  case (2 x nt)
  then obtain b where bs: "bs = [b]" and p: "f (b @ SOH # w) = Inr (int (length b + 1), x)"
    by (auto simp: list_all2_Cons1)
  from groups_loop_step [where f = f and b = b and k = 0 and hs = hs and n = n, OF p] show ?case by (simp add: bs)
next
  case (3 x y xs nt)
  then obtain b bs' where bs: "bs = b # bs'"
    and p: "\<And>w. next_is (Some (fst (hd y))) w \<Longrightarrow> f (b @ SOH # w) = Inr (int (length b + 1), x)"
    and l: "list_all2 (\<lambda>p b. (\<exists>r. b = tag_bytes (fst (hd (fst p))) @ r) \<and>
      (\<forall>w. next_is (snd p) w \<longrightarrow> f (b @ SOH # w) = Inr (int (length b + 1), fst p)))
      (with_next (fst \<circ> hd) (y # xs) nt) bs'"
    by (auto simp: list_all2_Cons1)
  let ?w = "ended bs' @ w"
  from l have "next_is (Some (fst (hd y))) ?w"
    by (cases xs) (auto simp: list_all2_Cons1)
  note p = p [OF this]
  have "groups_loop f (length (y # xs)) ?w (hs @ [x]) (n + int (length b + 1)) =
      Inr (n + int (length b + 1) + int (length (ended bs')), (hs @ [x]) @ y # xs)"
    using "3.prems"(2) by (intro "3.hyps" [OF l])
  with groups_loop_step [where f = f and b = b and k = "length (y # xs)" and hs = hs and n = n, OF p] show ?case
    by (simp add: bs del: groups_loop.simps)
qed

section \<open>Entries\<close>

definition carries_entry ::
  "(pystr \<Rightarrow> pystr option) \<Rightarrow> entry_def \<Rightarrow> fixval \<Rightarrow> int option \<Rightarrow> bytes \<Rightarrow> bool" where
  "carries_entry fl e v nt b \<longleftrightarrow> entry_to_bytes e v = Inr b \<and> (\<exists>r. b = tag_bytes (entry_tag e) @ r) \<and>
     last b \<noteq> SOH \<and>
     (\<forall>w. next_is nt w \<longrightarrow> entry_from_bytes fl e (b @ SOH # w) = Inr (int (length b + 1), v))"

definition segment_look :: "(pystr \<Rightarrow> pystr option) \<Rightarrow> entries \<Rightarrow> int \<Rightarrow> (bytes \<Rightarrow> (int \<times> fixval) result) option" where
  "segment_look fl es tag =
     (case find_entry es tag of None \<Rightarrow> None | Some (d, req) \<Rightarrow> Some (entry_from_bytes fl d))"

lemma segment_from_bytes_look: "segment_from_bytes fl es bs = seg_loop (segment_look fl es) bs [] 0"
  by (simp add: segment_from_bytes_def segment_look_def [abs_def])

lemma segment_look_None: "segment_look fl es tag = None \<longleftrightarrow> find_entry es tag = None"
  by (auto simp: segment_look_def split: option.splits)

lemma list_all2_choice: "(\<And>x. x \<in> set xs \<Longrightarrow> \<exists>y. R x y) \<Longrightarrow> \<exists>ys. list_all2 R xs ys"
proof (induction xs)
  case (Cons x xs)
  from Cons.prems obtain y where "R x y" by force
  moreover from Cons obtain ys where "list_all2 R xs ys" by force
  ultimately show ?case by (intro exI [of _ "y # ys"]) simp
qed (auto intro: exI [of _ "[]"])

lemma list_all2_right: "list_all2 R xs ys \<Longrightarrow> (\<And>x y. R x y \<Longrightarrow> P y) \<Longrightarrow> \<forall>y \<in> set ys. P y"
  by (induction rule: list_all2_induct) auto

lemma map_fst_with_next [simp]: "map fst (with_next h xs nt) = xs"
  by (induction h xs nt rule: with_next.induct) simp_all

lemma length_with_next [simp]: "length (with_next h xs nt) = length xs"
  by (metis length_map map_fst_with_next)

lemma items_bytes:
  assumes "good_items fl es d nt"
    and IH: "\<And>t e req x n. find_entry es t = Some (e, req) \<Longrightarrow> good_entry fl e x n \<Longrightarrow> \<exists>b. carries_entry fl e x n b"
  shows "\<exists>bs. list_all2 (\<lambda>q b. \<exists>e req. find_entry es (fst (fst q)) = Some (e, req) \<and>
      carries_entry fl e (snd (fst q)) (snd q) b) (with_next fst d nt) bs"
proof (rule list_all2_choice)
  fix q
  assume "q \<in> set (with_next fst d nt)"
  with assms(1) obtain e req where e: "find_entry es (fst (fst q)) = Some (e, req)"
    and g: "good_entry fl e (snd (fst q)) (snd q)"
    by (auto simp: good_items_def list_all_iff split: option.splits)
  from IH [OF this] e show "\<exists>b e req. find_entry es (fst (fst q)) = Some (e, req) \<and>
      carries_entry fl e (snd (fst q)) (snd q) b"
    by blast
qed

lemma items_parse:
  assumes l: "list_all2 (\<lambda>q b. \<exists>e req. find_entry es (fst (fst q)) = Some (e, req) \<and>
      carries_entry fl e (snd (fst q)) (snd q) b) (with_next fst d nt) bs"
    and "distinct (map fst d)" "stops_at es d nt" "next_is nt w"
  shows "segment_from_bytes fl es (ended bs @ w) = Inr (int (length (ended bs)), d)"
proof -
  have "list_all2 (\<lambda>p b. \<exists>f. segment_look fl es (fst (fst p)) = Some f \<and> (\<exists>r. b = tag_bytes (fst (fst p)) @ r) \<and>
      (\<forall>w. next_is (snd p) w \<longrightarrow> f (b @ SOH # w) = Inr (int (length b + 1), snd (fst p))))
      (with_next fst d nt) bs"
    using l
  proof (rule list_all2_mono)
    fix p b
    assume "\<exists>e req. find_entry es (fst (fst p)) = Some (e, req) \<and> carries_entry fl e (snd (fst p)) (snd p) b"
    then obtain e req where e: "find_entry es (fst (fst p)) = Some (e, req)"
      and c: "carries_entry fl e (snd (fst p)) (snd p) b" by blast
    from find_entry_mem [OF e] have "entry_tag e = fst (fst p)" by simp
    with e c show "\<exists>f. segment_look fl es (fst (fst p)) = Some f \<and> (\<exists>r. b = tag_bytes (fst (fst p)) @ r) \<and>
      (\<forall>w. next_is (snd p) w \<longrightarrow> f (b @ SOH # w) = Inr (int (length b + 1), snd (fst p)))"
      by (auto simp: segment_look_def carries_entry_def)
  qed
  from seg_loop_items [OF this _ assms(4), of "[]" 0] assms(2,3) show ?thesis
    by (cases nt) (simp_all add: segment_from_bytes_look stops_at_def segment_look_None)
qed

lemma find_entry_distinct:
  assumes "distinct (map (entry_tag \<circ> fst) es)" "p \<in> set es"
  shows "find_entry es (entry_tag (fst p)) = Some p"
proof -
  from assms(2) have "find_entry es (entry_tag (fst p)) \<noteq> None"
    unfolding find_entry_def find_None_iff set_rev by blast
  then obtain q where q: "find_entry es (entry_tag (fst p)) = Some q" by auto
  from find_entry_mem [OF q] assms have "q = p"
    by (metis comp_apply distinct_map inj_onD)
  with q show ?thesis by simp
qed

lemma ordered_parts:
  assumes "in_order es g"
    and "list_all2 (\<lambda>p b. \<exists>e req. find_entry es (fst p) = Some (e, req) \<and> entry_to_bytes e (snd p) = Inr b) g bs"
  shows "group_to_bytes es g = Inr (soh_join bs)"
proof -
  have dist: "distinct (map fst g)" and des: "distinct (map (entry_tag \<circ> fst) es)"
    and ord: "map fst g = filter (\<lambda>t. t \<in> fst ` set g) (map (entry_tag \<circ> fst) es)"
    using assms(1) by (auto simp: in_order_def)
  let ?B = "\<lambda>t. the (map_of (zip (map fst g) bs) t)"
  have len: "length bs = length g" using assms(2) by (simp add: list_all2_lengthD)
  have B: "map ?B (map fst g) = bs"
  proof (rule nth_equalityI)
    fix i
    assume "i < length (map ?B (map fst g))"
    then show "map ?B (map fst g) ! i = bs ! i"
      using map_of_zip_nth [of "map fst g" bs i] dist len by simp
  qed (simp add: len)
  have enc: "entry_to_bytes d x = Inr (?B (entry_tag d))"
    if p: "(d, req) \<in> set es" and x: "map_of g (entry_tag d) = Some x" for d req x
  proof -
    from x have "(entry_tag d, x) \<in> set g" by (rule map_of_SomeD)
    then obtain i where i: "i < length g" "g ! i = (entry_tag d, x)" by (metis in_set_conv_nth)
    from list_all2_nthD [OF assms(2) i(1)] i(2) find_entry_distinct [OF des p]
    have "entry_to_bytes d x = Inr (bs ! i)" by auto
    moreover have "?B (entry_tag d) = bs ! i"
      using map_of_zip_nth [of "map fst g" bs i] dist len i by simp
    ultimately show ?thesis by simp
  qed
  let ?h = "\<lambda>p. if entry_tag (fst p) \<in> fst ` set g then [?B (entry_tag (fst p))] else []"
  have "map_result (\<lambda>p. case p of (d, req) \<Rightarrow>
          (case map_of g (entry_tag d) of
             None \<Rightarrow> Inr [] | Some x \<Rightarrow> rbind (entry_to_bytes d x) (\<lambda>bs. Inr [bs]))) es = Inr (map ?h es)"
  proof (rule map_result_all)
    fix p
    assume p: "p \<in> set es"
    obtain d req where d: "p = (d, req)" by (cases p)
    show "(case p of (d, req) \<Rightarrow>
          (case map_of g (entry_tag d) of
             None \<Rightarrow> Inr [] | Some x \<Rightarrow> rbind (entry_to_bytes d x) (\<lambda>bs. Inr [bs]))) = Inr (?h p)"
    proof (cases "map_of g (entry_tag d)")
      case None
      then have "entry_tag d \<notin> fst ` set g" by (simp add: map_of_eq_None_iff)
      with None show ?thesis unfolding d by simp
    next
      case (Some x)
      then have "entry_tag d \<in> fst ` set g" by (metis map_of_eq_None_iff option.distinct(1))
      with Some enc [OF p [unfolded d] Some] show ?thesis by (simp add: d)
    qed
  qed
  moreover have concat_h: "concat (map ?h xs) = map ?B (filter (\<lambda>t. t \<in> fst ` set g) (map (entry_tag \<circ> fst) xs))" for xs
    by (induction xs) simp_all
  moreover have "concat (map ?h es) = bs"
    using B by (simp only: concat_h ord [symmetric])
  ultimately show ?thesis
    unfolding group_to_bytes_def by (simp only: rbind.simps)
qed

lemma list_all2_map_fst:
  "list_all2 (\<lambda>q b. R (fst q) b) qs bs \<Longrightarrow> list_all2 R (map fst qs) bs"
  by (simp add: list_all2_map1)

lemma group_carries:
  assumes "g \<noteq> []" "in_order es g" "stops_at es g nt" "good_items fl es g nt"
    and IH: "\<And>t e req x n. find_entry es t = Some (e, req) \<Longrightarrow> good_entry fl e x n \<Longrightarrow> \<exists>b. carries_entry fl e x n b"
  shows "\<exists>b. group_to_bytes es g = Inr b \<and> (\<exists>r. b = tag_bytes (fst (hd g)) @ r) \<and> last b \<noteq> SOH \<and>
    (\<forall>w. next_is nt w \<longrightarrow> segment_from_bytes fl es (b @ SOH # w) = Inr (int (length b + 1), g))"
proof -
  have "\<exists>bs. list_all2 (\<lambda>q b. \<exists>e req. find_entry es (fst (fst q)) = Some (e, req) \<and>
      carries_entry fl e (snd (fst q)) (snd q) b) (with_next fst g nt) bs"
    by (rule items_bytes [OF assms(4)]) (rule IH)
  then obtain bs where
    bs: "list_all2 (\<lambda>q b. \<exists>e req. find_entry es (fst (fst q)) = Some (e, req) \<and>
      carries_entry fl e (snd (fst q)) (snd q) b) (with_next fst g nt) bs" by blast
  have "list_all2 (\<lambda>q b. \<exists>e req. find_entry es (fst (fst q)) = Some (e, req) \<and>
      entry_to_bytes e (snd (fst q)) = Inr b) (with_next fst g nt) bs"
    using bs by (rule list_all2_mono) (auto simp: carries_entry_def)
  from list_all2_map_fst [OF this] have enc: "group_to_bytes es g = Inr (soh_join bs)"
    by (intro ordered_parts [OF assms(2)]) simp
  have ne: "bs \<noteq> []" using list_all2_lengthD [OF bs] assms(1) by auto
  obtain b bs' where b: "bs = b # bs'" using ne by (cases bs) auto
  have dist: "distinct (map fst g)"
    using assms(2) by (auto simp: in_order_def)
  have parse: "segment_from_bytes fl es (soh_join bs @ SOH # w) = Inr (int (length (soh_join bs) + 1), g)"
    if "next_is nt w" for w
    using items_parse [OF bs dist assms(3) that] soh_join_ended [OF ne]
    by (metis append.assoc append_Cons append_Nil length_append_singleton Suc_eq_plus1)
  obtain x g' where g: "g = x # g'" using assms(1) by (cases g) auto
  from bs have "\<exists>r. b = tag_bytes (fst x) @ r"
    unfolding g b by (cases g') (auto simp: carries_entry_def dest: find_entry_mem)
  then have "\<exists>r. soh_join bs = tag_bytes (fst (hd g)) @ r"
    unfolding g b by (cases bs') auto
  moreover have "last (soh_join bs) \<noteq> SOH"
  proof (rule last_soh_join [OF ne])
    show "\<forall>b \<in> set bs. b \<noteq> [] \<and> last b \<noteq> SOH"
      using bs by (rule list_all2_right) (auto simp: carries_entry_def)
  qed
  ultimately show ?thesis using enc parse by blast
qed

lemma size_group_entry: "find_entry es t = Some (d, req) \<Longrightarrow> size d < size (EGroup cname fd gname es)"
proof -
  assume "find_entry es t = Some (d, req)"
  then have "(d, req) \<in> set es" by (blast dest: find_entry_mem)
  then show ?thesis by (induction es) auto
qed

theorem entry_carries: "good_entry fl e v nt \<Longrightarrow> \<exists>b. carries_entry fl e v nt b"
proof (induction e arbitrary: v nt rule: measure_induct_rule [of size])
  case (less e)
  show ?case
  proof (cases e)
    case (EField fd)
    with less.prems obtain x where x: "v = VField x" "good_fix fl (f_type fd) x"
      by (auto split: fixval.splits)
    from field_carries [OF x(2)] obtain b where
      "field_to_bytes fd x = Inr (int (length (tag_bytes (f_tag fd) @ b)), tag_bytes (f_tag fd) @ b)"
      "last (tag_bytes (f_tag fd) @ b) \<noteq> SOH"
      "\<And>w. field_from_bytes fl fd ((tag_bytes (f_tag fd) @ b) @ SOH # w) =
        Inr (int (length (tag_bytes (f_tag fd) @ b) + 1), x)" by blast
    then show ?thesis
      by (intro exI [of _ "tag_bytes (f_tag fd) @ b"])
        (simp add: carries_entry_def EField x(1) entry_tag_def)
  next
    case (EGroup cname fd gname es)
    with less.prems obtain gs where gs: "v = VGroups gs" and int: "kind_of (f_type fd) = KInt"
      and good: "\<forall>p \<in> set (with_next (fst \<circ> hd) gs nt). fst p \<noteq> [] \<and> in_order es (fst p) \<and>
        stops_at es (fst p) (snd p) \<and> good_items fl es (fst p) (snd p)"
      by (auto simp: list_all_iff good_items_def split: fixval.splits)
    let ?n = "FInt (int (length gs))"
    have "good_fix fl (f_type fd) ?n" using int by (simp add: good_fix_def)
    from field_carries [OF this] obtain c where
      count: "field_to_bytes fd ?n = Inr (int (length (tag_bytes (f_tag fd) @ c)), tag_bytes (f_tag fd) @ c)"
      and last: "last (tag_bytes (f_tag fd) @ c) \<noteq> SOH"
      and count': "\<And>w. field_from_bytes fl fd ((tag_bytes (f_tag fd) @ c) @ SOH # w) =
        Inr (int (length (tag_bytes (f_tag fd) @ c) + 1), ?n)" by blast
    let ?c = "tag_bytes (f_tag fd) @ c"
    have IH: "\<exists>b. carries_entry fl d x m b" if "find_entry es t = Some (d, req)" "good_entry fl d x m" for t d req x m
      using size_group_entry [OF that(1)] that(2) unfolding EGroup by (intro less.IH) (simp_all add: EGroup)
    have "\<exists>bs. list_all2 (\<lambda>p b. group_to_bytes es (fst p) = Inr b \<and> (\<exists>r. b = tag_bytes (fst (hd (fst p))) @ r) \<and> last b \<noteq> SOH \<and>
        (\<forall>w. next_is (snd p) w \<longrightarrow> segment_from_bytes fl es (b @ SOH # w) = Inr (int (length b + 1), fst p)))
        (with_next (fst \<circ> hd) gs nt) bs"
    proof (rule list_all2_choice)
      fix p
      assume "p \<in> set (with_next (fst \<circ> hd) gs nt)"
      with good have p: "fst p \<noteq> []" "in_order es (fst p)" "stops_at es (fst p) (snd p)" "good_items fl es (fst p) (snd p)"
        by blast+
      show "\<exists>b. group_to_bytes es (fst p) = Inr b \<and> (\<exists>r. b = tag_bytes (fst (hd (fst p))) @ r) \<and> last b \<noteq> SOH \<and>
        (\<forall>w. next_is (snd p) w \<longrightarrow> segment_from_bytes fl es (b @ SOH # w) = Inr (int (length b + 1), fst p))"
        by (rule group_carries [OF p]) (rule IH)
    qed
    then obtain bs where bs: "list_all2 (\<lambda>p b. group_to_bytes es (fst p) = Inr b \<and> (\<exists>r. b = tag_bytes (fst (hd (fst p))) @ r) \<and> last b \<noteq> SOH \<and>
        (\<forall>w. next_is (snd p) w \<longrightarrow> segment_from_bytes fl es (b @ SOH # w) = Inr (int (length b + 1), fst p)))
        (with_next (fst \<circ> hd) gs nt) bs" by blast
    have "list_all2 (\<lambda>p b. group_to_bytes es (fst p) = Inr b) (with_next (fst \<circ> hd) gs nt) bs"
      using bs by (rule list_all2_mono) blast
    from list_all2_map_fst [OF this] have "list_all2 (\<lambda>g b. group_to_bytes es g = Inr b) gs bs" by simp
    then have enc: "map_result (group_to_bytes es) gs = Inr bs"
      by induction simp_all
    have groups: "groups_loop (segment_from_bytes fl es) (length gs) (ended bs @ w) [] n =
        Inr (n + int (length (ended bs)), gs)" if "next_is nt w" for w n
      using groups_loop_items [where f = "segment_from_bytes fl es" and hs = "[]" and n = n, OF _ that] bs
      by (simp add: list_all2_mono)
    have join: "soh_join (?c # bs) @ SOH # w = ?c @ SOH # ended bs @ w" for w
      using soh_join_ended [of "?c # bs"] by simp
    show ?thesis
    proof (intro exI [of _ "soh_join (?c # bs)"], unfold carries_entry_def, intro conjI allI impI)
      show "entry_to_bytes e v = Inr (soh_join (?c # bs))"
        using enc count int
        by (simp add: EGroup gs field_from_value_def fix_isinstance_def group_to_bytes_def [abs_def])
      show "\<exists>r. soh_join (?c # bs) = tag_bytes (entry_tag e) @ r"
        by (cases bs) (simp_all add: EGroup entry_tag_def)
      have "\<forall>b \<in> set bs. b \<noteq> [] \<and> last b \<noteq> SOH"
        using bs by (rule list_all2_right) auto
      with last show "last (soh_join (?c # bs)) \<noteq> SOH"
        by (intro last_soh_join) simp_all
      fix w
      assume w: "next_is nt w"
      have len: "int (length (soh_join (?c # bs)) + 1) = int (length ?c + 1) + int (length (ended bs))"
        using arg_cong [OF join [of "[]"], of length] by simp
      have rest: "py_from (tag_bytes (f_tag fd) @ c @ SOH # ended bs @ w)
          (int (Suc (length (tag_bytes (f_tag fd)) + length c))) = ended bs @ w"
        using py_from_append [of "?c @ [SOH]" "ended bs @ w"] by (simp del: of_nat_add of_nat_Suc)
      show "entry_from_bytes fl e (soh_join (?c # bs) @ SOH # w) = Inr (int (length (soh_join (?c # bs)) + 1), v)"
        using count' [of "ended bs @ w"] groups [OF w, of "int (length ?c + 1)"]
        unfolding join len segment_from_bytes_def [abs_def]
        by (simp add: EGroup gs rest del: of_nat_add of_nat_Suc)
    qed
  qed
qed

end
