(* ===== verification/FixMessage.thy ===== *)
theory FixMessage
  imports FixRoundtrip
begin

text \<open>
  The dictionary side of \<open>fix/core.py\<close> - keys by tag or name, assignment, reading, attributes,
  validation - and \<open>Message\<close> itself: the registry of message classes, the three segments, their
  serialization and parsing, and the dispatch on the message type. Names are ASCII identifiers;
  a key of non-ASCII decimal digits is not modelled.
\<close>

section \<open>Keys\<close>

text \<open>\<open>Field.Def\<close>, filled by \<open>Field.__init_subclass__\<close>.\<close>

type_synonym field_defs = "fkey \<rightharpoonup> fielddef"

definition field_init_subclass :: "fielddef \<Rightarrow> field_defs \<Rightarrow> field_defs" where
  "field_init_subclass fd defs = defs(KTag (f_tag fd) \<mapsto> fd, KName (f_name fd) \<mapsto> fd)"

definition get_tag :: "field_defs \<Rightarrow> string \<Rightarrow> int result" where
  "get_tag defs key = (case defs (KName key) of None \<Rightarrow> Inl KeyError | Some fd \<Rightarrow> Inr (f_tag fd))"

fun key_to_tag :: "field_defs \<Rightarrow> fkey \<Rightarrow> int result" where
  "key_to_tag defs (KTag t) = Inr t"
| "key_to_tag defs (KName s) = (if is_decimal s then parse_int (lit s) else get_tag defs s)"

definition from_tag_value :: "field_defs \<Rightarrow> fkey \<Rightarrow> fix_arg \<Rightarrow> (fielddef \<times> fix_value) result" where
  "from_tag_value defs key a =
     (case defs key of
        None \<Rightarrow> Inl KeyError
      | Some fd \<Rightarrow> rbind (field_from_value fd a) (\<lambda>v. Inr (fd, v)))"

section \<open>Assignment\<close>

text \<open>The loop of \<open>DataSegment.from_value\<close>: \<open>data_container[key] = value\<close> for every item.\<close>

fun set_items ::
  "field_defs \<Rightarrow> (int \<Rightarrow> (fix_arg \<Rightarrow> fixval result) option) \<Rightarrow> (fkey \<times> fix_arg) list \<Rightarrow> segment \<Rightarrow>
     segment result" where
  "set_items defs look [] d = Inr d"
| "set_items defs look ((k, a) # xs) d =
     rbind (key_to_tag defs k) (\<lambda>tag.
       case look tag of
         None \<Rightarrow> Inl KeyError
       | Some f \<Rightarrow> rbind (f a) (\<lambda>v. set_items defs look xs (dict_set d tag v)))"

lemma set_items_cong [fundef_cong]:
  "defs = defs' \<Longrightarrow> xs = ys \<Longrightarrow> d = e \<Longrightarrow> (\<And>t. look t = look' t) \<Longrightarrow>
   set_items defs look xs d = set_items defs' look' ys e"
  by presburger

text \<open>The items of what a segment class is made from, and what iterating over the value given to
  a container yields.\<close>

fun segment_items :: "string \<Rightarrow> fix_arg \<Rightarrow> (fkey \<times> fix_arg) list result" where
  "segment_items cls (ADict d) = Inr d"
| "segment_items cls (ASegment c d) =
     (if c = cls then Inr (map (\<lambda>(t, v). (KTag t, v)) d) else Inl TypeError)"
| "segment_items cls _ = Inl TypeError"

fun iterate :: "fix_arg \<Rightarrow> fix_arg list result" where
  "iterate (AList xs) = Inr xs"
| "iterate (ADict d) = Inr (map (\<lambda>(k, v). case k of KTag t \<Rightarrow> AVal (FInt t) | KName s \<Rightarrow> AVal (FStr (lit s))) d)"
| "iterate (AVal (FStr s)) = Inr (map (\<lambda>c. AVal (FStr [c])) s)"
| "iterate (ASegment c d) = Inl KeyError"
| "iterate _ = Inl TypeError"

fun entry_from_value :: "field_defs \<Rightarrow> entry_def \<Rightarrow> fix_arg \<Rightarrow> fixval result" where
  "entry_from_value defs (EField fd) a = rbind (field_from_value fd a) (\<lambda>v. Inr (VField v))"
| "entry_from_value defs (EGroup cname fd gname es) a =
     rbind (iterate a) (\<lambda>xs.
     rbind (map_result (\<lambda>x. rbind (segment_items gname x) (\<lambda>items.
              set_items defs (\<lambda>tag. case find_entry es tag of
                 None \<Rightarrow> None | Some (d, req) \<Rightarrow> Some (\<lambda>b. entry_from_value defs d b)) items [])) xs)
       (\<lambda>gs. Inr (VGroups gs)))"

definition segment_setitem ::
  "field_defs \<Rightarrow> entries \<Rightarrow> fkey \<Rightarrow> fix_arg \<Rightarrow> segment \<Rightarrow> segment result" where
  "segment_setitem defs es key a d =
     rbind (key_to_tag defs key) (\<lambda>tag.
       case find_entry es tag of
         None \<Rightarrow> Inl KeyError
       | Some (e, req) \<Rightarrow> rbind (entry_from_value defs e a) (\<lambda>v. Inr (dict_set d tag v)))"

definition segment_from_value :: "field_defs \<Rightarrow> string \<Rightarrow> entries \<Rightarrow> fix_arg \<Rightarrow> segment result" where
  "segment_from_value defs cls es a =
     rbind (segment_items cls a) (\<lambda>items.
       set_items defs (\<lambda>tag. map_option (\<lambda>p. entry_from_value defs (fst p)) (find_entry es tag)) items [])"

section \<open>Reading\<close>

datatype fix_got = GotValue fix_value | GotGroups "segment list" | GotNone | GotPlain fix_arg

definition segment_getitem :: "field_defs \<Rightarrow> entries \<Rightarrow> fkey \<Rightarrow> segment \<Rightarrow> fix_got result" where
  "segment_getitem defs es key d =
     rbind (key_to_tag defs key) (\<lambda>tag.
       case find_entry es tag of
         None \<Rightarrow> Inl KeyError
       | Some (e, req) \<Rightarrow>
           (case map_of d tag of
              Some (VField x) \<Rightarrow> Inr (GotValue x)
            | Some (VGroups gs) \<Rightarrow> Inr (GotGroups gs)
            | None \<Rightarrow> (case e of
                EField fd \<Rightarrow> Inr (GotValue (fix_default (f_type fd))) | _ \<Rightarrow> Inr GotNone)))"

definition segment_contains :: "field_defs \<Rightarrow> fkey \<Rightarrow> segment \<Rightarrow> bool result" where
  "segment_contains defs key d = rbind (key_to_tag defs key) (\<lambda>tag. Inr (tag \<in> fst ` set d))"

text \<open>Attributes: an object is its dictionary and its plain attributes. \<open>group_tag\<close> is
  \<open>GroupNameToFieldNameMapping\<close>.\<close>

type_synonym segobj = "segment \<times> (string \<times> fix_arg) list"

definition is_entry_name :: "entries \<Rightarrow> string \<Rightarrow> bool" where
  "is_entry_name es name \<longleftrightarrow> name \<in> (\<lambda>p. f_name (entry_field (fst p))) ` set es"

fun group_names :: "entries \<Rightarrow> (string \<times> int) list" where
  "group_names [] = []"
| "group_names ((EField fd, r) # es) = group_names es"
| "group_names ((EGroup cname fd gname ges, r) # es) = (cname, f_tag fd) # group_names es"

definition group_tag :: "entries \<Rightarrow> string \<Rightarrow> int option" where
  "group_tag es name = map_of (rev (group_names es)) name"

definition segment_getattr :: "field_defs \<Rightarrow> entries \<Rightarrow> string \<Rightarrow> segobj \<Rightarrow> fix_got result" where
  "segment_getattr defs es name obj =
     (case map_of (snd obj) name of
        Some a \<Rightarrow> Inr (GotPlain a)
      | None \<Rightarrow>
          (case group_tag es name of
             Some tag \<Rightarrow> segment_getitem defs es (KTag tag) (fst obj)
           | None \<Rightarrow>
               if is_entry_name es name then segment_getitem defs es (KName name) (fst obj)
               else Inl KeyError))"

definition segment_setattr ::
  "field_defs \<Rightarrow> entries \<Rightarrow> string \<Rightarrow> fix_arg \<Rightarrow> segobj \<Rightarrow> segobj result" where
  "segment_setattr defs es name a obj =
     (if \<not> is_entry_name es name then Inr (fst obj, dict_set (snd obj) name a)
      else rbind (segment_setitem defs es
                    (case group_tag es name of Some tag \<Rightarrow> KTag tag | None \<Rightarrow> KName name) a (fst obj))
             (\<lambda>d. Inr (d, snd obj)))"

text \<open>The class method \<open>contains\<close> with a name, and \<open>validate\<close> of a segment and of a container.\<close>

definition class_contains :: "entries \<Rightarrow> string \<Rightarrow> bool" where
  "class_contains es name \<longleftrightarrow> is_entry_name es name \<or> group_tag es name \<noteq> None"

definition required :: "entries \<Rightarrow> int list" where
  "required es = map (entry_tag \<circ> fst) (filter snd es)"

definition segment_validate :: "entries \<Rightarrow> segment \<Rightarrow> unit result" where
  "segment_validate es d =
     (if filter (\<lambda>t. t \<notin> fst ` set d) (required es) \<noteq> [] then Inl ValueError else Inr ())"

fun container_validate :: "entries \<Rightarrow> segment list \<Rightarrow> unit result" where
  "container_validate es [] = Inr ()"
| "container_validate es (g # gs) = rbind (segment_validate es g) (\<lambda>_. container_validate es gs)"

section \<open>Message classes\<close>

datatype MessageSegments = HEADER | BODY | TRAILER

record fix_class =
  fc_name :: pystr
  fc_type :: pystr
  fc_category :: pystr
  fc_header :: "string \<times> entries"
  fc_body :: "string \<times> entries"
  fc_trailer :: "string \<times> entries"

text \<open>\<open>SegmentCls\<close>: the name of a segment's class, and its entries.\<close>

fun SegmentCls :: "fix_class \<Rightarrow> MessageSegments \<Rightarrow> string \<times> entries" where
  "SegmentCls c HEADER = fc_header c"
| "SegmentCls c BODY = fc_body c"
| "SegmentCls c TRAILER = fc_trailer c"

type_synonym fix_registry = "pystr \<rightharpoonup> fix_class"

text \<open>\<open>Message.__init_subclass__\<close>: a class without all the mandatory keywords is not registered.\<close>

definition message_init_subclass :: "fix_class option \<Rightarrow> fix_registry \<Rightarrow> fix_registry" where
  "message_init_subclass kw reg =
     (case kw of None \<Rightarrow> reg | Some c \<Rightarrow> reg(fc_name c \<mapsto> c, fc_type c \<mapsto> c))"

abbreviation seg_entries :: "fix_class \<Rightarrow> MessageSegments \<Rightarrow> entries" where
  "seg_entries c s \<equiv> snd (SegmentCls c s)"

record fix_message =
  fm_class :: fix_class
  fm_header :: segobj
  fm_body :: segobj
  fm_trailer :: segobj

text \<open>What the constructor is given for a segment: an instance of its class, or anything else.\<close>

datatype seg_arg = Instance segobj | Value fix_arg

definition init_segment ::
  "field_defs \<Rightarrow> fix_class \<Rightarrow> (MessageSegments \<Rightarrow> seg_arg option) \<Rightarrow> MessageSegments \<Rightarrow> segobj result" where
  "init_segment defs c args s =
     (case args s of
        None \<Rightarrow> Inr ([], [])
      | Some (Instance obj) \<Rightarrow> Inr obj
      | Some (Value a) \<Rightarrow>
          rbind (segment_from_value defs (fst (SegmentCls c s)) (seg_entries c s) a) (\<lambda>d. Inr (d, [])))"

definition fix_message_init ::
  "field_defs \<Rightarrow> fix_class \<Rightarrow> (MessageSegments \<Rightarrow> seg_arg option) \<Rightarrow> fix_message result" where
  "fix_message_init defs c args =
     rbind (init_segment defs c args HEADER) (\<lambda>h.
     rbind (init_segment defs c args BODY) (\<lambda>b.
     rbind (init_segment defs c args TRAILER) (\<lambda>t.
       Inr \<lparr>fm_class = c, fm_header = h, fm_body = b, fm_trailer = t\<rparr>)))"

definition HEART_BEAT_MSG :: pystr where "HEART_BEAT_MSG = lit ''0''"
definition LOGIN_MSG :: pystr where "LOGIN_MSG = lit ''A''"
definition LOGOUT_MSG :: pystr where "LOGOUT_MSG = lit ''5''"

definition fix_is_heartbeat :: "fix_message \<Rightarrow> bool" where
  "fix_is_heartbeat m \<longleftrightarrow> fc_type (fm_class m) = HEART_BEAT_MSG"

definition fix_is_logout :: "fix_message \<Rightarrow> bool" where
  "fix_is_logout m \<longleftrightarrow> fc_type (fm_class m) = LOGOUT_MSG"

text \<open>\<open>Message.__getattr__\<close> and \<open>__setattr__\<close>, for names other than those of the segments: the
  fields of the body. \<open>None\<close> in the result of \<open>__setattr__\<close> is an attribute of the object.\<close>

definition fix_message_getattr :: "field_defs \<Rightarrow> string \<Rightarrow> fix_message \<Rightarrow> fix_got result" where
  "fix_message_getattr defs name m =
     (if class_contains (seg_entries (fm_class m) BODY) name
      then segment_getattr defs (seg_entries (fm_class m) BODY) name (fm_body m) else Inl KeyError)"

definition fix_message_setattr ::
  "field_defs \<Rightarrow> string \<Rightarrow> fix_arg \<Rightarrow> fix_message \<Rightarrow> fix_message option result" where
  "fix_message_setattr defs name a m =
     (if class_contains (seg_entries (fm_class m) BODY) name
      then rbind (segment_setattr defs (seg_entries (fm_class m) BODY) name a (fm_body m))
             (\<lambda>b. Inr (Some (m\<lparr>fm_body := b\<rparr>)))
      else Inr None)"

fun segment_of :: "fix_message \<Rightarrow> MessageSegments \<Rightarrow> segobj" where
  "segment_of m HEADER = fm_header m"
| "segment_of m BODY = fm_body m"
| "segment_of m TRAILER = fm_trailer m"

fun fix_validate :: "MessageSegments list \<Rightarrow> fix_message \<Rightarrow> unit result" where
  "fix_validate [] m = Inr ()"
| "fix_validate (s # ss) m =
     rbind (segment_validate (seg_entries (fm_class m) s) (fst (segment_of m s))) (\<lambda>_. fix_validate ss m)"

section \<open>Serialization and parsing\<close>

definition with_soh :: "bytes \<Rightarrow> bytes" where
  "with_soh bs = (if bs \<noteq> [] \<and> last bs = SOH then bs else bs @ [SOH])"

definition fix_to_bytes :: "fix_message packer" where
  "fix_to_bytes m =
     rbind (map_result (\<lambda>s. segment_to_bytes (seg_entries (fm_class m) s) (fst (segment_of m s)))
              [HEADER, BODY, TRAILER]) (\<lambda>all_bytes.
       let bs = with_soh (soh_join (filter (\<lambda>b. b \<noteq> []) all_bytes)) in Inr (int (length bs), bs))"

definition fix_from_bytes_as :: "(pystr \<Rightarrow> pystr option) \<Rightarrow> fix_class \<Rightarrow> fix_message unpacker" where
  "fix_from_bytes_as fl c bs =
     rbind (segment_from_bytes fl (seg_entries c HEADER) bs) (\<lambda>(i, h).
     rbind (segment_from_bytes fl (seg_entries c BODY) (py_from bs i)) (\<lambda>(j, b).
     rbind (segment_from_bytes fl (seg_entries c TRAILER) (py_from (py_from bs i) j)) (\<lambda>(k, t).
       Inr (i + j + k, \<lparr>fm_class = c, fm_header = (h, []), fm_body = (b, []), fm_trailer = (t, [])\<rparr>))))"

definition MSG_TYPE_TAG :: bytes where "MSG_TYPE_TAG = [51, 53, 61]"

definition get_msg_type :: "bytes \<Rightarrow> pystr result" where
  "get_msg_type bs =
     (let start = py_find bs MSG_TYPE_TAG + 2; stop = py_find_after bs [SOH] (nat start)
      in decode Ascii (py_slice bs (start + 1) stop))"

definition fix_from_bytes :: "(pystr \<Rightarrow> pystr option) \<Rightarrow> fix_registry \<Rightarrow> fix_message unpacker" where
  "fix_from_bytes fl reg bs =
     rbind (get_msg_type bs) (\<lambda>t.
       case reg t of None \<Rightarrow> Inl KeyError | Some c \<Rightarrow> fix_from_bytes_as fl c bs)"

section \<open>What a message carries\<close>

definition first_tag :: "segment \<Rightarrow> int option" where
  "first_tag d = (case d of [] \<Rightarrow> None | p # _ \<Rightarrow> Some (fst p))"

definition good_message :: "(pystr \<Rightarrow> pystr option) \<Rightarrow> fix_message \<Rightarrow> bool" where
  "good_message fl m \<longleftrightarrow>
     (case (fm_header m, fm_body m, fm_trailer m) of
        ((h, ah), (b, ab), (t, at)) \<Rightarrow>
          ah = [] \<and> ab = [] \<and> at = [] \<and> h @ b @ t \<noteq> [] \<and>
          good_segment fl (seg_entries (fm_class m) HEADER) h (first_tag (b @ t)) \<and>
          good_segment fl (seg_entries (fm_class m) BODY) b (first_tag t) \<and>
          good_segment fl (seg_entries (fm_class m) TRAILER) t None)"

lemma soh_join_Cons: "soh_join (b # cs) = (if cs = [] then b else b @ SOH # soh_join cs)"
  by (cases cs) simp_all

lemma ended_append [simp]: "ended (xs @ ys) = ended xs @ ended ys"
  by (simp add: ended_def)

lemma soh_join_empty: "\<forall>b \<in> set bs. b \<noteq> [] \<Longrightarrow> soh_join bs = [] \<longleftrightarrow> bs = []"
  by (cases bs) (simp_all add: soh_join_Cons)

lemma soh_join_parts:
  "\<forall>bs \<in> set bss. \<forall>b \<in> set bs. b \<noteq> [] \<Longrightarrow>
   soh_join (filter (\<lambda>b. b \<noteq> []) (map soh_join bss)) = soh_join (concat bss)"
proof (induction bss)
  case (Cons bs bss)
  let ?rest = "filter (\<lambda>b. b \<noteq> []) (map soh_join bss)"
  have none: "?rest = [] \<longleftrightarrow> concat bss = []"
    using Cons.prems by (auto simp: filter_empty_conv soh_join_empty)
  have join: "soh_join (bs @ cs) = (if cs = [] then soh_join bs else soh_join bs @ SOH # soh_join cs)"
    if "bs \<noteq> []" for cs
    using that by (induction bs) (auto simp: soh_join_Cons)
  show ?case
  proof (cases "bs = []")
    case True
    with Cons show ?thesis by simp
  next
    case False
    with Cons.prems have "soh_join bs \<noteq> []" by (simp add: soh_join_empty)
    with False Cons none join [OF False, of "concat bss"] show ?thesis
      by (simp add: soh_join_Cons)
  qed
qed simp

lemma with_soh_ended:
  assumes "bs \<noteq> []" "\<forall>b \<in> set bs. b \<noteq> [] \<and> last b \<noteq> SOH"
  shows "with_soh (soh_join bs) = ended bs"
  using last_soh_join [OF assms] soh_join_ended [OF assms(1)] by (simp add: with_soh_def)

definition segment_parts :: "entries \<Rightarrow> segment \<Rightarrow> bytes list result" where
  "segment_parts es d =
     map_result (\<lambda>p. case find_entry es (fst p) of
         None \<Rightarrow> Inl KeyError | Some (e, _) \<Rightarrow> entry_to_bytes e (snd p)) d"

lemma segment_to_bytes_parts: "segment_to_bytes es d = rbind (segment_parts es d) (\<lambda>bs. Inr (soh_join bs))"
  by (simp add: segment_to_bytes_def segment_parts_def)

lemma segment_carries:
  assumes "good_segment fl es d nt"
  obtains bs where "segment_parts es d = Inr bs" "\<forall>b \<in> set bs. b \<noteq> [] \<and> last b \<noteq> SOH"
    and "bs = [] \<longleftrightarrow> d = []" and "\<And>w. d \<noteq> [] \<Longrightarrow> next_is (first_tag d) (ended bs @ w)"
    and "\<And>w. next_is nt w \<Longrightarrow> segment_from_bytes fl es (ended bs @ w) = Inr (int (length (ended bs)), d)"
proof -
  have g: "distinct (map fst d)" "stops_at es d nt" "good_items fl es d nt"
    using assms by (simp_all add: good_segment_def)
  have "\<exists>bs. list_all2 (\<lambda>q b. \<exists>e req. find_entry es (fst (fst q)) = Some (e, req) \<and>
      carries_entry fl e (snd (fst q)) (snd q) b) (with_next fst d nt) bs"
    by (rule items_bytes [OF g(3)]) (rule entry_carries)
  then obtain bs where bs: "list_all2 (\<lambda>q b. \<exists>e req. find_entry es (fst (fst q)) = Some (e, req) \<and>
      carries_entry fl e (snd (fst q)) (snd q) b) (with_next fst d nt) bs" by blast
  have "list_all2 (\<lambda>q b. (case find_entry es (fst (fst q)) of None \<Rightarrow> Inl KeyError
      | Some (e, req) \<Rightarrow> entry_to_bytes e (snd (fst q))) = Inr b \<and>
        (\<exists>r. b = tag_bytes (fst (fst q)) @ r) \<and> last b \<noteq> SOH) (with_next fst d nt) bs"
    using bs by (rule list_all2_mono) (auto simp: carries_entry_def dest: find_entry_mem)
  from list_all2_map_fst [OF this] have items: "list_all2 (\<lambda>p b. (case find_entry es (fst p) of
      None \<Rightarrow> Inl KeyError | Some (e, req) \<Rightarrow> entry_to_bytes e (snd p)) = Inr b \<and>
        (\<exists>r. b = tag_bytes (fst p) @ r) \<and> last b \<noteq> SOH) d bs" by simp
  then have "map_result (\<lambda>p. case find_entry es (fst p) of
      None \<Rightarrow> Inl KeyError | Some (e, req) \<Rightarrow> entry_to_bytes e (snd p)) d = Inr bs"
    by (induction rule: list_all2_induct) auto
  moreover have "\<forall>b \<in> set bs. b \<noteq> [] \<and> last b \<noteq> SOH"
    using items by (rule list_all2_right) auto
  moreover have "bs = [] \<longleftrightarrow> d = []"
    using list_all2_lengthD [OF items] by auto
  moreover have "next_is (first_tag d) (ended bs @ w)" if "d \<noteq> []" for w
    using items that by (cases d) (auto simp: first_tag_def list_all2_Cons1)
  ultimately show thesis
    using items_parse [OF bs g(1,2)] by (intro that) (simp_all add: segment_parts_def)
qed

text \<open>The bytes of a message, from those of its fields.\<close>

lemma fix_to_bytes_parts:
  assumes "segment_parts (seg_entries (fm_class m) HEADER) (fst (fm_header m)) = Inr hs"
    and "segment_parts (seg_entries (fm_class m) BODY) (fst (fm_body m)) = Inr bs"
    and "segment_parts (seg_entries (fm_class m) TRAILER) (fst (fm_trailer m)) = Inr ts"
    and "hs @ bs @ ts \<noteq> []" and good: "\<forall>b \<in> set (hs @ bs @ ts). b \<noteq> [] \<and> last b \<noteq> SOH"
  shows "fix_to_bytes m = Inr (int (length (ended (hs @ bs @ ts))), ended (hs @ bs @ ts))"
proof -
  have "soh_join (filter (\<lambda>b. b \<noteq> []) (map soh_join [hs, bs, ts])) = soh_join (concat [hs, bs, ts])"
    using good by (intro soh_join_parts) auto
  then have "fix_to_bytes m = Inr (int (length (with_soh (soh_join (hs @ bs @ ts)))), with_soh (soh_join (hs @ bs @ ts)))"
    using assms(1-3) by (simp add: fix_to_bytes_def segment_to_bytes_parts Let_def)
  moreover have "with_soh (soh_join (hs @ bs @ ts)) = ended (hs @ bs @ ts)"
    using assms(4,5) by (intro with_soh_ended)
  ultimately show ?thesis by simp
qed

theorem message_carries:
  assumes "good_message fl m"
  obtains bs where "fix_to_bytes m = Inr (int (length bs), bs)"
    and "fix_from_bytes_as fl (fm_class m) bs = Inr (int (length bs), m)"
proof -
  obtain h ah b ab t at where parts: "fm_header m = (h, ah)" "fm_body m = (b, ab)" "fm_trailer m = (t, at)"
    by (metis surj_pair)
  let ?E = "seg_entries (fm_class m)"
  have plain: "ah = []" "ab = []" "at = []" and some: "h @ b @ t \<noteq> []"
    and gh: "good_segment fl (?E HEADER) h (first_tag (b @ t))"
    and gb: "good_segment fl (?E BODY) b (first_tag t)" and gt: "good_segment fl (?E TRAILER) t None"
    using assms by (simp_all add: good_message_def parts)
  from segment_carries [OF gh] obtain hs where H: "segment_parts (?E HEADER) h = Inr hs"
    "\<forall>b \<in> set hs. b \<noteq> [] \<and> last b \<noteq> SOH" "hs = [] \<longleftrightarrow> h = []"
    "\<And>w. next_is (first_tag (b @ t)) w \<Longrightarrow>
       segment_from_bytes fl (?E HEADER) (ended hs @ w) = Inr (int (length (ended hs)), h)" by metis
  from segment_carries [OF gb] obtain bs where B: "segment_parts (?E BODY) b = Inr bs"
    "\<forall>b \<in> set bs. b \<noteq> [] \<and> last b \<noteq> SOH" "bs = [] \<longleftrightarrow> b = []"
    "\<And>w. b \<noteq> [] \<Longrightarrow> next_is (first_tag b) (ended bs @ w)"
    "\<And>w. next_is (first_tag t) w \<Longrightarrow>
       segment_from_bytes fl (?E BODY) (ended bs @ w) = Inr (int (length (ended bs)), b)" by metis
  from segment_carries [OF gt] obtain ts where T: "segment_parts (?E TRAILER) t = Inr ts"
    "\<forall>b \<in> set ts. b \<noteq> [] \<and> last b \<noteq> SOH" "ts = [] \<longleftrightarrow> t = []"
    "\<And>w. t \<noteq> [] \<Longrightarrow> next_is (first_tag t) (ended ts @ w)"
    "segment_from_bytes fl (?E TRAILER) (ended ts) = Inr (int (length (ended ts)), t)"
    by (metis append_Nil2 next_is.simps(1))
  let ?all = "hs @ bs @ ts"
  have ne: "?all \<noteq> []" using some H(3) B(3) T(3) by auto
  have enc: "fix_to_bytes m = Inr (int (length (ended ?all)), ended ?all)"
    by (rule fix_to_bytes_parts) (use H(1,2) B(1,2) T(1,2) ne in \<open>simp_all add: parts ball_Un\<close>)
  have nt: "next_is (first_tag t) (ended ts)"
  proof (cases "t = []")
    case True
    then show ?thesis using T(3) by (simp add: first_tag_def)
  next
    case False
    with T(4) [of "[]"] show ?thesis by simp
  qed
  have nb: "next_is (first_tag (b @ t)) (ended bs @ ended ts)"
  proof (cases "b = []")
    case True
    then show ?thesis using nt B(3) by simp
  next
    case False
    then have "first_tag (b @ t) = first_tag b" by (cases b) (simp_all add: first_tag_def)
    with B(4) [OF False] show ?thesis by simp
  qed
  have "fix_from_bytes_as fl (fm_class m) (ended ?all) = Inr (int (length (ended ?all)), m)"
    using H(4) [OF nb] B(5) [OF nt] T(5)
    by (simp add: fix_from_bytes_as_def py_from_append parts plain)
  with enc show thesis by (rule that)
qed

end
