(* ===== verification/FixReader.thy ===== *)
theory FixReader
  imports FixMessage Reader
begin

text \<open>
  \<open>FixMessageReader.deserialize\<close> (\<open>fix/_reader.py\<close>): the second field of the buffer is the body
  length, which gives the length of the message. Nothing refuses a negative body length, and
  then the read position moves backwards; so the law of \<open>framing\<close> that a message consumes its
  bytes holds for \<open>guarded_deserialize\<close> only, the same function with \<open>Diverges\<close> in that case. A
  stream of whole frames never reaches it, and there both make the same runs.
\<close>

section \<open>Deserialization\<close>

definition SKIP_FIRST_EQ_POS :: nat where "SKIP_FIRST_EQ_POS = 2"
definition TRAILER_LENGTH :: int where "TRAILER_LENGTH = 7"

definition calc_msg_len :: "int \<Rightarrow> int \<Rightarrow> int" where
  "calc_msg_len third_field_pos body_length = third_field_pos + body_length + TRAILER_LENGTH"

definition fix_deserialize ::
  "(pystr \<Rightarrow> pystr option) \<Rightarrow> fix_registry \<Rightarrow> fix_message deserializer" where
  "fix_deserialize fl reg buf pos =
     (let empty_response = Inr ((None, False, False), buf, pos);
          view = py_from buf pos
      in if py_find view MSG_TYPE_TAG \<noteq> -1 then
           let start = py_find_after view [SEPARATOR] SKIP_FIRST_EQ_POS
           in if start = -1 then empty_response
              else let stop = py_find_after view [SOH] (nat start)
                in if stop = -1 then empty_response
                   else rbind (parse_int (map unat (py_slice view (start + 1) stop))) (\<lambda>body_length.
                     let msg_len = calc_msg_len (stop + 1) body_length
                     in if int (length view) < msg_len then empty_response
                        else rbind (fix_from_bytes fl reg (py_slice view 0 msg_len)) (\<lambda>(_, msg).
                          let pos' = pos + msg_len; flags = (Some msg, fix_is_logout msg, fix_is_heartbeat msg)
                          in if int (length buf div 2) < pos' then Inr (flags, py_from buf pos', 0)
                             else Inr (flags, buf, pos')))
         else empty_response)"

text \<open>The length of the message at the front of some bytes, where they hold its first fields:
  an error where the body length is not a number.\<close>

definition frame_length :: "bytes \<Rightarrow> int result option" where
  "frame_length v =
     (if py_find v MSG_TYPE_TAG = -1 then None
      else let start = py_find_after v [SEPARATOR] SKIP_FIRST_EQ_POS
           in if start = -1 then None
              else let stop = py_find_after v [SOH] (nat start)
                in if stop = -1 then None
                   else Some (rbind (parse_int (map unat (py_slice v (start + 1) stop)))
                                (\<lambda>n. Inr (calc_msg_len (stop + 1) n))))"

lemma fix_deserialize_frame:
  "fix_deserialize fl reg buf pos =
     (case frame_length (py_from buf pos) of
        None \<Rightarrow> Inr ((None, False, False), buf, pos)
      | Some (Inl e) \<Rightarrow> Inl e
      | Some (Inr n) \<Rightarrow>
          if int (length (py_from buf pos)) < n then Inr ((None, False, False), buf, pos)
          else rbind (fix_from_bytes fl reg (py_slice (py_from buf pos) 0 n)) (\<lambda>(_, msg).
            if int (length buf div 2) < pos + n
            then Inr ((Some msg, fix_is_logout msg, fix_is_heartbeat msg), py_from buf (pos + n), 0)
            else Inr ((Some msg, fix_is_logout msg, fix_is_heartbeat msg), buf, pos + n)))"
proof -
  let ?v = "py_from buf pos"
  let ?start = "py_find_after ?v [SEPARATOR] SKIP_FIRST_EQ_POS"
  let ?stop = "py_find_after ?v [SOH] (nat ?start)"
  show ?thesis
    by (cases "parse_int (map unat (py_slice ?v (?start + 1) ?stop))")
      (simp_all add: fix_deserialize_def frame_length_def Let_def)
qed

section \<open>The guarded deserializer is a framing\<close>

definition guarded_deserialize ::
  "(pystr \<Rightarrow> pystr option) \<Rightarrow> fix_registry \<Rightarrow> fix_message deserializer" where
  "guarded_deserialize fl reg buf pos =
     (case frame_length (py_from buf pos) of
        Some (Inr n) \<Rightarrow> if n \<le> 0 then Inl Diverges else fix_deserialize fl reg buf pos
      | _ \<Rightarrow> fix_deserialize fl reg buf pos)"

definition fix_next :: "(pystr \<Rightarrow> pystr option) \<Rightarrow> fix_registry \<Rightarrow> fix_message framer" where
  "fix_next fl reg v =
     (case frame_length v of
        None \<Rightarrow> None
      | Some (Inl e) \<Rightarrow> Some (Bad e, 0)
      | Some (Inr n) \<Rightarrow>
          if n \<le> 0 then Some (Bad Diverges, 0)
          else if int (length v) < n then None
          else case fix_from_bytes fl reg (take (nat n) v) of
                 Inl e \<Rightarrow> Some (Bad e, nat n)
               | Inr (_, msg) \<Rightarrow> Some (Msg msg (fix_is_logout msg) (fix_is_heartbeat msg), nat n))"

lemma find_from_length: "find_from pat xs k \<noteq> -1 \<Longrightarrow> length pat \<le> length xs"
proof (induction xs arbitrary: k)
  case (Cons x xs)
  show ?case
  proof (cases "take (length pat) (x # xs) = pat")
    case True
    then show ?thesis by (metis length_take min.cobounded1)
  next
    case False
    with Cons.prems Cons.IH [of "Suc k"] show ?thesis by (simp split: if_splits)
  qed
qed (simp split: if_splits)

lemma find_from_stable:
  "find_from pat xs k \<noteq> -1 \<Longrightarrow> find_from pat (xs @ ys) k = find_from pat xs k"
proof (induction xs arbitrary: k)
  case (Cons x xs)
  have "length pat \<le> length (x # xs)" using find_from_length [OF Cons.prems] .
  then have "take (length pat) ((x # xs) @ ys) = take (length pat) (x # xs)" by (subst take_append) simp
  with Cons show ?case by (auto split: if_splits)
qed (cases ys; simp split: if_splits)

lemma find_from_ge_start: "find_from pat xs k \<noteq> -1 \<Longrightarrow> int k \<le> find_from pat xs k"
  using find_from_ge by blast

lemma find_after_stable:
  "py_find_after xs pat k \<noteq> -1 \<Longrightarrow> k \<le> length xs \<Longrightarrow> py_find_after (xs @ ys) pat k = py_find_after xs pat k"
  by (simp add: py_find_after_def find_from_stable)

lemma find_after_within:
  "py_find_after xs [c] k \<noteq> -1 \<Longrightarrow> int k \<le> py_find_after xs [c] k \<and> py_find_after xs [c] k < int (length xs)"
  using find_from_bounds [of c "drop k xs" k] by (cases "k \<le> length xs") (auto simp: py_find_after_def)

lemma slice_stable:
  "0 \<le> i \<Longrightarrow> 0 \<le> j \<Longrightarrow> j \<le> int (length xs) \<Longrightarrow> py_slice (xs @ ys) i j = py_slice xs i j"
  by (elim nonneg_int_cases) (simp add: py_slice_nat)

lemma frame_length_stable:
  assumes "frame_length v = Some r"
  shows "frame_length (v @ w) = Some r"
proof -
  let ?start = "py_find_after v [SEPARATOR] SKIP_FIRST_EQ_POS"
  let ?stop = "py_find_after v [SOH] (nat ?start)"
  from assms have tag: "py_find v MSG_TYPE_TAG \<noteq> -1" and st: "?start \<noteq> -1" "?stop \<noteq> -1"
    by (auto simp: frame_length_def Let_def split: if_splits)
  have len: "SKIP_FIRST_EQ_POS \<le> length v"
    using find_from_length [of MSG_TYPE_TAG v 0] tag by (simp add: py_find_def MSG_TYPE_TAG_def SKIP_FIRST_EQ_POS_def)
  from find_after_within [OF st(1)] have b1: "0 \<le> ?start" "?start < int (length v)" by linarith+
  from find_after_within [OF st(2)] b1 have b2: "0 \<le> ?stop" "?stop < int (length v)" by linarith+
  have "py_find (v @ w) MSG_TYPE_TAG = py_find v MSG_TYPE_TAG"
    using tag by (simp add: py_find_def find_from_stable)
  moreover have "py_find_after (v @ w) [SEPARATOR] SKIP_FIRST_EQ_POS = ?start"
    using st(1) len by (rule find_after_stable)
  moreover have "py_find_after (v @ w) [SOH] (nat ?start) = ?stop"
    using st(2) b1 by (intro find_after_stable) simp_all
  moreover have "py_slice (v @ w) (?start + 1) ?stop = py_slice v (?start + 1) ?stop"
    using b1 b2 by (intro slice_stable) simp_all
  ultimately show ?thesis
    using assms unfolding frame_length_def Let_def by presburger
qed

lemma fix_next_stable: "fix_next fl reg v = Some (x, n) \<Longrightarrow> fix_next fl reg (v @ w) = Some (x, n)"
proof -
  assume a: "fix_next fl reg v = Some (x, n)"
  then obtain r where r: "frame_length v = Some r"
    by (auto simp: fix_next_def split: option.splits)
  from a frame_length_stable [OF r, of w] r show ?thesis
    by (auto simp: fix_next_def split: sum.splits if_splits prod.splits)
qed

lemma guarded_next:
  assumes "pos \<le> length buf"
  shows "guarded_deserialize fl reg buf (int pos) =
    (case fix_next fl reg (drop pos buf) of
       None \<Rightarrow> Inr ((None, False, False), buf, int pos)
     | Some (Bad e, n) \<Rightarrow> Inl e
     | Some (Msg m st sk, n) \<Rightarrow>
         Inr ((Some m, st, sk),
           if length buf div 2 < pos + n then (drop (pos + n) buf, 0) else (buf, int (pos + n))))"
proof (cases "frame_length (drop pos buf)")
  case None
  then show ?thesis
    by (simp add: guarded_deserialize_def fix_deserialize_frame fix_next_def py_from_nat)
next
  case (Some r)
  show ?thesis
  proof (cases r)
    case (Inl e)
    with Some show ?thesis
      by (simp add: guarded_deserialize_def fix_deserialize_frame fix_next_def py_from_nat)
  next
    case (Inr n)
    show ?thesis
    proof (cases "n \<le> 0")
      case True
      with Some Inr show ?thesis
        by (simp add: guarded_deserialize_def fix_next_def py_from_nat)
    next
      case False
      then obtain k where k: "n = int k" by (metis nonneg_int_cases linear)
      have c: "int (length buf div 2) < int pos + int k \<longleftrightarrow> length buf div 2 < pos + k" by linarith
      have d: "py_from buf (int pos + int k) = drop (pos + k) buf"
        using py_from_nat [of buf "pos + k"] by simp
      from Some Inr False k show ?thesis
        by (cases "fix_from_bytes fl reg (take k (drop pos buf))")
          (auto simp: guarded_deserialize_def fix_deserialize_frame fix_next_def py_from_nat
            py_slice_upto c d)
    qed
  qed
qed

lemma fix_next_size: "fix_next fl reg v = Some (Msg m st sk, n) \<Longrightarrow> 0 < n \<and> n \<le> length v"
  by (auto simp: fix_next_def split: option.splits sum.splits if_splits prod.splits)

interpretation fixr: framing "guarded_deserialize fl reg" "fix_next fl reg" for fl reg
proof unfold_locales
  fix pos and buf :: bytes and m :: fix_message and st sk n
  assume p: "pos \<le> length buf" and nx: "fix_next fl reg (drop pos buf) = Some (Msg m st sk, n)"
  let ?c = "length buf div 2 < pos + n"
  have "pos + n \<le> length buf" using fix_next_size [OF nx] p by auto
  then show "\<exists>buf' pos'. guarded_deserialize fl reg buf (int pos) = Inr ((Some m, st, sk), buf', int pos') \<and>
      pos' \<le> length buf' \<and> drop pos' buf' = drop n (drop pos buf)"
    using guarded_next [OF p, of fl reg] nx
    by (intro exI [of _ "if ?c then drop (pos + n) buf else buf"] exI [of _ "if ?c then 0 else pos + n"])
      (simp add: add.commute)
qed (auto simp: guarded_next fix_next_stable dest: fix_next_size)

lemma guarded_agrees:
  "guarded_deserialize fl reg buf pos \<noteq> Inl Diverges \<Longrightarrow>
   fix_deserialize fl reg buf pos = guarded_deserialize fl reg buf pos"
  by (auto simp: guarded_deserialize_def split: option.splits sum.splits if_splits)

text \<open>The real reader on a stream of whole frames.\<close>

lemma fix_run_guarded:
  assumes "received evs @ w = concat fs"
    and "\<forall>f \<in> set fs. \<exists>m st sk. fix_next fl reg f = Some (Msg m st sk, length f)"
  shows "reader_run (fix_deserialize fl reg) ok evs new_reader =
    reader_run (guarded_deserialize fl reg) ok evs new_reader"
  by (rule agreeing_run [where e = Diverges])
    (rule guarded_agrees, assumption, rule fixr.frames_never_fail [OF assms])

end
