(* ===== verification/FixSession.thy ===== *)
theory FixSession
  imports FixReader Session
begin

text \<open>
  \<open>FixSession\<close> (\<open>fix/session.py\<close>): completing a message with its first fields and its checksum,
  sending, logging in. The clock is a parameter (\<open>now\<close>, the text of the time), as is what the
  application's classes registered (\<open>defs\<close>, \<open>reg\<close>). A message or session changed before an
  exception stays changed, so the operations return both. A sequence number that is a float, and
  an identifier that is a group, are not modelled.
\<close>

section \<open>Completing a message\<close>

datatype fix_flavour = Fix44Session | Fix50Session

fun begin_string :: "fix_flavour \<Rightarrow> pystr" where
  "begin_string Fix44Session = lit ''FIX.4.4''"
| "begin_string Fix50Session = lit ''FIXT.1.1''"

definition BEGIN_STRING_FIELD :: int where "BEGIN_STRING_FIELD = 8"
definition BODY_LEN_FIELD :: int where "BODY_LEN_FIELD = 9"
definition CHECKSUM_FIELD :: int where "CHECKSUM_FIELD = 10"
definition MSG_TYPE_FIELD :: int where "MSG_TYPE_FIELD = 35"

definition tag_value_bytes :: "field_defs \<Rightarrow> int \<Rightarrow> fix_value \<Rightarrow> bytes result" where
  "tag_value_bytes defs tag v =
     rbind (from_tag_value defs (KTag tag) (AVal v)) (\<lambda>(fd, x).
     rbind (field_to_bytes fd x) (\<lambda>(_, bs). Inr (bs @ [SOH])))"

definition checksum_text :: "bytes \<Rightarrow> pystr" where
  "checksum_text bs =
     (let s = show_int (sum_list (map uint bs) mod 256) in replicate (3 - length s) 48 @ s)"

definition prepare_complete_msg :: "field_defs \<Rightarrow> fix_flavour \<Rightarrow> fix_message \<Rightarrow> bytes result" where
  "prepare_complete_msg defs fl m =
     rbind (fix_to_bytes m) (\<lambda>(_, bs0).
     rbind (tag_value_bytes defs MSG_TYPE_FIELD (FStr (fc_type (fm_class m)))) (\<lambda>f35.
     rbind (tag_value_bytes defs BODY_LEN_FIELD (FInt (int (length (f35 @ bs0))))) (\<lambda>f9.
     rbind (tag_value_bytes defs BEGIN_STRING_FIELD (FStr (begin_string fl))) (\<lambda>f8.
     rbind (tag_value_bytes defs CHECKSUM_FIELD (FStr (checksum_text (f8 @ f9 @ f35 @ bs0)))) (\<lambda>f10.
       Inr (f8 @ f9 @ f35 @ bs0 @ f10))))))"

section \<open>Sessions\<close>

record fix_session = "fix_message session" +
  fx_sequence :: "int option"
  fx_username :: fix_arg
  fx_sender_comp_id :: fix_arg
  fx_sender_sub_id :: fix_arg
  fx_target_comp_id :: fix_arg
  fx_client_hb :: nat
  fx_server_hb :: nat

text \<open>The initial \<open>sequence\<close> is a number, not an iterator: \<open>None\<close>.\<close>

definition fix_session_new :: "nat option \<Rightarrow> nat option \<Rightarrow> bool \<Rightarrow> nat \<Rightarrow> nat \<Rightarrow> fix_session" where
  "fix_session_new on_msg on_close dispatch client_hb server_hb =
     session.extend (session_new on_msg on_close dispatch True)
       (fix_session.fields None (AVal (FStr (lit ''nouser''))) ANone ANone ANone client_hb server_hb)"

fun got_arg :: "fix_got \<Rightarrow> fix_arg result" where
  "got_arg (GotValue v) = Inr (AVal v)"
| "got_arg GotNone = Inr ANone"
| "got_arg (GotPlain a) = Inr a"
| "got_arg (GotGroups gs) = Inl TypeError"

fun count_from :: "fix_arg \<Rightarrow> int result" where
  "count_from (AVal v) = count_value v"
| "count_from _ = Inl TypeError"

definition header_attr :: "field_defs \<Rightarrow> fix_message \<Rightarrow> string \<Rightarrow> fix_arg result" where
  "header_attr defs m name =
     rbind (segment_getattr defs (seg_entries (fm_class m) HEADER) name (fm_header m)) got_arg"

text \<open>One assignment after the other, up to the first exception.\<close>

definition assign :: "'a result \<Rightarrow> ('a \<Rightarrow> 's \<Rightarrow> 's) \<Rightarrow> 's \<times> exn option \<Rightarrow> 's \<times> exn option" where
  "assign r f p =
     (case p of
        (s, Some e) \<Rightarrow> (s, Some e)
      | (s, None) \<Rightarrow> (case r of Inl e \<Rightarrow> (s, Some e) | Inr x \<Rightarrow> (f x s, None)))"

definition initialize_session :: "field_defs \<Rightarrow> fix_message \<Rightarrow> fix_session \<Rightarrow> fix_session \<times> exn option" where
  "initialize_session defs m s =
     assign (header_attr defs m ''TargetCompID'') (\<lambda>a s. s\<lparr>fx_target_comp_id := a\<rparr>)
       (assign (header_attr defs m ''SenderSubID'') (\<lambda>a s. s\<lparr>fx_sender_sub_id := a\<rparr>)
         (assign (header_attr defs m ''SenderCompID'') (\<lambda>a s. s\<lparr>fx_sender_comp_id := a\<rparr>)
           (assign (rbind (header_attr defs m ''MsgSeqNum'') count_from) (\<lambda>n s. s\<lparr>fx_sequence := Some n\<rparr>)
             (assign (rbind (fix_message_getattr defs ''Username'' m) got_arg) (\<lambda>a s. s\<lparr>fx_username := a\<rparr>)
               (s, None)))))"

fun set_header :: "field_defs \<Rightarrow> (string \<times> fix_arg) list \<Rightarrow> fix_message \<Rightarrow> fix_message \<times> exn option" where
  "set_header defs [] m = (m, None)"
| "set_header defs ((name, a) # xs) m =
     (case segment_setattr defs (seg_entries (fm_class m) HEADER) name a (fm_header m) of
        Inl e \<Rightarrow> (m, Some e)
      | Inr h \<Rightarrow> set_header defs xs (m\<lparr>fm_header := h\<rparr>))"

definition transport_write :: "bytes \<Rightarrow> bool \<Rightarrow> fix_session \<Rightarrow> fix_session \<times> exn option" where
  "transport_write bs heartbeat s =
     (if \<not> s_transport s then (s, Some AttributeError)
      else let s1 = s\<lparr>s_sent := s_sent s @ [Wrote bs]\<rparr>
           in (if heartbeat then s1 else s1\<lparr>s_local_hb := map_option ping (s_local_hb s1)\<rparr>, None))"

definition fix_send_msg ::
  "field_defs \<Rightarrow> fix_flavour \<Rightarrow> pystr \<Rightarrow> fix_message \<Rightarrow> fix_session \<Rightarrow> fix_session \<times> fix_message \<times> exn option" where
  "fix_send_msg defs fl now m s =
     (case fix_validate [BODY] m of
        Inl e \<Rightarrow> (s, m, Some e)
      | Inr _ \<Rightarrow>
          (case set_header defs [(''SenderSubID'', fx_sender_sub_id s), (''TargetCompID'', fx_target_comp_id s),
                  (''SenderCompID'', fx_sender_comp_id s)] m of
             (m1, Some e) \<Rightarrow> (s, m1, Some e)
           | (m1, None) \<Rightarrow>
               (case fx_sequence s of
                  None \<Rightarrow> (s, m1, Some TypeError)
                | Some n \<Rightarrow>
                    let s1 = s\<lparr>fx_sequence := Some (n + 1)\<rparr>
                    in (case set_header defs [(''MsgSeqNum'', AVal (FInt n)), (''SendingTime'', AVal (FStr now))] m1 of
                          (m2, Some e) \<Rightarrow> (s1, m2, Some e)
                        | (m2, None) \<Rightarrow>
                            (case prepare_complete_msg defs fl m2 of
                               Inl e \<Rightarrow> (s1, m2, Some e)
                             | Inr bs \<Rightarrow>
                                 (case transport_write bs (fix_is_heartbeat m2) s1 of
                                    (s2, e) \<Rightarrow> (s2, m2, e)))))))"

definition fix_send_heartbeat ::
  "field_defs \<Rightarrow> fix_registry \<Rightarrow> fix_flavour \<Rightarrow> pystr \<Rightarrow> fix_session \<Rightarrow> fix_session" where
  "fix_send_heartbeat defs reg fl now s =
     (case reg HEART_BEAT_MSG of
        None \<Rightarrow> s
      | Some c \<Rightarrow>
          (case fix_message_init defs c (\<lambda>_. None) of
             Inl e \<Rightarrow> s
           | Inr m \<Rightarrow> fst (fix_send_msg defs fl now m s)))"

section \<open>Logging in\<close>

definition fix_login_begin ::
  "field_defs \<Rightarrow> fix_flavour \<Rightarrow> pystr \<Rightarrow> fix_message \<Rightarrow> fix_session \<Rightarrow> fix_session \<times> fix_message \<times> exn option" where
  "fix_login_begin defs fl now m s =
     (case initialize_session defs m s of
        (s1, Some e) \<Rightarrow> (s1, m, Some e)
      | (s1, None) \<Rightarrow> fix_send_msg defs fl now m s1)"

definition fix_login_resume :: "fix_message \<Rightarrow> fix_message result \<Rightarrow> fix_session \<Rightarrow> fix_session \<times> exn option" where
  "fix_login_resume login_msg reply s =
     (case reply of
        Inl e \<Rightarrow> if e = EndOfQueue then (close_enter False s, Some ConnectionRefusedError) else (s, Some e)
      | Inr resp \<Rightarrow>
          if fm_class resp \<noteq> fm_class login_msg then (close_enter False s, Some ConnectionRefusedError)
          else (case rbind (session_start_dispatching s) (\<lambda>s1.
                       start_heartbeats (Some (fx_client_hb s1)) (Some (fx_server_hb s1)) s1) of
                  Inl e \<Rightarrow> (or_same s (session_start_dispatching s), Some e)
                | Inr s2 \<Rightarrow> (s2, None)))"

section \<open>It is a session\<close>

lemma transport_write_core: "session_core (fst (transport_write bs h s)) = session_core s"
  by (simp add: transport_write_def session_core_def stage_def closes_def Let_def)

lemma fx_sequence_core [simp]: "session_core (s\<lparr>fx_sequence := q\<rparr>) = session_core s"
  by (simp add: session_core_def stage_def closes_def)

lemma fix_send_core: "session_core (fst (fix_send_msg defs fl now m s)) = session_core s"
proof -
  have w: "session_core (fst (case transport_write bs h (s\<lparr>fx_sequence := q\<rparr>) of (s2, e) \<Rightarrow> (s2, m2, e))) =
      session_core s" for bs h q m2
    using transport_write_core [of bs h "s\<lparr>fx_sequence := q\<rparr>"]
    by (cases "transport_write bs h (s\<lparr>fx_sequence := q\<rparr>)") simp
  show ?thesis
    unfolding fix_send_msg_def
    by (simp add: w Let_def split: sum.split prod.split option.split)
qed

lemma fix_heartbeat_core: "session_core (fix_send_heartbeat defs reg fl now s) = session_core s"
  by (auto simp: fix_send_heartbeat_def fix_send_core split: option.split sum.split)

interpretation fixs: session_class "fix_deserialize ft reg" async_on_message "fix_send_heartbeat defs reg fl now"
  for ft defs reg fl now
proof unfold_locales
  show "session_core (async_on_message m s) = session_core s" for m and s :: fix_session
    by (simp add: async_on_message_def session_core_def stage_def closes_def put_def split: option.split)
qed (simp add: fix_heartbeat_core)

section \<open>Runs\<close>

datatype fix_event =
    FixEvent "fix_message sevent" | FixSend pystr fix_message | FixLoginBegin pystr fix_message
  | FixLoginResume fix_message "fix_message result"

fun fix_step ::
  "(pystr \<Rightarrow> pystr option) \<Rightarrow> field_defs \<Rightarrow> fix_registry \<Rightarrow> fix_flavour \<Rightarrow> pystr \<Rightarrow> fix_event \<Rightarrow>
     fix_session \<Rightarrow> fix_session" where
  "fix_step ft defs reg fl now (FixEvent e) s =
     session_step (fix_deserialize ft reg) async_on_message (fix_send_heartbeat defs reg fl now) e s"
| "fix_step ft defs reg fl now (FixSend t m) s = fst (fix_send_msg defs fl t m s)"
| "fix_step ft defs reg fl now (FixLoginBegin t m) s = fst (fix_login_begin defs fl t m s)"
| "fix_step ft defs reg fl now (FixLoginResume m r) s = fst (fix_login_resume m r s)"

lemma fx_fields_core [simp]:
  "session_core (s\<lparr>fx_username := a\<rparr>) = session_core s" "session_core (s\<lparr>fx_sender_comp_id := a\<rparr>) = session_core s"
  "session_core (s\<lparr>fx_sender_sub_id := a\<rparr>) = session_core s" "session_core (s\<lparr>fx_target_comp_id := a\<rparr>) = session_core s"
  by (simp_all add: session_core_def stage_def closes_def)

lemma assign_core:
  "(\<And>x s. session_core (f x s) = session_core s) \<Longrightarrow> session_core (fst (assign r f p)) = session_core (fst p)"
  by (cases p) (simp add: assign_def split: option.split sum.split)

lemma initialize_core: "session_core (fst (initialize_session defs m s)) = session_core s"
  by (simp add: initialize_session_def assign_core)

lemma fix_login_begin_core: "session_core (fst (fix_login_begin defs fl now m s)) = session_core s"
  using initialize_core [of defs m s] fix_send_core
  by (auto simp: fix_login_begin_def split: prod.split option.split)

lemma fix_login_resume_quiet: "quiet s (fst (fix_login_resume m r s))"
proof (cases r)
  case (Inl e)
  then show ?thesis by (simp add: fix_login_resume_def quiet_core quiet_close_enter)
next
  case (Inr resp)
  show ?thesis
  proof (cases "fm_class resp = fm_class m")
    case True
    have "session_core (fst (fix_login_resume m r s)) = session_core s"
      using Inr True
      by (auto simp: fix_login_resume_def result_simps or_same_def split: sum.split
          dest!: start_heartbeats_core session_start_core)
    then show ?thesis by (rule quiet_core)
  next
    case False
    with Inr show ?thesis by (simp add: fix_login_resume_def quiet_close_enter)
  qed
qed

lemma fix_own_quiet: "\<nexists>x. e = FixEvent x \<Longrightarrow> quiet s (fix_step ft defs reg fl now e s)"
  by (cases e) (simp_all add: quiet_core fix_send_core fix_login_begin_core fix_login_resume_quiet)

lemma fix_step_once: "closed_once s \<Longrightarrow> closed_once (fix_step ft defs reg fl now e s)"
  by (cases "\<exists>x. e = FixEvent x") (auto simp: fixs.step_once intro: quiet_once [OF fix_own_quiet])

lemma fix_run_once: "closed_once s \<Longrightarrow> closed_once (fold (fix_step ft defs reg fl now) es s)"
  by (induction es arbitrary: s) (simp_all add: fix_step_once)

lemma fix_new_once: "closed_once (fix_session_new m c d a b)"
  by (simp add: closed_once_def fix_session_new_def session.defs fix_session.defs session_new_def closes_def)

end
