(* ===== verification/FixFrames.thy ===== *)
theory FixFrames
  imports FixSession
begin

text \<open>
  What \<open>FixSession\<close> sends, \<open>FixMessageReader\<close> reads: a completed message is one frame, whose
  body length and checksum are those of its bytes, and the reader parses it to the message sent,
  with the standard fields added. So whatever the chunks in which frames arrive, the reader
  delivers the messages.
\<close>

section \<open>The standard fields\<close>

definition standard_field :: "field_defs \<Rightarrow> entries \<Rightarrow> fix_kind \<Rightarrow> int \<Rightarrow> bool" where
  "standard_field defs es k tag \<longleftrightarrow>
     (case (defs (KTag tag), find_entry es tag) of
        (Some fd, Some (EField fd', r)) \<Rightarrow> fd' = fd \<and> kind_of (f_type fd) = k
      | _ \<Rightarrow> False)"

definition standard_class :: "field_defs \<Rightarrow> fix_class \<Rightarrow> bool" where
  "standard_class defs c \<longleftrightarrow>
     standard_field defs (seg_entries c HEADER) KString BEGIN_STRING_FIELD \<and>
     standard_field defs (seg_entries c HEADER) KInt BODY_LEN_FIELD \<and>
     standard_field defs (seg_entries c HEADER) KString MSG_TYPE_FIELD \<and>
     standard_field defs (seg_entries c TRAILER) KString CHECKSUM_FIELD"

text \<open>The message a receiver sees.\<close>

definition completed :: "fix_flavour \<Rightarrow> fix_message \<Rightarrow> int \<Rightarrow> pystr \<Rightarrow> fix_message" where
  "completed fl m n c =
     m\<lparr>fm_header := ((BEGIN_STRING_FIELD, VField (FStr (begin_string fl))) # (BODY_LEN_FIELD, VField (FInt n)) #
           (MSG_TYPE_FIELD, VField (FStr (fc_type (fm_class m)))) # fst (fm_header m), []),
       fm_body := (fst (fm_body m), []),
       fm_trailer := (fst (fm_trailer m) @ [(CHECKSUM_FIELD, VField (FStr c))], [])\<rparr>"

lemma standard_fieldE:
  assumes "standard_field defs es k tag"
  obtains fd r where "defs (KTag tag) = Some fd" "find_entry es tag = Some (EField fd, r)"
    "kind_of (f_type fd) = k" "f_tag fd = tag"
proof -
  from assms obtain fd r where f: "defs (KTag tag) = Some fd" "find_entry es tag = Some (EField fd, r)"
    "kind_of (f_type fd) = k"
    by (auto simp: standard_field_def split: option.splits entry_def.splits)
  from find_entry_mem [OF f(2)] have "f_tag fd = tag" by (simp add: entry_tag_def)
  with f show thesis by (rule that)
qed

lemma segment_parts_append:
  "segment_parts es (xs @ ys) = rbind (segment_parts es xs) (\<lambda>a. rbind (segment_parts es ys) (\<lambda>b. Inr (a @ b)))"
proof (induction xs)
  case Nil
  show ?case by (cases "segment_parts es ys") (simp_all add: segment_parts_def)
next
  case (Cons x xs)
  then show ?case by (simp add: segment_parts_def rbind_assoc)
qed

lemma standard_string:
  assumes "standard_field defs es KString tag" "encodable Ascii s"
  shows "tag_value_bytes defs tag (FStr s) = Inr (tag_bytes tag @ map of_nat s @ [SOH])"
    and "segment_parts es [(tag, VField (FStr s))] = Inr [tag_bytes tag @ map of_nat s]"
proof -
  from standard_fieldE [OF assms(1)] obtain fd r where fd: "defs (KTag tag) = Some fd"
    "find_entry es tag = Some (EField fd, r)" "kind_of (f_type fd) = KString" "f_tag fd = tag" .
  show "tag_value_bytes defs tag (FStr s) = Inr (tag_bytes tag @ map of_nat s @ [SOH])"
    and "segment_parts es [(tag, VField (FStr s))] = Inr [tag_bytes tag @ map of_nat s]"
    using fd assms(2)
    by (simp_all add: tag_value_bytes_def from_tag_value_def field_from_value_def fix_isinstance_def
        field_to_bytes_def fix_pack_def pack_text_fix_def encode_ok segment_parts_def)
qed

lemma standard_string_inv:
  assumes "standard_field defs es KString tag" "tag_value_bytes defs tag (FStr s) = Inr b"
  shows "encodable Ascii s"
proof -
  from standard_fieldE [OF assms(1)] obtain fd r where fd: "defs (KTag tag) = Some fd"
    "kind_of (f_type fd) = KString" by metis
  with assms(2) show ?thesis
    by (auto simp: tag_value_bytes_def from_tag_value_def field_from_value_def fix_isinstance_def
        field_to_bytes_def fix_pack_def pack_text_fix_def encode_eq_Inr result_simps)
qed

lemma standard_number:
  assumes "standard_field defs es KInt tag"
  shows "tag_value_bytes defs tag (FInt i) = Inr (tag_bytes tag @ map of_nat (show_int i) @ [SOH])"
    and "segment_parts es [(tag, VField (FInt i))] = Inr [tag_bytes tag @ map of_nat (show_int i)]"
proof -
  from standard_fieldE [OF assms(1)] obtain fd r where fd: "defs (KTag tag) = Some fd"
    "find_entry es tag = Some (EField fd, r)" "kind_of (f_type fd) = KInt" "f_tag fd = tag" .
  show "tag_value_bytes defs tag (FInt i) = Inr (tag_bytes tag @ map of_nat (show_int i) @ [SOH])"
    and "segment_parts es [(tag, VField (FInt i))] = Inr [tag_bytes tag @ map of_nat (show_int i)]"
    using fd
    by (simp_all add: tag_value_bytes_def from_tag_value_def field_from_value_def fix_isinstance_def
        field_to_bytes_def fix_pack_def pack_text_fix_def encode_ok segment_parts_def)
qed

text \<open>The value of one field may be exchanged.\<close>

lemma with_next_Cons: "with_next h (x # xs) nt = (x, case xs of [] \<Rightarrow> nt | y # _ \<Rightarrow> Some (h y)) # with_next h xs nt"
  by (cases xs) simp_all

lemma with_next_append: "with_next h (xs @ y # ys) nt = with_next h xs (Some (h y)) @ with_next h (y # ys) nt"
proof (induction xs)
  case (Cons x xs)
  then show ?case by (cases xs) (simp_all add: with_next_Cons)
qed simp

lemma good_segment_field:
  assumes "good_segment ft es (xs @ (t, VField v) # ys) nt" "find_entry es t = Some (EField fd, r)"
  shows "good_fix ft (f_type fd) v"
    and "good_fix ft (f_type fd) v' \<Longrightarrow> good_segment ft es (xs @ (t, VField v') # ys) nt"
proof -
  have items: "good_items ft es (xs @ (t, VField v) # ys) nt \<longleftrightarrow>
      good_items ft es xs (Some t) \<and> good_fix ft (f_type fd) v \<and> good_items ft es ys nt" for v
    using assms(2) by (simp add: good_items_def with_next_append with_next_Cons)
  from assms(1) items show "good_fix ft (f_type fd) v"
    and "good_fix ft (f_type fd) v' \<Longrightarrow> good_segment ft es (xs @ (t, VField v') # ys) nt"
    by (auto simp: good_segment_def stops_at_def split: option.splits)
qed

lemma first_tag_field: "first_tag (xs @ (t, u) # ys) = first_tag (xs @ (t, v) # ys)"
  by (cases xs) (simp_all add: first_tag_def)

lemma good_completed:
  assumes "standard_class defs (fm_class m)" "good_message ft (completed fl m n c)"
    and "encodable Ascii d" "soh_free d"
  shows "good_message ft (completed fl m k d)"
proof -
  let ?b = "fst (fm_body m)" and ?t = "fst (fm_trailer m)" and ?h = "fst (fm_header m)"
  from assms(1) obtain f9 r9 f10 r10 where
    f9: "find_entry (seg_entries (fm_class m) HEADER) BODY_LEN_FIELD = Some (EField f9, r9)" "kind_of (f_type f9) = KInt"
    and f10: "find_entry (seg_entries (fm_class m) TRAILER) CHECKSUM_FIELD = Some (EField f10, r10)" "kind_of (f_type f10) = KString"
    by (auto simp: standard_class_def elim!: standard_fieldE)
  have ft: "first_tag (?b @ ?t @ [(CHECKSUM_FIELD, VField (FStr d))]) =
      first_tag (?b @ ?t @ [(CHECKSUM_FIELD, VField (FStr c))])"
    "first_tag (?t @ [(CHECKSUM_FIELD, VField (FStr d))]) = first_tag (?t @ [(CHECKSUM_FIELD, VField (FStr c))])"
    using first_tag_field [of "?b @ ?t" CHECKSUM_FIELD _ "[]"] first_tag_field [of ?t CHECKSUM_FIELD _ "[]"] by auto
  from assms(2) have g: "good_segment ft (seg_entries (fm_class m) HEADER)
      ([(BEGIN_STRING_FIELD, VField (FStr (begin_string fl)))] @ (BODY_LEN_FIELD, VField (FInt n)) #
        (MSG_TYPE_FIELD, VField (FStr (fc_type (fm_class m)))) # ?h) (first_tag (?b @ ?t @ [(CHECKSUM_FIELD, VField (FStr c))]))"
    "good_segment ft (seg_entries (fm_class m) BODY) ?b (first_tag (?t @ [(CHECKSUM_FIELD, VField (FStr c))]))"
    "good_segment ft (seg_entries (fm_class m) TRAILER) (?t @ (CHECKSUM_FIELD, VField (FStr c)) # []) None"
    by (simp_all add: good_message_def completed_def)
  from good_segment_field(2) [OF g(1) f9(1), of "FInt k"] good_segment_field(2) [OF g(3) f10(1), of "FStr d"]
    g(2) f9(2) f10(2) assms(3,4) show ?thesis
    by (simp add: good_message_def completed_def good_fix_def ft)
qed

section \<open>The shape of a frame\<close>

definition frame_prefix :: "fix_flavour \<Rightarrow> int \<Rightarrow> bytes" where
  "frame_prefix fl n = (tag_bytes 8 @ map of_nat (begin_string fl)) @ SOH # (tag_bytes 9 @ map of_nat (show_int n)) @ [SOH]"

lemma frame_prefix_nonempty: "frame_prefix fl n \<noteq> []"
  by (simp add: frame_prefix_def)

lemma standard_tag_bytes:
  "tag_bytes 8 = [56, 61]" "tag_bytes 9 = [57, 61]" "tag_bytes 10 = [49, 48, 61]" "tag_bytes 35 = [51, 53, 61]"
  by (simp_all add: tag_bytes_def show_int_def show_nat.simps SEPARATOR_def)

lemma begin_bytes:
  "map of_nat (begin_string Fix44Session) = ([70, 73, 88, 46, 52, 46, 52] :: bytes)"
  "map of_nat (begin_string Fix50Session) = ([70, 73, 88, 84, 46, 49, 46, 49] :: bytes)"
  by (simp_all add: lit_def)

lemma skip_char: "c \<noteq> 51 \<Longrightarrow> find_from MSG_TYPE_TAG (c # R) k = find_from MSG_TYPE_TAG R (Suc k)"
  by (simp add: MSG_TYPE_TAG_def)

lemma skip_field:
  "61 \<notin> set X \<Longrightarrow> find_from MSG_TYPE_TAG (X @ SOH # R) k = find_from MSG_TYPE_TAG R (Suc (k + length X))"
proof (induction X arbitrary: k)
  case Nil
  then show ?case by (simp add: skip_char SOH_def del: find_from.simps)
next
  case (Cons x X)
  then have x: "61 \<notin> set X" "x \<noteq> 61" by auto
  have "take (length MSG_TYPE_TAG) (x # X @ SOH # R) \<noteq> MSG_TYPE_TAG"
  proof (cases X)
    case Nil
    then show ?thesis by (simp add: MSG_TYPE_TAG_def SOH_def numeral_3_eq_3)
  next
    case (Cons y Y)
    with x show ?thesis
      by (cases Y) (auto simp: MSG_TYPE_TAG_def SOH_def numeral_3_eq_3)
  qed
  with Cons.IH [OF x(1), of "Suc k"] show ?case by simp
qed

lemma no_equals_number: "61 \<notin> set (map of_nat (show_int n) :: bytes)"
  using tag_text_bytes(1) [of n] by (simp add: SEPARATOR_def)

lemma no_equals_begin: "61 \<notin> set (map of_nat (begin_string fl) :: bytes)"
  by (cases fl) (simp_all only: begin_bytes, simp_all)

lemma find_type_tag:
  "py_find (frame_prefix fl n @ tag_bytes 35 @ R) MSG_TYPE_TAG = int (length (frame_prefix fl n))"
proof -
  have hit: "find_from MSG_TYPE_TAG (51 # 53 # 61 # R) k = int k" for k
    by (simp add: MSG_TYPE_TAG_def)
  show ?thesis
    by (simp add: py_find_def frame_prefix_def standard_tag_bytes skip_char hit
        skip_field [OF no_equals_begin] skip_field [OF no_equals_number]
        del: find_from.simps)
qed

lemma drop_part: "i = length P \<Longrightarrow> drop i (P @ Q) = Q"
  by simp

lemma frame_fields:
  assumes "x = frame_prefix fl n @ tag_bytes 35 @ R"
  shows "py_find_after x [SEPARATOR] SKIP_FIRST_EQ_POS = int (length (begin_string fl) + 4)"
    and "py_find_after x [SOH] (length (begin_string fl) + 4) = int (length (frame_prefix fl n)) - 1"
    and "py_slice x (int (length (begin_string fl) + 4) + 1) (int (length (frame_prefix fl n)) - 1) =
      map of_nat (show_int n)"
proof -
  let ?B = "map of_nat (begin_string fl) :: bytes" and ?D = "map of_nat (show_int n) :: bytes"
  let ?R = "SOH # tag_bytes 35 @ R"
  have x: "x = [56, 61] @ (?B @ [SOH, 57]) @ 61 # ?D @ ?R"
    using assms by (simp add: frame_prefix_def standard_tag_bytes)
  have "61 \<notin> set (?B @ [SOH, 57])" using no_equals_begin [of fl] by (simp add: SOH_def)
  from find_from_first [OF this, of "?D @ ?R" "2"]
  show "py_find_after x [SEPARATOR] SKIP_FIRST_EQ_POS = int (length (begin_string fl) + 4)"
    by (simp add: x py_find_after_def SEPARATOR_def SKIP_FIRST_EQ_POS_def)
  have d: "drop (length (begin_string fl) + 4) x = (61 # ?D) @ ?R"
    using drop_part [of "length (begin_string fl) + 4" "[56, 61] @ ?B @ [SOH, 57]" "(61 # ?D) @ ?R"]
    by (simp add: x)
  have "SOH \<notin> set (61 # ?D)" using tag_text_bytes(2) [of n] by (auto simp: tag_bytes_def SOH_def)
  from find_from_first [OF this, of "tag_bytes 35 @ R" "length (begin_string fl) + 4"]
  show "py_find_after x [SOH] (length (begin_string fl) + 4) = int (length (frame_prefix fl n)) - 1"
    unfolding py_find_after_def d by (simp add: frame_prefix_def standard_tag_bytes)
  have len: "int (length (frame_prefix fl n)) - 1 = int (length ([56, 61] @ ?B @ [SOH, 57, 61]) + length ?D)"
    by (simp add: frame_prefix_def standard_tag_bytes)
  have five: "int (length (begin_string fl) + 4) + 1 = int (length ([56, 61] @ ?B @ [SOH, 57, 61]))" by simp
  have x': "x = (([56, 61] @ ?B @ [SOH, 57, 61]) @ ?D) @ ?R"
    by (simp add: x)
  have "take (length ([56, 61] @ ?B @ [SOH, 57, 61]) + length ?D) x = ([56, 61] @ ?B @ [SOH, 57, 61]) @ ?D"
    unfolding x' by (simp only: take_append length_append) simp
  then show "py_slice x (int (length (begin_string fl) + 4) + 1) (int (length (frame_prefix fl n)) - 1) = ?D"
    unfolding len five py_slice_nat by simp
qed

section \<open>The checksum\<close>

lemma show_nat_short: "n < 1000 \<Longrightarrow> length (show_nat n) \<le> 3"
  by (subst show_nat.simps, subst (1) show_nat.simps, subst (1) show_nat.simps) auto

lemma checksum_text_facts:
  shows "length (checksum_text bs) = 3" and "encodable Ascii (checksum_text bs)" and "soh_free (checksum_text bs)"
    and "parse_int (checksum_text bs) = Inr (sum_list (map uint bs) mod 256)"
proof -
  let ?c = "sum_list (map uint bs) mod 256"
  obtain k where k: "?c = int k" "k < 256" by (metis nonneg_int_cases pos_mod_sign pos_mod_bound
        of_nat_less_iff of_nat_numeral zero_less_numeral)
  let ?s = "replicate (3 - length (show_nat k)) 48 @ show_nat k"
  have s: "checksum_text bs = ?s" by (simp add: checksum_text_def k(1) show_int_def Let_def)
  have digits: "\<forall>c \<in> set ?s. is_digit c"
    using show_nat_digits [of _ k] by (auto simp: is_digit_def)
  have zeros: "foldl (\<lambda>a c. 10 * a + (c - 48)) (0 :: nat) (replicate j 48) = 0" for j
    by (induction j) simp_all
  show "length (checksum_text bs) = 3" using show_nat_short [of k] k(2) by (simp add: s)
  show "encodable Ascii (checksum_text bs)" "parse_int (checksum_text bs) = Inr ?c"
    using digits_text [of ?s] digits by (simp_all add: s k(1) zeros show_nat_value)
  have "\<not> is_digit 1" by (simp add: is_digit_def)
  with digits have "1 \<notin> set ?s" by blast
  then show "soh_free (checksum_text bs)" unfolding s soh_free_def .
qed

section \<open>Frames\<close>

lemma good_parts:
  "good_segment ft es d nt \<Longrightarrow> \<exists>bs. segment_parts es d = Inr bs \<and> (\<forall>b \<in> set bs. b \<noteq> [] \<and> last b \<noteq> SOH)"
  by (metis segment_carries)

text \<open>The frame of a message, given what follows its body length up to the checksum, and the
  message a receiver sees in it.\<close>

definition frame_bytes :: "fix_flavour \<Rightarrow> bytes \<Rightarrow> bytes" where
  "frame_bytes fl rest =
     (let covered = frame_prefix fl (int (length rest)) @ rest
      in covered @ tag_bytes 10 @ map of_nat (checksum_text covered) @ [SOH])"

definition seen_as :: "fix_flavour \<Rightarrow> fix_message \<Rightarrow> bytes \<Rightarrow> fix_message" where
  "seen_as fl m rest =
     completed fl m (int (length rest)) (checksum_text (frame_prefix fl (int (length rest)) @ rest))"

lemma frame_exists:
  assumes std: "standard_class defs (fm_class m)" and good: "good_message ft (completed fl m n0 c0)"
    and some: "fst (fm_header m) @ fst (fm_body m) @ fst (fm_trailer m) \<noteq> []"
  obtains rest R where "rest = tag_bytes 35 @ map of_nat (fc_type (fm_class m)) @ SOH # R"
    and "prepare_complete_msg defs fl m = Inr (frame_bytes fl rest)"
    and "good_message ft (seen_as fl m rest)"
    and "fix_to_bytes (seen_as fl m rest) = Inr (int (length (frame_bytes fl rest)), frame_bytes fl rest)"
    and "encodable Ascii (fc_type (fm_class m))" "soh_free (fc_type (fm_class m))"
proof -
  let ?E = "seg_entries (fm_class m)" and ?ty = "fc_type (fm_class m)"
  let ?h = "fst (fm_header m)" and ?b = "fst (fm_body m)" and ?t = "fst (fm_trailer m)"
  have s8: "standard_field defs (?E HEADER) KString 8" and s9: "standard_field defs (?E HEADER) KInt 9"
    and s35: "standard_field defs (?E HEADER) KString 35" and s10: "standard_field defs (?E TRAILER) KString 10"
    using std by (simp_all add: standard_class_def BEGIN_STRING_FIELD_def BODY_LEN_FIELD_def
        MSG_TYPE_FIELD_def CHECKSUM_FIELD_def)
  note tags = BEGIN_STRING_FIELD_def BODY_LEN_FIELD_def MSG_TYPE_FIELD_def CHECKSUM_FIELD_def
  let ?x8 = "(8, VField (FStr (begin_string fl)))" and ?x35 = "(35, VField (FStr ?ty))"
  from good have gh: "good_segment ft (?E HEADER) (?x8 # (9, VField (FInt n0)) # ?x35 # ?h)
        (first_tag (?b @ ?t @ [(10, VField (FStr c0))]))"
    and gb: "good_segment ft (?E BODY) ?b (first_tag (?t @ [(10, VField (FStr c0))]))"
    and gt: "good_segment ft (?E TRAILER) (?t @ [(10, VField (FStr c0))]) None"
    by (simp_all add: good_message_def completed_def tags)
  from standard_fieldE [OF s35] obtain f35 r35 where f35: "find_entry (?E HEADER) 35 = Some (EField f35, r35)"
    "kind_of (f_type f35) = KString" by metis
  have "good_fix ft (f_type f35) (FStr ?ty)"
    using good_segment_field(1) [of ft "?E HEADER" "[?x8, (9, VField (FInt n0))]" 35 "FStr ?ty" ?h] gh f35(1) by simp
  then have ty: "encodable Ascii ?ty" "soh_free ?ty" using f35(2) by (simp_all add: good_fix_def)
  have bgn: "encodable Ascii (begin_string fl)" by (cases fl) (simp_all add: lit_def)
  from good_parts [OF gh] obtain hs0 where hs0: "segment_parts (?E HEADER) ([?x8, (9, VField (FInt n0)), ?x35] @ ?h) = Inr hs0"
    "\<forall>b \<in> set hs0. b \<noteq> [] \<and> last b \<noteq> SOH" by auto
  then obtain hs where hs: "segment_parts (?E HEADER) ?h = Inr hs" "set hs \<subseteq> set hs0"
    unfolding segment_parts_append by (auto simp: result_simps)
  from good_parts [OF gb] obtain bs where bs: "segment_parts (?E BODY) ?b = Inr bs"
    "\<forall>b \<in> set bs. b \<noteq> [] \<and> last b \<noteq> SOH" by auto
  from good_parts [OF gt] obtain ts0 where ts0: "segment_parts (?E TRAILER) (?t @ [(10, VField (FStr c0))]) = Inr ts0"
    "\<forall>b \<in> set ts0. b \<noteq> [] \<and> last b \<noteq> SOH" by auto
  then obtain ts where ts: "segment_parts (?E TRAILER) ?t = Inr ts" "set ts \<subseteq> set ts0"
    unfolding segment_parts_append by (auto simp: result_simps)
  have parts_ok: "\<forall>b \<in> set (hs @ bs @ ts). b \<noteq> [] \<and> last b \<noteq> SOH"
    using hs0(2) hs(2) bs(2) ts0(2) ts(2) by auto
  have len: "length hs = length ?h" "length bs = length ?b" "length ts = length ?t"
    using hs(1) bs(1) ts(1) by (auto simp: segment_parts_def dest: map_result_length)
  with some have ne: "hs @ bs @ ts \<noteq> []" by (metis append_is_Nil_conv length_0_conv)
  let ?R = "ended (hs @ bs @ ts)"
  define rest where "rest = tag_bytes 35 @ map of_nat ?ty @ SOH # ?R"
  define covered where "covered = frame_prefix fl (int (length rest)) @ rest"
  have data0: "fix_to_bytes m = Inr (int (length ?R), ?R)"
    by (rule fix_to_bytes_parts [OF hs(1) bs(1) ts(1) ne parts_ok])
  have rest: "(tag_bytes 35 @ map of_nat ?ty @ [SOH]) @ ?R = rest"
    by (simp add: rest_def)
  have cov: "(tag_bytes 8 @ map of_nat (begin_string fl) @ [SOH]) @
      (tag_bytes 9 @ map of_nat (show_int (int (length rest))) @ [SOH]) @ rest = covered"
    by (simp add: covered_def frame_prefix_def)
  have prep: "prepare_complete_msg defs fl m = Inr (frame_bytes fl rest)"
    unfolding prepare_complete_msg_def tags data0 standard_string(1) [OF s35 ty(1)]
      standard_number(1) [OF s9] standard_string(1) [OF s8 bgn] rbind.simps prod.case rest cov
      standard_string(1) [OF s10 checksum_text_facts(2)]
    by (simp add: frame_bytes_def covered_def frame_prefix_def Let_def rest_def del: of_nat_add of_nat_Suc)
  have good': "good_message ft (seen_as fl m rest)"
    unfolding seen_as_def by (rule good_completed [OF std good checksum_text_facts(2,3)])
  have c: "encodable Ascii (checksum_text covered)" by (rule checksum_text_facts)
  have hs': "segment_parts (?E HEADER) (fst (fm_header (seen_as fl m rest))) =
      Inr ([tag_bytes 8 @ map of_nat (begin_string fl), tag_bytes 9 @ map of_nat (show_int (int (length rest))),
        tag_bytes 35 @ map of_nat ?ty] @ hs)"
    using segment_parts_append [of "?E HEADER" "[?x8]" "(9, VField (FInt (int (length rest)))) # ?x35 # ?h"]
      segment_parts_append [of "?E HEADER" "[(9, VField (FInt (int (length rest))))]" "?x35 # ?h"]
      segment_parts_append [of "?E HEADER" "[?x35]" ?h]
      standard_string(2) [OF s8 bgn] standard_number(2) [OF s9, of "int (length rest)"]
      standard_string(2) [OF s35 ty(1)] hs(1)
    by (simp add: seen_as_def completed_def tags)
  have ts': "segment_parts (?E TRAILER) (fst (fm_trailer (seen_as fl m rest))) =
      Inr (ts @ [tag_bytes 10 @ map of_nat (checksum_text covered)])"
    using segment_parts_append [of "?E TRAILER" ?t "[(10, VField (FStr (checksum_text covered)))]"]
      standard_string(2) [OF s10 c] ts(1)
    by (simp add: seen_as_def completed_def tags covered_def)
  have bs': "segment_parts (?E BODY) (fst (fm_body (seen_as fl m rest))) = Inr bs"
    using bs(1) by (simp add: seen_as_def completed_def)
  have cls: "fm_class (seen_as fl m rest) = fm_class m" by (simp add: seen_as_def completed_def)
  let ?m = "seen_as fl m rest"
  have ok: "\<forall>b \<in> set xs. b \<noteq> [] \<and> last b \<noteq> SOH"
    if "segment_parts es d = Inr xs" "good_segment ft es d nt" for es d nt xs
    using good_parts [OF that(2)] that(1) by auto
  from good' obtain nt1 nt2 where g: "good_segment ft (?E HEADER) (fst (fm_header ?m)) nt1"
    "good_segment ft (?E TRAILER) (fst (fm_trailer ?m)) nt2"
    by (auto simp: good_message_def cls split: prod.splits)
  let ?all = "([tag_bytes 8 @ map of_nat (begin_string fl), tag_bytes 9 @ map of_nat (show_int (int (length rest))),
        tag_bytes 35 @ map of_nat ?ty] @ hs) @ bs @ (ts @ [tag_bytes 10 @ map of_nat (checksum_text covered)])"
  have enc: "fix_to_bytes ?m = Inr (int (length (ended ?all)), ended ?all)"
    using hs' bs' ts' ok [OF hs' g(1)] ok [OF ts' g(2)] bs(2)
    by (intro fix_to_bytes_parts) (simp_all add: cls ball_Un)
  have all: "ended ?all = frame_bytes fl rest"
    by (simp add: frame_bytes_def covered_def frame_prefix_def rest_def Let_def del: of_nat_add of_nat_Suc)
  from that [OF rest_def prep good' enc [unfolded all] ty] show thesis .
qed

section \<open>Reading a frame\<close>

lemma frame_length_frame:
  assumes "rest = tag_bytes 35 @ R"
  shows "frame_length (frame_bytes fl rest) = Some (Inr (int (length (frame_bytes fl rest))))"
proof -
  let ?n = "int (length rest)"
  let ?C = "tag_bytes 10 @ map of_nat (checksum_text (frame_prefix fl ?n @ rest)) @ [SOH]"
  have f: "frame_bytes fl rest = frame_prefix fl ?n @ tag_bytes 35 @ (R @ ?C)"
    using assms by (simp add: frame_bytes_def Let_def)
  have bk: "map (unat \<circ> (of_nat :: nat \<Rightarrow> byte)) (show_int ?n) = show_int ?n"
  proof (rule map_idI)
    fix x
    assume "x \<in> set (show_int ?n)"
    then have "x < 256" using show_int_not_space [of x ?n] by simp
    then show "(unat \<circ> (of_nat :: nat \<Rightarrow> byte)) x = x" by (simp add: unat_of_nat_byte)
  qed
  have len: "length (frame_bytes fl rest) = length (frame_prefix fl ?n) + length rest + 7"
    using checksum_text_facts(1) [of "frame_prefix fl ?n @ rest"]
    by (simp add: frame_bytes_def Let_def standard_tag_bytes)
  show ?thesis
    using find_type_tag [of fl ?n "R @ ?C"] frame_fields [OF f]
    unfolding frame_length_def f [symmetric] Let_def
    using frame_prefix_nonempty [of fl ?n]
    by (simp add: bk parse_show_int calc_msg_len_def TRAILER_LENGTH_def len del: of_nat_add)
qed

lemma get_msg_type_frame:
  assumes "rest = tag_bytes 35 @ map of_nat ty @ SOH # R" "encodable Ascii ty" "soh_free ty"
  shows "get_msg_type (frame_bytes fl rest) = Inr ty"
proof -
  let ?n = "int (length rest)" and ?P = "frame_prefix fl (int (length rest))"
  let ?C = "tag_bytes 10 @ map of_nat (checksum_text (?P @ rest)) @ [SOH]"
  let ?T = "map of_nat ty :: bytes"
  have f: "frame_bytes fl rest = ?P @ tag_bytes 35 @ (?T @ SOH # R @ ?C)"
    using assms(1) by (simp add: frame_bytes_def Let_def)
  have f': "frame_bytes fl rest = (?P @ [51, 53]) @ (61 # ?T) @ SOH # R @ ?C"
    by (simp add: f standard_tag_bytes)
  have start: "py_find (frame_bytes fl rest) MSG_TYPE_TAG + 2 = int (length (?P @ [51, 53]))"
    unfolding f find_type_tag by simp
  have "SOH \<notin> set (61 # ?T)"
    using soh_free_bytes [OF assms(2,3)] by (simp add: SOH_def)
  from find_from_first [OF this, of "R @ ?C" "length (?P @ [51, 53])"]
  have stop: "py_find_after (frame_bytes fl rest) [SOH] (length (?P @ [51, 53])) = int (length (?P @ [51, 53]) + length (61 # ?T))"
    unfolding py_find_after_def f' by (simp only: drop_part [OF refl])
  have five: "int (length (?P @ [51, 53])) + 1 = int (length (?P @ [51, 53, 61]))" by simp
  have "take (length (?P @ [51, 53]) + length (61 # ?T)) (frame_bytes fl rest) = (?P @ [51, 53, 61]) @ ?T"
    unfolding f' by (simp only: take_append length_append) simp
  then have "py_slice (frame_bytes fl rest) (int (length (?P @ [51, 53])) + 1)
      (int (length (?P @ [51, 53]) + length (61 # ?T))) = ?T"
    unfolding five py_slice_nat by simp
  then show ?thesis
    unfolding get_msg_type_def Let_def start nat_int stop
    by (simp add: decode_map_of_nat assms(2))
qed

theorem frame_read:
  assumes "standard_class defs (fm_class m)" and "good_message ft (completed fl m n c)"
    and "fst (fm_header m) @ fst (fm_body m) @ fst (fm_trailer m) \<noteq> []"
    and "reg (fc_type (fm_class m)) = Some (fm_class m)"
  obtains rest where "prepare_complete_msg defs fl m = Inr (frame_bytes fl rest)"
    and "fix_next ft reg (frame_bytes fl rest) =
      Some (Msg (seen_as fl m rest) (fix_is_logout m) (fix_is_heartbeat m), length (frame_bytes fl rest))"
proof -
  from frame_exists [OF assms(1-3)] obtain rest R where
    rest: "rest = tag_bytes 35 @ map of_nat (fc_type (fm_class m)) @ SOH # R"
    and prep: "prepare_complete_msg defs fl m = Inr (frame_bytes fl rest)"
    and good: "good_message ft (seen_as fl m rest)"
    and enc: "fix_to_bytes (seen_as fl m rest) = Inr (int (length (frame_bytes fl rest)), frame_bytes fl rest)"
    and ty: "encodable Ascii (fc_type (fm_class m))" "soh_free (fc_type (fm_class m))" .
  have cls: "fm_class (seen_as fl m rest) = fm_class m" by (simp add: seen_as_def completed_def)
  from message_carries [OF good] enc cls have
    "fix_from_bytes_as ft (fm_class m) (frame_bytes fl rest) = Inr (int (length (frame_bytes fl rest)), seen_as fl m rest)"
    by (metis prod.inject sum.inject(2))
  with get_msg_type_frame [OF rest ty, of fl] assms(4)
  have "fix_from_bytes ft reg (frame_bytes fl rest) = Inr (int (length (frame_bytes fl rest)), seen_as fl m rest)"
    by (simp add: fix_from_bytes_def)
  moreover have "frame_bytes fl rest \<noteq> []" by (simp add: frame_bytes_def Let_def)
  ultimately have "fix_next ft reg (frame_bytes fl rest) =
      Some (Msg (seen_as fl m rest) (fix_is_logout m) (fix_is_heartbeat m), length (frame_bytes fl rest))"
    using frame_length_frame [OF rest, of fl]
    by (simp add: fix_next_def fix_is_logout_def fix_is_heartbeat_def cls)
  from that [OF prep this] show thesis .
qed

section \<open>Delivery\<close>

definition sendable ::
  "(pystr \<Rightarrow> pystr option) \<Rightarrow> field_defs \<Rightarrow> fix_registry \<Rightarrow> fix_flavour \<Rightarrow> fix_message \<Rightarrow> bool" where
  "sendable ft defs reg fl m \<longleftrightarrow>
     standard_class defs (fm_class m) \<and> good_message ft (completed fl m 0 []) \<and>
     fst (fm_header m) @ fst (fm_body m) @ fst (fm_trailer m) \<noteq> [] \<and>
     reg (fc_type (fm_class m)) = Some (fm_class m)"

definition sent_bytes :: "field_defs \<Rightarrow> fix_flavour \<Rightarrow> fix_message \<Rightarrow> bytes" where
  "sent_bytes defs fl m = (case prepare_complete_msg defs fl m of Inl _ \<Rightarrow> [] | Inr f \<Rightarrow> f)"

definition sees :: "fix_flavour \<Rightarrow> fix_message \<Rightarrow> fix_message \<Rightarrow> bool" where
  "sees fl m m' \<longleftrightarrow> (\<exists>n c. m' = completed fl m n c)"

definition delivered_fix :: "fix_message list \<Rightarrow> fix_message list" where
  "delivered_fix ms = filter (\<lambda>m. \<not> fix_is_heartbeat m) (takeWhile (\<lambda>m. \<not> fix_is_logout m) ms)"

lemma sendable_frame:
  assumes "sendable ft defs reg fl m"
  obtains m' where "sees fl m m'" "fm_class m' = fm_class m"
    and "fix_next ft reg (sent_bytes defs fl m) =
      Some (Msg m' (fix_is_logout m') (fix_is_heartbeat m'), length (sent_bytes defs fl m))"
proof -
  from assms have a: "standard_class defs (fm_class m)" "good_message ft (completed fl m 0 [])"
    "fst (fm_header m) @ fst (fm_body m) @ fst (fm_trailer m) \<noteq> []"
    "reg (fc_type (fm_class m)) = Some (fm_class m)"
    by (simp_all add: sendable_def)
  from frame_read [where defs = defs and m = m and fl = fl and reg = reg and n = 0 and c = "[]", OF a]
  obtain rest where r: "prepare_complete_msg defs fl m = Inr (frame_bytes fl rest)"
    "fix_next ft reg (frame_bytes fl rest) =
      Some (Msg (seen_as fl m rest) (fix_is_logout m) (fix_is_heartbeat m), length (frame_bytes fl rest))" .
  have "fm_class (seen_as fl m rest) = fm_class m" "sees fl m (seen_as fl m rest)"
    by (auto simp: seen_as_def completed_def sees_def)
  with r show thesis
    by (intro that [of "seen_as fl m rest"]) (simp_all add: sent_bytes_def fix_is_logout_def fix_is_heartbeat_def)
qed

lemma framed_items_delivered:
  "framed_items (\<lambda>_. True) (map (\<lambda>m. Msg m (fix_is_logout m) (fix_is_heartbeat m)) ms) = delivered_fix ms"
  by (induction ms) (simp_all add: delivered_fix_def)

lemma frames_of_messages:
  assumes "list_all (sendable ft defs reg fl) ms"
  obtains ms' where "list_all2 (sees fl) ms ms'"
    and "list_all2 (\<lambda>f m'. fix_next ft reg f = Some (Msg m' (fix_is_logout m') (fix_is_heartbeat m'), length f))
      (map (sent_bytes defs fl) ms) ms'"
proof -
  have "\<exists>ms'. list_all2 (\<lambda>m m'. sees fl m m' \<and> fix_next ft reg (sent_bytes defs fl m) =
      Some (Msg m' (fix_is_logout m') (fix_is_heartbeat m'), length (sent_bytes defs fl m))) ms ms'"
    using assms by (intro list_all2_choice) (metis list_all_iff sendable_frame)
  then obtain ms' where ms': "list_all2 (\<lambda>m m'. sees fl m m' \<and> fix_next ft reg (sent_bytes defs fl m) =
      Some (Msg m' (fix_is_logout m') (fix_is_heartbeat m'), length (sent_bytes defs fl m))) ms ms'" by blast
  show thesis
  proof (rule that)
    show "list_all2 (sees fl) ms ms'" using ms' by (rule list_all2_mono) blast
    show "list_all2 (\<lambda>f m'. fix_next ft reg f = Some (Msg m' (fix_is_logout m') (fix_is_heartbeat m'), length f))
      (map (sent_bytes defs fl) ms) ms'"
      unfolding list_all2_map1 using ms' by (rule list_all2_mono) blast
  qed
qed

end
