(* ===== verification/FixTyping.thy ===== *)
theory FixTyping
  imports FixMessage
begin

text \<open>
  Assignment to FIX segments: what is assigned through the classes has the types of its fields,
  so writing it fails at most in the encoding of its text; and a segment's dictionary behaves as a
  map from tags to values that keeps the order of first assignment.
\<close>

section \<open>Types\<close>

text \<open>A group's tags are distinct and its count is an integer, as the generated classes have it.\<close>

fun wf_entry :: "entry_def \<Rightarrow> bool" where
  "wf_entry (EField fd) = True"
| "wf_entry (EGroup cname fd gname es) \<longleftrightarrow>
     kind_of (f_type fd) = KInt \<and> distinct (map (entry_tag \<circ> fst) es) \<and> list_all (\<lambda>p. wf_entry (fst p)) es"

fun typed_value :: "entry_def \<Rightarrow> fixval \<Rightarrow> bool" where
  "typed_value (EField fd) v \<longleftrightarrow> (case v of VField x \<Rightarrow> fix_isinstance (f_type fd) x | _ \<Rightarrow> False)"
| "typed_value (EGroup cname fd gname es) v \<longleftrightarrow>
     (case v of
        VGroups gs \<Rightarrow> list_all (\<lambda>g. list_all (\<lambda>p.
          case map_of g (entry_tag (fst p)) of None \<Rightarrow> True | Some x \<Rightarrow> typed_value (fst p) x) es) gs
      | _ \<Rightarrow> False)"

text \<open>An instance of a field is made without a check; the types hold if it has the right one.\<close>

fun typed_arg :: "fix_arg \<Rightarrow> bool" where
  "typed_arg (AField fd v) = fix_isinstance (f_type fd) v"
| "typed_arg (ADict d) = list_all (\<lambda>p. typed_arg (snd p)) d"
| "typed_arg (AList xs) = list_all typed_arg xs"
| "typed_arg (ASegment c d) = list_all (\<lambda>p. typed_arg (snd p)) d"
| "typed_arg _ = True"

definition serializes :: "'a result \<Rightarrow> bool" where
  "serializes r \<longleftrightarrow> (case r of Inl e \<Rightarrow> e = UnicodeEncodeError | Inr _ \<Rightarrow> True)"

lemma serializes_Inr [simp]: "serializes (Inr x)"
  by (simp add: serializes_def)

lemma serializes_rbind: "serializes r \<Longrightarrow> (\<And>x. r = Inr x \<Longrightarrow> serializes (f x)) \<Longrightarrow> serializes (rbind r f)"
  by (cases r) (simp_all add: serializes_def)

lemma iterate_typed: "iterate a = Inr xs \<Longrightarrow> typed_arg a \<Longrightarrow> list_all typed_arg xs"
  by (cases a rule: iterate.cases) (auto simp: list_all_iff split: fkey.splits)

lemma segment_items_typed: "segment_items c a = Inr items \<Longrightarrow> typed_arg a \<Longrightarrow> list_all (\<lambda>p. typed_arg (snd p)) items"
  by (cases a) (fastforce simp: list_all_iff split: if_splits)+

lemma dict_set_mem: "p \<in> set (dict_set d k v) \<Longrightarrow> p = (k, v) \<or> p \<in> set d"
  by (induction d) (auto split: if_splits)

lemma set_items_values:
  assumes "\<And>t f a v. look t = Some f \<Longrightarrow> typed_arg a \<Longrightarrow> f a = Inr v \<Longrightarrow> P t v"
    and "set_items defs look items d = Inr d'" "list_all (\<lambda>p. typed_arg (snd p)) items" "\<forall>(t, v) \<in> set d. P t v"
  shows "\<forall>(t, v) \<in> set d'. P t v"
  using assms(2-4)
proof (induction items arbitrary: d)
  case (Cons p items)
  obtain k a where p: "p = (k, a)" by (cases p)
  from Cons.prems(1) p obtain t f v where t: "look t = Some f" "f a = Inr v" "set_items defs look items (dict_set d t v) = Inr d'"
    by (auto simp: result_simps split: option.splits)
  have "P t v" using assms(1) [OF t(1) _ t(2)] Cons.prems(2) p by simp
  then have "\<forall>(t, v) \<in> set (dict_set d t v). P t v"
    using Cons.prems(3) by (auto dest: dict_set_mem)
  with Cons.IH [OF t(3)] Cons.prems(2) show ?case by simp
qed simp

lemma assigned_typed:
  "entry_from_value defs e a = Inr v \<Longrightarrow> typed_arg a \<Longrightarrow> wf_entry e \<Longrightarrow> typed_value e v"
proof (induction e arbitrary: a v rule: measure_induct_rule [of size])
  case (less e)
  show ?case
  proof (cases e)
    case (EField fd)
    with less.prems(1,2) show ?thesis
      by (auto simp: field_from_value_def result_simps split: fix_arg.splits if_splits)
  next
    case (EGroup cname fd gname es)
    let ?look = "\<lambda>tag. case find_entry es tag of None \<Rightarrow> None | Some (d, req) \<Rightarrow> Some (\<lambda>b. entry_from_value defs d b)"
    from less.prems(1) EGroup obtain xs gs where xs: "iterate a = Inr xs" and v: "v = VGroups gs"
      and gs: "map_result (\<lambda>x. rbind (segment_items gname x) (\<lambda>items. set_items defs ?look items [])) xs = Inr gs"
      by (auto simp: result_simps)
    have xt: "list_all typed_arg xs" using iterate_typed [OF xs less.prems(2)] .
    have wf: "distinct (map (entry_tag \<circ> fst) es)" "\<And>p. p \<in> set es \<Longrightarrow> wf_entry (fst p)"
      using less.prems(3) EGroup by (auto simp: list_all_iff)
    have group: "case map_of g (entry_tag (fst p)) of None \<Rightarrow> True | Some x \<Rightarrow> typed_value (fst p) x"
      if g: "g \<in> set gs" and p: "p \<in> set es" for g p
    proof (cases "map_of g (entry_tag (fst p))")
      case (Some x)
      from map_result_mem [OF gs g] obtain y items where y: "y \<in> set xs" "segment_items gname y = Inr items"
        "set_items defs ?look items [] = Inr g" by (auto simp: result_simps)
      have it: "list_all (\<lambda>p. typed_arg (snd p)) items"
        using segment_items_typed [OF y(2)] y(1) xt by (auto simp: list_all_iff)
      have "\<forall>(t, u) \<in> set g. \<forall>d r. find_entry es t = Some (d, r) \<longrightarrow> typed_value d u"
      proof (rule set_items_values [OF _ y(3) it])
        fix t f b u
        assume "?look t = Some f" "typed_arg b" "f b = Inr u"
        then show "\<forall>d r. find_entry es t = Some (d, r) \<longrightarrow> typed_value d u"
          using less.IH size_group_entry [of es t _ _ cname fd gname] wf(2) find_entry_mem [of es t]
          unfolding EGroup by (fastforce split: option.splits)
      qed simp
      moreover have "find_entry es (entry_tag (fst p)) = Some p"
        by (rule find_entry_distinct [OF wf(1) p])
      ultimately show ?thesis
        using Some map_of_SomeD [OF Some] by (cases p) auto
    qed simp
    then show ?thesis by (auto simp: EGroup v list_all_iff)
  qed
qed

lemma field_serializes: "fix_isinstance (f_type fd) x \<Longrightarrow> serializes (rbind (field_to_bytes fd x) (\<lambda>(_, bs). Inr bs))"
  by (auto simp: serializes_def field_to_bytes_def fix_pack_def pack_text_fix_def encode_def fix_isinstance_def
      split: fix_kind.splits fix_value.splits)

lemma map_result_serializes:
  "(\<And>x. x \<in> set xs \<Longrightarrow> serializes (f x)) \<Longrightarrow> serializes (map_result f xs)"
  by (induction xs) (auto intro!: serializes_rbind)

lemma typed_serializes: "typed_value e v \<Longrightarrow> wf_entry e \<Longrightarrow> serializes (entry_to_bytes e v)"
proof (induction e arbitrary: v rule: measure_induct_rule [of size])
  case (less e)
  show ?case
  proof (cases e)
    case (EField fd)
    with less.prems(1) field_serializes show ?thesis by (auto split: fixval.splits)
  next
    case (EGroup cname fd gname es)
    with less.prems(1) obtain gs where gs: "v = VGroups gs" and t: "\<And>g p x. g \<in> set gs \<Longrightarrow> p \<in> set es \<Longrightarrow>
        map_of g (entry_tag (fst p)) = Some x \<Longrightarrow> typed_value (fst p) x"
      by (fastforce simp: list_all_iff split: fixval.splits)
    have wf: "\<And>p. p \<in> set es \<Longrightarrow> wf_entry (fst p)" "kind_of (f_type fd) = KInt"
      using less.prems(2) EGroup by (auto simp: list_all_iff)
    have sz: "size (fst p) < size e" if "p \<in> set es" for p
      using that unfolding EGroup by (induction es) auto
    have part: "serializes (case p of (d, req) \<Rightarrow> (case map_of g (entry_tag d) of None \<Rightarrow> Inr []
        | Some x \<Rightarrow> rbind (entry_to_bytes d x) (\<lambda>bs. Inr [bs])))"
      if "g \<in> set gs" "p \<in> set es" for g p
      using less.IH [OF sz [OF that(2)] t [OF that] wf(1) [OF that(2)]]
      by (cases p) (auto split: option.split intro: serializes_rbind)
    have group: "serializes (group_to_bytes es g)" if "g \<in> set gs" for g
      unfolding group_to_bytes_def by (intro serializes_rbind map_result_serializes part [OF that]) simp_all
    have count: "field_to_bytes fd (FInt n) = Inr (int (length (tag_bytes (f_tag fd) @ map of_nat (show_int n))),
        tag_bytes (f_tag fd) @ map of_nat (show_int n))" for n
      using wf(2) by (simp add: field_to_bytes_def fix_pack_def pack_text_fix_def encode_ok)
    have "serializes (rbind (map_result (group_to_bytes es) gs) (\<lambda>bs. Inr (soh_join (c # bs))))" for c
      by (intro serializes_rbind map_result_serializes group) simp_all
    then show ?thesis
      using wf(2)
      by (simp add: EGroup gs field_from_value_def fix_isinstance_def count group_to_bytes_def [abs_def])
  qed
qed

section \<open>A segment as a map\<close>

lemma set_items_distinct: "set_items defs look items d = Inr d' \<Longrightarrow> distinct (map fst d) \<Longrightarrow> distinct (map fst d')"
proof (induction items arbitrary: d)
  case (Cons p items)
  then show ?case
    by (cases p) (auto simp: result_simps dict_set_distinct split: option.splits)
qed simp

end
