(* ===== verification/FixProps.thy ===== *)
theory FixProps
  imports FixFrames FixTyping
begin

text \<open>
  The properties of the FIX messages, their reader and session, with a small application for
  their witnesses: one message class with a repeating group.
\<close>

section \<open>A sample application\<close>

definition sample_fields :: "fielddef list" where
  "sample_fields =
     [FieldDef 8 ''BeginString'' FixString, FieldDef 9 ''BodyLength'' FixInt,
      FieldDef 35 ''MsgType'' FixString, FieldDef 10 ''CheckSum'' FixString,
      FieldDef 34 ''MsgSeqNum'' FixInt, FieldDef 49 ''SenderCompID'' FixString,
      FieldDef 50 ''SenderSubID'' FixString, FieldDef 56 ''TargetCompID'' FixString,
      FieldDef 52 ''SendingTime'' FixString, FieldDef 553 ''Username'' FixString,
      FieldDef 55 ''Symbol'' FixString, FieldDef 453 ''NoPartyIDs'' FixInt,
      FieldDef 448 ''PartyID'' FixString, FieldDef 447 ''PartyIDSource'' FixChar]"

definition sample_defs :: field_defs where
  "sample_defs = fold field_init_subclass sample_fields Map.empty"

definition sample_parties :: entry_def where
  "sample_parties = EGroup ''Parties'' (FieldDef 453 ''NoPartyIDs'' FixInt) ''Parties_Group''
     [(EField (FieldDef 448 ''PartyID'' FixString), True), (EField (FieldDef 447 ''PartyIDSource'' FixChar), False)]"

definition sample_class :: fix_class where
  "sample_class =
     \<lparr>fc_name = lit ''Logon'', fc_type = lit ''A'', fc_category = lit ''admin'',
      fc_header = (''Header'', map (\<lambda>fd. (EField fd, False)) (take 3 sample_fields @ take 5 (drop 4 sample_fields))),
      fc_body = (''Logon_Body'', [(EField (FieldDef 553 ''Username'' FixString), True),
        (EField (FieldDef 55 ''Symbol'' FixString), False), (sample_parties, False)]),
      fc_trailer = (''Trailer'', [(EField (FieldDef 10 ''CheckSum'' FixString), False)])\<rparr>"

definition sample_reg :: fix_registry where
  "sample_reg = message_init_subclass (Some sample_class) Map.empty"

definition sample_logon :: fix_message where
  "sample_logon =
     \<lparr>fm_class = sample_class,
      fm_header = ([(34, VField (FInt 1)), (49, VField (FStr (lit ''ME'')))], []),
      fm_body = ([(553, VField (FStr (lit ''joe''))),
        (453, VGroups [[(448, VField (FStr (lit ''P1'')))], [(448, VField (FStr (lit ''P2''))), (447, VField (FStr (lit ''D'')))]])], []),
      fm_trailer = ([], [])\<rparr>"

abbreviation no_floats :: "pystr \<Rightarrow> pystr option" where
  "no_floats \<equiv> \<lambda>_. None"

lemma sample_logon_good: "good_message no_floats sample_logon"
  by code_simp

lemma sample_sendable: "sendable no_floats sample_defs sample_reg Fix44Session sample_logon"
  by code_simp

section \<open>Messages\<close>

text \<open>
  C26: round trip. The values that survive are written by \<open>to_bytes\<close> and read back by
  \<open>from_bytes\<close>, repeating groups at every depth included, and all bytes are consumed.
\<close>
theorem fix_message_roundtrip:
  assumes "good_message fl m"
  shows "\<exists>bs. fix_to_bytes m = Inr (int (length bs), bs) \<and>
    fix_from_bytes_as fl (fm_class m) bs = Inr (int (length bs), m)"
  using message_carries [OF assms] by metis

theorem fix_message_roundtrip_witness:
  "\<exists>bs. fix_to_bytes sample_logon = Inr (int (length bs), bs) \<and>
    fix_from_bytes_as no_floats (fm_class sample_logon) bs = Inr (int (length bs), sample_logon)"
  by (rule fix_message_roundtrip [OF sample_logon_good])

text \<open>
  C29: the parser terminates. The loop of \<open>DataSegment.from_bytes\<close> has no counter: it ends because
  every entry consumes bytes. For every class and every input - repeating groups with any claimed
  count included - it returns or raises, never claims to have consumed less than nothing, and a
  field or container found in non-empty data consumes at least a byte.
\<close>
theorem fix_parser_terminates:
  "segment_from_bytes fl es bs \<noteq> Inl Diverges \<and>
   (\<forall>n d. segment_from_bytes fl es bs = Inr (n, d) \<longrightarrow> 0 \<le> n) \<and>
   (\<forall>e n v. entry_from_bytes fl e bs = Inr (n, v) \<longrightarrow> bs \<noteq> [] \<longrightarrow> 0 < n)"
proof -
  have "seg_loop (segment_look fl es) bs [] 0 \<noteq> Inl Diverges \<and>
      (\<forall>n d. seg_loop (segment_look fl es) bs [] 0 = Inr (n, d) \<longrightarrow> 0 \<le> n)"
  proof (rule seg_loop_grows)
    fix t p b k v
    assume "segment_look fl es t = Some p" "p b = Inr (k, v)" "b \<noteq> []"
    then obtain e where "entry_from_bytes fl e b = Inr (k, v)" "b \<noteq> []"
      by (auto simp: segment_look_def split: option.splits)
    with entry_progress [of fl e b] show "0 < k" by blast
  next
    fix t p b
    assume "segment_look fl es t = Some p"
    then obtain e where "p = entry_from_bytes fl e"
      by (auto simp: segment_look_def split: option.splits)
    with entry_progress [of fl e b] show "p b \<noteq> Inl Diverges" by blast
  qed
  then show ?thesis
    unfolding segment_from_bytes_look using entry_progress [of fl _ bs] by blast
qed

theorem fix_parser_terminates_witness:
  "segment_from_bytes no_floats (seg_entries sample_class BODY) [1, 1, 1] \<noteq> Inl Diverges"
  using fix_parser_terminates [of no_floats "seg_entries sample_class BODY" "[1, 1, 1]"] by blast

text \<open>
  a count is believed. A container whose count field says \<open>n\<close> and which is followed by a
  field that is not of its group is read as \<open>n\<close> empty groups, without consuming anything for them:
  a dozen bytes make the parser build as many groups as they claim.
\<close>
theorem fix_group_count_believed:
  assumes "kind_of (f_type fd) = KInt" and "find_entry es t = None"
  shows "entry_from_bytes fl (EGroup cname fd gname es)
      (tag_bytes (f_tag fd) @ map of_nat (show_int (int n)) @ SOH # tag_bytes t @ rest) =
    Inr (int (length (tag_bytes (f_tag fd)) + length (show_int (int n)) + 1), VGroups (replicate n []))"
proof -
  let ?w = "tag_bytes t @ rest"
  have "good_fix fl (f_type fd) (FInt (int n))" using assms(1) by (simp add: good_fix_def)
  from field_carries [OF this] obtain b where
    b: "field_to_bytes fd (FInt (int n)) = Inr (int (length (tag_bytes (f_tag fd) @ b)), tag_bytes (f_tag fd) @ b)"
    "\<And>w. field_from_bytes fl fd ((tag_bytes (f_tag fd) @ b) @ SOH # w) =
      Inr (int (length (tag_bytes (f_tag fd) @ b) + 1), FInt (int n))" by metis
  have bn: "b = map of_nat (show_int (int n))"
    using b(1) assms(1)
    by (auto simp: field_to_bytes_def fix_pack_def pack_text_fix_def encode_ok)
  have empty: "segment_from_bytes fl es ?w = Inr (0, [])"
    unfolding segment_from_bytes_look
    by (rule seg_loop_stop [where nt = "Some t"]) (use assms(2) in \<open>simp_all add: segment_look_None\<close>)
  have "?w \<noteq> []" by simp
  then have loop: "groups_loop (segment_from_bytes fl es) k ?w gs m = Inr (m, gs @ replicate k [])" for k gs m
    by (induction k arbitrary: gs) (simp_all add: empty replicate_app_Cons_same flip: replicate_Suc)
  have rest: "py_from (tag_bytes (f_tag fd) @ b @ SOH # ?w) (int (Suc (length (tag_bytes (f_tag fd)) + length b))) = ?w"
    using py_from_append [of "tag_bytes (f_tag fd) @ b @ [SOH]" ?w] by (simp del: of_nat_add of_nat_Suc)
  show ?thesis
    using b(2) [of ?w] loop [of n "[]" "int (Suc (length (tag_bytes (f_tag fd)) + length b))"] rest
    unfolding segment_from_bytes_def [abs_def] by (simp add: bn del: of_nat_add of_nat_Suc)
qed

theorem fix_group_count_believed_witness:
  "entry_from_bytes no_floats sample_parties
      (tag_bytes 453 @ map of_nat (show_int (int 1000000)) @ SOH # tag_bytes 55 @ [88]) =
    Inr (int (length (tag_bytes 453) + length (show_int (int 1000000)) + 1), VGroups (replicate 1000000 []))"
  unfolding sample_parties_def
  by (rule fix_group_count_believed [of "FieldDef 453 ''NoPartyIDs'' FixInt", unfolded fielddef.sel])
    (simp_all add: find_entry_def entry_tag_def)

text \<open>
  C31: assignments are typed. Whatever is assigned to an entry through the classes - values,
  dictionaries, lists, instances whose fields hold the right type - has the types of its fields
  once accepted, so that writing it cannot fail except in encoding non-ASCII text.
\<close>
theorem fix_assignment_typed:
  assumes "entry_from_value defs e a = Inr v" and "typed_arg a" and "wf_entry e"
  shows "typed_value e v \<and> serializes (entry_to_bytes e v)"
  using assigned_typed [OF assms] typed_serializes assms(3) by blast

theorem fix_assignment_typed_witness:
  "typed_value sample_parties (VGroups [[(448, VField (FStr (lit ''P1'')))]])"
proof -
  have a: "entry_from_value sample_defs sample_parties (AList [ADict [(KName ''PartyID'', AVal (FStr (lit ''P1'')))]]) =
      Inr (VGroups [[(448, VField (FStr (lit ''P1'')))]])"
    by code_simp
  have "wf_entry sample_parties" by (simp add: sample_parties_def entry_tag_def)
  from fix_assignment_typed [OF a _ this] show ?thesis by simp
qed

text \<open>
  C30: a segment implements a map. Assigning by tag, by decimal text or by name updates the map from
  tags to values at that tag and nowhere else, keeps the order of first assignment, and is what
  reading by the tag gives; validation says that the map is defined on the required tags.
\<close>
theorem fix_segment_is_map:
  assumes "segment_setitem defs es key a d = Inr d'"
  shows "\<exists>tag e r v. key_to_tag defs key = Inr tag \<and> find_entry es tag = Some (e, r) \<and>
     entry_from_value defs e a = Inr v \<and> map_of d' = (map_of d)(tag \<mapsto> v) \<and>
     map fst d' = (if map_of d tag = None then map fst d @ [tag] else map fst d) \<and>
     segment_getitem defs es key d' =
       Inr (case v of VField x \<Rightarrow> GotValue x | VGroups gs \<Rightarrow> GotGroups gs) \<and>
     (segment_validate es d' = Inr () \<longleftrightarrow> set (required es) - {tag} \<subseteq> dom (map_of d))"
proof -
  from assms obtain tag e r v where k: "key_to_tag defs key = Inr tag" "find_entry es tag = Some (e, r)"
    "entry_from_value defs e a = Inr v" and d': "d' = dict_set d tag v"
    by (auto simp: segment_setitem_def result_simps split: option.splits)
  have m: "map_of d' = (map_of d)(tag \<mapsto> v)" by (simp add: d' map_of_dict_set)
  have "map fst d' = (if map_of d tag = None then map fst d @ [tag] else map fst d)"
    by (simp add: d' dict_set_keys map_of_eq_None_iff)
  moreover have "segment_getitem defs es key d' = Inr (case v of VField x \<Rightarrow> GotValue x | VGroups gs \<Rightarrow> GotGroups gs)"
    by (simp add: segment_getitem_def k(1,2) m split: fixval.split)
  moreover have "segment_validate es d' = Inr () \<longleftrightarrow> set (required es) \<subseteq> dom (map_of d')"
    by (auto simp: segment_validate_def filter_empty_conv dom_map_of_conv_image_fst)
  then have "segment_validate es d' = Inr () \<longleftrightarrow> set (required es) - {tag} \<subseteq> dom (map_of d)"
    by (auto simp: m)
  ultimately show ?thesis using k m by blast
qed

theorem fix_segment_is_map_witness:
  "\<exists>tag v. map_of [(553 :: int, VField (FStr [97])), (55, VField (FStr [98]))] =
     (map_of [(553, VField (FStr [97]))])(tag \<mapsto> v)"
proof -
  have "segment_setitem sample_defs (seg_entries sample_class BODY) (KName ''Symbol'') (AVal (FStr [98])) [(553, VField (FStr [97]))] =
      Inr [(553, VField (FStr [97])), (55, VField (FStr [98]))]"
    by code_simp
  from fix_segment_is_map [OF this] show ?thesis by blast
qed

section \<open>Frames and the reader\<close>

text \<open>
  C32: body length and checksum. For any message of an application with the standard fields, what
  is written ends in a checksum field of three digits, the sum of all bytes before it modulo 256,
  and the length the reader computes from the body length field is the length of the whole.
\<close>
theorem fix_frame_checks:
  assumes "standard_class defs (fm_class m)" and "prepare_complete_msg defs fl m = Inr f"
  shows "\<exists>covered c. f = covered @ tag_bytes 10 @ map of_nat c @ [SOH] \<and> length c = 3 \<and>
    parse_int c = Inr (sum_list (map uint covered) mod 256) \<and>
    frame_length f = Some (Inr (int (length f)))"
proof -
  let ?ty = "fc_type (fm_class m)"
  note tags = BEGIN_STRING_FIELD_def BODY_LEN_FIELD_def MSG_TYPE_FIELD_def CHECKSUM_FIELD_def
  from assms(1) have s8: "standard_field defs (seg_entries (fm_class m) HEADER) KString 8"
    and s9: "standard_field defs (seg_entries (fm_class m) HEADER) KInt 9"
    and s35: "standard_field defs (seg_entries (fm_class m) HEADER) KString 35"
    and s10: "standard_field defs (seg_entries (fm_class m) TRAILER) KString 10"
    by (simp_all add: standard_class_def tags)
  from assms(2) obtain n bs f35 where bs: "fix_to_bytes m = Inr (n, bs)" "tag_value_bytes defs 35 (FStr ?ty) = Inr f35"
    by (auto simp: prepare_complete_msg_def result_simps tags)
  have ty: "encodable Ascii ?ty" using standard_string_inv [OF s35 bs(2)] .
  have bgn: "encodable Ascii (begin_string fl)" by (cases fl) (simp_all add: lit_def)
  define rest where "rest = tag_bytes 35 @ map of_nat ?ty @ SOH # bs"
  have rest: "(tag_bytes 35 @ map of_nat ?ty @ [SOH]) @ bs = rest" by (simp add: rest_def)
  have "prepare_complete_msg defs fl m = Inr (frame_bytes fl rest)"
    unfolding prepare_complete_msg_def tags bs(1) standard_string(1) [OF s35 ty]
      standard_number(1) [OF s9] standard_string(1) [OF s8 bgn] rbind.simps prod.case rest
      standard_string(1) [OF s10 checksum_text_facts(2)]
    by (simp add: frame_bytes_def frame_prefix_def Let_def rest_def del: of_nat_add of_nat_Suc)
  with assms(2) have f: "f = frame_bytes fl rest" by simp
  show ?thesis
    using checksum_text_facts(1,4) frame_length_frame [OF rest_def, of fl]
    unfolding f by (intro exI [of _ "frame_prefix fl (int (length rest)) @ rest"]
      exI [of _ "checksum_text (frame_prefix fl (int (length rest)) @ rest)"])
      (simp add: frame_bytes_def Let_def)
qed

theorem fix_frame_checks_witness:
  "frame_length (sent_bytes sample_defs Fix44Session sample_logon) =
     Some (Inr (int (length (sent_bytes sample_defs Fix44Session sample_logon))))"
proof -
  have "standard_class sample_defs (fm_class sample_logon)" by code_simp
  moreover have "prepare_complete_msg sample_defs Fix44Session sample_logon =
      Inr (sent_bytes sample_defs Fix44Session sample_logon)" by code_simp
  ultimately show ?thesis using fix_frame_checks by blast
qed

text \<open>
  C33: delivery of FIX messages. Let the bytes the session writes for a sequence of messages arrive
  in any chunks, with iterations of the reader's loop and completed drains in between. Once no
  drain is in progress and the loop has run as often as there are unread bytes, the handler has
  been given exactly the messages before the first logout, heartbeats skipped, each with the
  standard fields added.
\<close>
theorem fix_reader_delivers:
  assumes "list_all (sendable ft defs reg fl) ms" and "received evs = concat (map (sent_bytes defs fl) ms)"
    and "drain_buffer (reader_run (fix_deserialize ft reg) (\<lambda>_. True) evs new_reader) = None"
    and "available (reader_run (fix_deserialize ft reg) (\<lambda>_. True) evs new_reader) \<le> int k"
  shows "\<exists>ms'. list_all2 (sees fl) ms ms' \<and>
    delivered (reader_run (fix_deserialize ft reg) (\<lambda>_. True) (evs @ replicate k Tick) new_reader) = delivered_fix ms'"
proof -
  let ?g = "guarded_deserialize ft reg" and ?fs = "map (sent_bytes defs fl) ms"
  from frames_of_messages [OF assms(1)] obtain ms' where ms': "list_all2 (sees fl) ms ms'"
    and fs: "list_all2 (\<lambda>f m'. fix_next ft reg f = Some (Msg m' (fix_is_logout m') (fix_is_heartbeat m'), length f)) ?fs ms'" .
  from fs have frames: "\<forall>f \<in> set ?fs. \<exists>m st sk. fix_next ft reg f = Some (Msg m st sk, length f)"
    by (induction rule: list_all2_induct) auto
  have ticks: "received (evs @ replicate j Tick) @ [] = concat ?fs" for j
    using assms(2) by (induction j) (auto simp: received_def)
  note real = fix_run_guarded [OF ticks frames, of "\<lambda>_. True"]
  have real0: "reader_run (fix_deserialize ft reg) (\<lambda>_. True) evs new_reader = reader_run ?g (\<lambda>_. True) evs new_reader"
    using real [of 0] by simp
  have "reader_wf (reader_run ?g (\<lambda>_. True) evs new_reader)"
    using fixr.faithful_fresh [of ft reg "\<lambda>_. True" evs] by (simp add: faithful_def)
  from length_rview [OF this] assms(4) real0
  have "length (rview (reader_run ?g (\<lambda>_. True) evs new_reader)) \<le> k" by simp
  from fixr.run_delivers_all [OF _ this] assms(3) real0
  have "delivered (reader_run ?g (\<lambda>_. True) (evs @ replicate k Tick) new_reader) =
      stream (fix_next ft reg) (\<lambda>_. True) (concat ?fs)"
    using assms(2) by simp
  also have "\<dots> = framed_items (\<lambda>_. True) (map (\<lambda>m. Msg m (fix_is_logout m) (fix_is_heartbeat m)) ms')"
    by (rule fixr.stream_frames) (simp add: list_all2_map2 fs del: list_all2_map1)
  finally show ?thesis
    using ms' real [of k] framed_items_delivered [of ms'] by auto
qed

theorem fix_reader_delivers_witness:
  "\<exists>ms'. list_all2 (sees Fix44Session) [sample_logon, sample_logon] ms' \<and>
    delivered (reader_run (fix_deserialize no_floats sample_reg) (\<lambda>_. True)
      ([Data (concat (map (sent_bytes sample_defs Fix44Session) [sample_logon, sample_logon]))] @ replicate 200 Tick) new_reader) =
    delivered_fix ms'"
proof (rule fix_reader_delivers)
  show "list_all (sendable no_floats sample_defs sample_reg Fix44Session) [sample_logon, sample_logon]"
    using sample_sendable by simp
  have "length (concat (map (sent_bytes sample_defs Fix44Session) [sample_logon, sample_logon])) \<le> 200"
    by code_simp
  then show "available (reader_run (fix_deserialize no_floats sample_reg) (\<lambda>_. True)
      [Data (concat (map (sent_bytes sample_defs Fix44Session) [sample_logon, sample_logon]))] new_reader) \<le> int 200"
    by (simp add: on_data_def new_reader_def available_def)
qed (simp_all add: on_data_def new_reader_def)

text \<open>
  a negative body length moves the reader backwards. If the body length makes the length of the
  message zero or less, the reader does not refuse it: it parses a prefix of the buffer cut from
  its end, hands that message over, keeps the bytes, and moves its read position back.
\<close>
theorem fix_negative_length:
  assumes "alive r" and "0 < available r" and "frame_length (rview r) = Some (Inr n)" and "n \<le> 0"
    and "fix_from_bytes ft reg (py_slice (rview r) 0 n) = Inr (k, m)"
    and "\<not> fix_is_logout m" and "\<not> fix_is_heartbeat m"
    and "read_pos r + n \<le> int (length (rbuffer r) div 2)"
  shows "let r' = process_tick (fix_deserialize ft reg) (\<lambda>_. True) r
    in delivered r' = delivered r @ [m] \<and> rbuffer r' = rbuffer r \<and> read_pos r' = read_pos r + n"
  using assms
  by (auto simp: process_tick_def process_1_def alive_def fix_deserialize_frame rview_def Let_def)

theorem fix_negative_length_witness:
  "read_pos (process_tick (fix_deserialize no_floats sample_reg) (\<lambda>_. True)
     (on_data (map (\<lambda>n. word_of_int n) [56,61,70,1, 57,61,45,51,48,1, 51,53,61,65,1, 53,53,51,61,106,1,
        53,53,61,49,50,51,52,53,54,55,56,57,1]) new_reader)) = -13"
proof -
  let ?b = "map (\<lambda>n. word_of_int n) [56,61,70,1, 57,61,45,51,48,1, 51,53,61,65,1, 53,53,51,61,106,1,
        53,53,61,49,50,51,52,53,54,55,56,57,1] :: bytes"
  let ?r = "on_data ?b new_reader :: fix_message reader"
  let ?m = "\<lparr>fm_class = sample_class,
      fm_header = ([(8, VField (FStr [70])), (9, VField (FInt (-30))), (35, VField (FStr [65]))], []),
      fm_body = ([(553, VField (FStr [106]))], []), fm_trailer = ([], [])\<rparr>"
  have r: "alive ?r" "0 < available ?r" "rview ?r = ?b" "read_pos ?r = 0" "length (rbuffer ?r) = 34"
    by (simp_all add: on_data_def new_reader_def alive_def available_def rview_def)
  have n: "frame_length ?b = Some (Inr (-13))" by code_simp
  have p: "fix_from_bytes no_floats sample_reg (py_slice ?b 0 (-13)) = Inr (21, ?m)" by code_simp
  have "\<not> fix_is_logout ?m" "\<not> fix_is_heartbeat ?m" by code_simp+
  note m = this
  have n': "frame_length (rview ?r) = Some (Inr (-13))" unfolding r(3) by (rule n)
  have p': "fix_from_bytes no_floats sample_reg (py_slice (rview ?r) 0 (-13)) = Inr (21, ?m)"
    unfolding r(3) by (rule p)
  have "(-13 :: int) \<le> 0" "read_pos ?r + -13 \<le> int (length (rbuffer ?r) div 2)"
    unfolding r(4,5) by simp_all
  from fix_negative_length [OF r(1,2) n' this(1) p' m this(2)]
  have "read_pos (process_tick (fix_deserialize no_floats sample_reg) (\<lambda>_. True) ?r) = read_pos ?r + -13"
    unfolding Let_def by (elim conjE)
  then show ?thesis unfolding r(4) by linarith
qed

end
