(* ===== verification/FixSessionProps.thy ===== *)
theory FixSessionProps
  imports FixProps
begin

text \<open>
  The properties of the FIX session: what sending does on every path, what a login leaves behind,
  and that a session closes at most once.
\<close>

section \<open>Sending\<close>

lemma fix_send_cases:
  obtains e where "fix_validate [BODY] m = Inl e" "fix_send_msg defs fl now m s = (s, m, Some e)"
  | m1 e where "fix_validate [BODY] m = Inr ()"
      "set_header defs [(''SenderSubID'', fx_sender_sub_id s), (''TargetCompID'', fx_target_comp_id s),
         (''SenderCompID'', fx_sender_comp_id s)] m = (m1, Some e)" "fix_send_msg defs fl now m s = (s, m1, Some e)"
  | m1 where "fix_validate [BODY] m = Inr ()"
      "set_header defs [(''SenderSubID'', fx_sender_sub_id s), (''TargetCompID'', fx_target_comp_id s),
         (''SenderCompID'', fx_sender_comp_id s)] m = (m1, None)"
      "fx_sequence s = None" "fix_send_msg defs fl now m s = (s, m1, Some TypeError)"
  | m1 n m2 s2 e where "fix_validate [BODY] m = Inr ()"
      "set_header defs [(''SenderSubID'', fx_sender_sub_id s), (''TargetCompID'', fx_target_comp_id s),
         (''SenderCompID'', fx_sender_comp_id s)] m = (m1, None)"
      "fx_sequence s = Some n" "fix_send_msg defs fl now m s = (s2, m2, e)"
      "fx_sequence s2 = Some (n + 1)"
      "case e of None \<Rightarrow> \<exists>bs. prepare_complete_msg defs fl m2 = Inr bs \<and> s_sent s2 = s_sent s @ [Wrote bs]
       | Some _ \<Rightarrow> s_sent s2 = s_sent s"
proof -
  let ?ids = "[(''SenderSubID'', fx_sender_sub_id s), (''TargetCompID'', fx_target_comp_id s),
         (''SenderCompID'', fx_sender_comp_id s)]"
  let ?more = "\<lambda>n. [(''MsgSeqNum'', AVal (FInt n)), (''SendingTime'', AVal (FStr now))]"
  show thesis
  proof (cases "fix_validate [BODY] m")
    case (Inl e)
    then show thesis by (intro that(1)) (simp_all add: fix_send_msg_def)
  next
    case (Inr u)
    then have ok: "fix_validate [BODY] m = Inr ()" by simp
    obtain m1 x where h: "set_header defs ?ids m = (m1, x)" by (cases "set_header defs ?ids m")
    show thesis
    proof (cases x)
      case (Some e)
      with ok h show thesis by (intro that(2)) (simp_all add: fix_send_msg_def)
    next
      case None
      note h = h [unfolded None]
      show thesis
      proof (cases "fx_sequence s")
        case None
        with ok h show thesis by (intro that(3)) (simp_all add: fix_send_msg_def)
      next
        case (Some n)
        note sq = this
        obtain m2 y where h2: "set_header defs (?more n) m1 = (m2, y)" by (cases "set_header defs (?more n) m1")
        let ?s = "s\<lparr>fx_sequence := Some (n + 1)\<rparr>"
        have all: "fix_send_msg defs fl now m s =
            (case y of Some e \<Rightarrow> (?s, m2, Some e)
             | None \<Rightarrow> (case prepare_complete_msg defs fl m2 of
                  Inl e \<Rightarrow> (?s, m2, Some e)
                | Inr bs \<Rightarrow> (case transport_write bs (fix_is_heartbeat m2) ?s of (s2, e) \<Rightarrow> (s2, m2, e))))"
          using ok h Some h2 by (simp add: fix_send_msg_def Let_def split: option.split)
        show thesis
        proof (cases y)
          case (Some e)
          with all have "fix_send_msg defs fl now m s = (?s, m2, Some e)" by simp
          from that(4) [OF ok h sq this] show thesis by simp
        next
          case None
          show thesis
          proof (cases "prepare_complete_msg defs fl m2")
            case (Inl e)
            with None all have "fix_send_msg defs fl now m s = (?s, m2, Some e)" by simp
            from that(4) [OF ok h sq this] show thesis by simp
          next
            case (Inr bs)
            obtain s2 z where w: "transport_write bs (fix_is_heartbeat m2) ?s = (s2, z)"
              by (cases "transport_write bs (fix_is_heartbeat m2) ?s")
            then have s2: "fx_sequence s2 = Some (n + 1)" "s_sent s2 = s_sent s @ (if z = None then [Wrote bs] else [])"
              by (auto simp: transport_write_def Let_def split: if_splits)
            from None Inr all w have "fix_send_msg defs fl now m s = (s2, m2, z)" by simp
            from that(4) [OF ok h sq this s2(1)] s2(2) Inr show thesis by (simp split: option.splits)
          qed
        qed
      qed
    qed
  qed
qed

text \<open>
  C34: sending. A message is written completely or not at all, and it is the message as completed
  that is written. The sequence number is taken as soon as the body is valid and the session's
  identifiers fit the header: whatever fails after that - the other header fields, encoding the
  text, a transport that is gone - leaves a gap in the numbers the counterparty sees.
\<close>
theorem fix_send_outcome:
  assumes "fix_send_msg defs fl now m s = (s', m', e)"
  shows "(case e of
       None \<Rightarrow> \<exists>bs. prepare_complete_msg defs fl m' = Inr bs \<and> s_sent s' = s_sent s @ [Wrote bs]
     | Some _ \<Rightarrow> s_sent s' = s_sent s) \<and>
    (e = None \<longrightarrow> fx_sequence s \<noteq> None) \<and>
    fx_sequence s' =
      (if fix_validate [BODY] m = Inr () \<and>
          snd (set_header defs [(''SenderSubID'', fx_sender_sub_id s), (''TargetCompID'', fx_target_comp_id s),
             (''SenderCompID'', fx_sender_comp_id s)] m) = None
       then map_option (\<lambda>n. n + 1) (fx_sequence s) else fx_sequence s)"
  using assms
  by (cases rule: fix_send_cases [of m defs fl now s])
    (auto split: option.splits simp del: set_header.simps fix_validate.simps)

definition sample_session :: fix_session where
  "sample_session = fst (initialize_session sample_defs sample_logon
     ((fix_session_new None None False 10 10)\<lparr>s_transport := True\<rparr>))"

definition sample_order :: "pystr \<Rightarrow> fix_message" where
  "sample_order text =
     \<lparr>fm_class = sample_class, fm_header = ([], []),
      fm_body = ([(553, VField (FStr (lit ''joe''))), (55, VField (FStr text))], []), fm_trailer = ([], [])\<rparr>"

theorem fix_send_outcome_witness:
  "case fix_send_msg sample_defs Fix44Session (lit ''now'') (sample_order [233]) sample_session of
     (s', m', e) \<Rightarrow> s_sent s' = s_sent sample_session \<and> e = Some UnicodeEncodeError \<and> fx_sequence s' = Some 2"
proof -
  obtain s' m' e where r: "fix_send_msg sample_defs Fix44Session (lit ''now'') (sample_order [233]) sample_session = (s', m', e)"
    by (metis prod_cases3)
  have "snd (snd (fix_send_msg sample_defs Fix44Session (lit ''now'') (sample_order [233]) sample_session)) = Some UnicodeEncodeError"
    by code_simp
  with r have e: "e = Some UnicodeEncodeError" by simp
  have "fix_validate [BODY] (sample_order [233]) = Inr ()" by code_simp
  moreover have "snd (set_header sample_defs [(''SenderSubID'', fx_sender_sub_id sample_session),
      (''TargetCompID'', fx_target_comp_id sample_session), (''SenderCompID'', fx_sender_comp_id sample_session)]
      (sample_order [233])) = None" by code_simp
  moreover have "fx_sequence sample_session = Some 1" by code_simp
  ultimately show ?thesis using fix_send_outcome [OF r] r e by simp
qed

section \<open>Logging in\<close>

text \<open>
  the outcome of a login. Only a reply of the class of the login message succeeds, and then both
  monitors run and dispatching is on if there is a handler; any other reply, and a queue that
  ended, close the session and raise \<open>ConnectionRefusedError\<close>.
\<close>
theorem fix_login_outcome:
  assumes "q_dispatcher_task (s_queue s) = None"
  shows "case fix_login_resume m r s of (s', e) \<Rightarrow>
    (case r of
       Inr resp \<Rightarrow>
         if fm_class resp = fm_class m
         then e = None \<and> is_closed s' = is_closed s \<and>
           (\<exists>l k. s_local_hb s' = Some l \<and> is_running l \<and> \<not> hb_stop_when_no_activity l \<and>
                  s_remote_hb s' = Some k \<and> is_running k \<and> hb_stop_when_no_activity k) \<and>
           is_dispatching (s_queue s') = (s_on_msg_coro s \<noteq> None)
         else e = Some ConnectionRefusedError \<and> is_closed s'
     | Inl x \<Rightarrow>
         if x = EndOfQueue then e = Some ConnectionRefusedError \<and> is_closed s' else s' = s \<and> e = Some x)"
proof (cases r)
  case (Inl x)
  then show ?thesis by (simp add: fix_login_resume_def is_closed_def close_enter_def)
next
  case (Inr resp)
  show ?thesis
  proof (cases "fm_class resp = fm_class m")
    case True
    with Inr assms show ?thesis
      by (auto simp: fix_login_resume_def start_heartbeats_def session_start_dispatching_def
          start_dispatching_def create_dispatcher_def new_monitor_def not_none_def is_closed_def
          is_running_def is_dispatching_def Let_def)
  next
    case False
    with Inr show ?thesis by (simp add: fix_login_resume_def is_closed_def close_enter_def)
  qed
qed

theorem fix_login_outcome_witness:
  "snd (fix_login_resume sample_logon (Inl EndOfQueue) sample_session) = Some ConnectionRefusedError"
proof -
  have "q_dispatcher_task (s_queue sample_session) = None" by code_simp
  from fix_login_outcome [OF this, of sample_logon "Inl EndOfQueue"] show ?thesis
    by (simp add: case_prod_beta)
qed

text \<open>
  an identifier that was not given is sent empty. When the login message does not set a header
  text field of the session's identifiers, reading it gives the default, the empty text, and every
  message sent from then on carries the field with an empty value.
\<close>
theorem fix_unset_identifier_sent:
  assumes "defs (KName name) = Some fd" and "\<not> is_decimal name" and "kind_of (f_type fd) = KString"
    and "find_entry (seg_entries (fm_class m) HEADER) (f_tag fd) = Some (EField fd, r)"
    and "is_entry_name (seg_entries (fm_class m) HEADER) name" and "group_tag (seg_entries (fm_class m) HEADER) name = None"
    and "map_of (snd (fm_header m)) name = None" and "map_of (fst (fm_header m)) (f_tag fd) = None"
  shows "\<exists>a h. header_attr defs m name = Inr a \<and>
    segment_setattr defs (seg_entries (fm_class m) HEADER) name a (fm_header m) = Inr h \<and>
    map_of (fst h) (f_tag fd) = Some (VField (FStr [])) \<and>
    entry_to_bytes (EField fd) (VField (FStr [])) = Inr (tag_bytes (f_tag fd))"
proof -
  have tag: "key_to_tag defs (KName name) = Inr (f_tag fd)"
    using assms(1,2) by (simp add: get_tag_def)
  have a: "header_attr defs m name = Inr (AVal (FStr []))"
    using assms(3-8) tag
    by (simp add: header_attr_def segment_getattr_def segment_getitem_def fix_default_def)
  have "segment_setattr defs (seg_entries (fm_class m) HEADER) name (AVal (FStr [])) (fm_header m) =
      Inr (dict_set (fst (fm_header m)) (f_tag fd) (VField (FStr [])), snd (fm_header m))"
    using assms(3-6) tag
    by (simp add: segment_setattr_def segment_setitem_def field_from_value_def fix_isinstance_def)
  moreover have "entry_to_bytes (EField fd) (VField (FStr [])) = Inr (tag_bytes (f_tag fd))"
    using assms(3) by (simp add: field_to_bytes_def fix_pack_def pack_text_fix_def encode_def)
  ultimately show ?thesis using a by (simp add: map_of_dict_set)
qed

theorem fix_unset_identifier_sent_witness:
  "\<exists>a h. header_attr sample_defs sample_logon ''SenderSubID'' = Inr a \<and>
    segment_setattr sample_defs (seg_entries sample_class HEADER) ''SenderSubID'' a (fm_header sample_logon) = Inr h \<and>
    map_of (fst h) 50 = Some (VField (FStr []))"
proof -
  let ?fd = "FieldDef 50 ''SenderSubID'' FixString"
  have f: "sample_defs (KName ''SenderSubID'') = Some ?fd" "\<not> is_decimal ''SenderSubID''"
    "kind_of (f_type ?fd) = KString"
    "find_entry (seg_entries (fm_class sample_logon) HEADER) (f_tag ?fd) = Some (EField ?fd, False)"
    "is_entry_name (seg_entries (fm_class sample_logon) HEADER) ''SenderSubID''"
    "group_tag (seg_entries (fm_class sample_logon) HEADER) ''SenderSubID'' = None"
    "map_of (snd (fm_header sample_logon)) ''SenderSubID'' = None"
    "map_of (fst (fm_header sample_logon)) (f_tag ?fd) = None"
    by code_simp+
  have c: "fm_class sample_logon = sample_class" by (simp add: sample_logon_def)
  from fix_unset_identifier_sent [where defs = sample_defs and m = sample_logon and fd = ?fd and r = False, OF f] show ?thesis unfolding c fielddef.sel by blast
qed

section \<open>Closing\<close>

text \<open>
  a FIX session closes once. In every run - whatever the peer sends, the user calls, the timers
  do and in whatever order - \<open>on_close_coro\<close> is called at most once and only as the last thing, and
  the session counts as closed from the moment closing begins.
\<close>
theorem fix_session_closes_once:
  "let s = fold (fix_step ft defs reg fl now) es (fix_session_new on_msg on_close dispatch a b)
   in closes s \<le> 1 \<and> (closes s = 1 \<longrightarrow> s_phase s = CloseDone) \<and> (is_closed s \<longleftrightarrow> s_phase s \<noteq> NotClosing)"
  using fix_run_once [OF fix_new_once [of on_msg on_close dispatch a b], of ft defs reg fl now es]
  unfolding Let_def closed_once_def is_closed_def by linarith

theorem fix_session_closes_once_witness:
  "closes (fold (fix_step no_floats sample_defs sample_reg Fix44Session [])
     (map FixEvent [ConnectionMade, Close False, ConnectionLost, CloseStep, CloseStep, CloseStep, CloseStep])
     (fix_session_new None (Some 7) False 10 10)) \<le> 1"
  using fix_session_closes_once [of no_floats sample_defs sample_reg Fix44Session "[]"
      "map FixEvent [ConnectionMade, Close False, ConnectionLost, CloseStep, CloseStep, CloseStep, CloseStep]" None "Some 7" False 10 10]
  unfolding Let_def by blast

end
