(* ===== verification/SpecParser.thy ===== *)
theory SpecParser
  imports FieldTypes
begin

text \<open>
  The parser of application specifications (\<open>common/message/parser.py\<close>). The XML file is the tree
  that \<open>ElementTree\<close> gives for it; attributes are ASCII text. \<open>FieldDef.Definitions\<close> is a class
  attribute and outlives a call of \<open>parse\<close>: it is passed in and out. \<open>types\<close> is the registry
  \<open>TypeDefinition.Definitions\<close> as the generator sees it, the name and the hint of each type.
\<close>

section \<open>Elements\<close>

datatype xml = Xml (x_tag: string) (x_attrs: "(string \<times> string) list") (x_text: "string option")
  (x_kids: "xml list")

definition x_get :: "xml \<Rightarrow> string \<Rightarrow> string option" where
  "x_get e k = map_of (x_attrs e) k"

text \<open>An optional text in an f-string, and a number in one.\<close>

definition fmt :: "string option \<Rightarrow> string" where
  "fmt s = (case s of None \<Rightarrow> ''None'' | Some t \<Rightarrow> t)"

definition nat_text :: "nat \<Rightarrow> string" where
  "nat_text n = map char_of (show_nat n)"

text \<open>\<open>{sel(x): x for x in xs}\<close>.\<close>

definition named :: "('a \<Rightarrow> 'k) \<Rightarrow> 'a list \<Rightarrow> ('k \<times> 'a) list" where
  "named sel xs = fold (\<lambda>x d. dict_set d (sel x) x) xs []"

section \<open>Definitions\<close>

record enum_val =
  ev_name :: "string option"
  ev_description :: "string option"
  ev_value :: "string option"

record enum_def =
  ed_name :: "string option"
  ed_type :: "string option"
  ed_values :: "enum_val list"

record field_def =
  sf_name :: "string option"
  sf_type :: "string option"
  sf_ref :: "string option"
  sf_array :: "string option"
  sf_length :: "string option"
  sf_default :: "string option"
  sf_length_type :: "string option"

record record_def =
  rd_name :: "string option"
  rd_fields :: "field_def list"

record message_def =
  md_name :: "string option"
  md_id :: string
  md_group :: "string option"
  md_fields :: "field_def list"
  md_direction :: "string option"

record spec_definitions =
  d_enums :: "(string option \<times> enum_def) list"
  d_records :: "(string option \<times> record_def) list"
  d_messages :: "message_def list"

type_synonym field_registry = "(string option \<times> field_def) list"

section \<open>Parsing\<close>

definition parse_field :: "field_registry \<Rightarrow> xml \<Rightarrow> field_def result" where
  "parse_field reg e =
     (case x_get e ''def'' of
        Some (c # cs) \<Rightarrow>
          (case map_of reg (Some (c # cs)) of
             None \<Rightarrow> Inl KeyError
           | Some f \<Rightarrow> Inr (f\<lparr>sf_name := (case x_get e ''name'' of None \<Rightarrow> sf_name f | Some n \<Rightarrow> Some n)\<rparr>))
      | _ \<Rightarrow>
          Inr \<lparr>sf_name = x_get e ''name'', sf_type = x_get e ''type'', sf_ref = x_get e ''ref'',
               sf_array = x_get e ''array'', sf_length = x_get e ''length'',
               sf_default = x_get e ''default'', sf_length_type = x_get e ''length_type''\<rparr>)"

text \<open>An element without children is false.\<close>

definition parse_fields :: "field_registry \<Rightarrow> xml option \<Rightarrow> field_def list result" where
  "parse_fields reg e = (case e of None \<Rightarrow> Inr [] | Some x \<Rightarrow> map_result (parse_field reg) (x_kids x))"

definition parse_fielddefs :: "field_registry \<Rightarrow> xml \<Rightarrow> field_registry result" where
  "parse_fielddefs reg e = rbind (parse_fields reg (Some e)) (\<lambda>fs. Inr (named sf_name fs))"

definition parse_record :: "field_registry \<Rightarrow> xml \<Rightarrow> record_def result" where
  "parse_record reg r =
     (case x_kids r of
        [] \<Rightarrow> Inl IndexError
      | k # _ \<Rightarrow> rbind (parse_fields reg (Some k)) (\<lambda>fs. Inr \<lparr>rd_name = x_get r ''id'', rd_fields = fs\<rparr>))"

definition parse_records :: "field_registry \<Rightarrow> xml \<Rightarrow> record_def list result" where
  "parse_records reg e = map_result (parse_record reg) (x_kids e)"

text \<open>The converter of \<open>MessageDef.id\<close>: the text of a number, or the code of a character.\<close>

definition convert_id :: "string option \<Rightarrow> string result" where
  "convert_id x =
     (case x of
        None \<Rightarrow> Inl AttributeError
      | Some s \<Rightarrow>
          if is_decimal s then Inr s
          else (case s of [c] \<Rightarrow> Inr (nat_text (of_char c)) | _ \<Rightarrow> Inl TypeError))"

definition create_msg :: "field_registry \<Rightarrow> xml \<Rightarrow> message_def result" where
  "create_msg reg e =
     rbind (parse_fields reg (case x_kids e of [] \<Rightarrow> None | k # _ \<Rightarrow> Some k)) (\<lambda>fs.
     rbind (convert_id (x_get e ''message-id'')) (\<lambda>i.
       Inr \<lparr>md_name = x_get e ''id'', md_id = i, md_group = x_get e ''message-group'', md_fields = fs,
            md_direction = x_get e ''direction''\<rparr>))"

definition message_key :: "message_def \<Rightarrow> string" where
  "message_key m = md_id m @ ''-'' @ fmt (md_group m) @ ''-'' @ fmt (md_direction m)"

fun messages_loop ::
  "field_registry \<Rightarrow> bool \<Rightarrow> xml list \<Rightarrow> (string \<times> message_def) list \<Rightarrow> (string \<times> message_def) list result" where
  "messages_loop reg override [] d = Inr d"
| "messages_loop reg override (e # es) d =
     rbind (create_msg reg e) (\<lambda>m.
       if message_key m \<in> fst ` set d \<and> \<not> override then Inl ValueError
       else messages_loop reg override es (dict_set d (message_key m) m))"

definition parse_messages :: "field_registry \<Rightarrow> bool \<Rightarrow> xml \<Rightarrow> message_def list result" where
  "parse_messages reg override e = rbind (messages_loop reg override (x_kids e) []) (\<lambda>d. Inr (map snd d))"

definition parse_enum :: "xml \<Rightarrow> enum_def" where
  "parse_enum e =
     \<lparr>ed_name = x_get e ''id'', ed_type = x_get e ''type'',
      ed_values = map (\<lambda>v. \<lparr>ev_name = x_get v ''name'', ev_description = x_get v ''description'',
                             ev_value = x_text v\<rparr>) (x_kids e)\<rparr>"

definition parse_enums :: "xml \<Rightarrow> enum_def list" where
  "parse_enums e = map parse_enum (x_kids e)"

text \<open>The sections of the file in document order. Each replaces what an earlier one of its kind
  gave; an exception leaves the registry of fields as it is.\<close>

fun parse_sections ::
  "bool \<Rightarrow> xml list \<Rightarrow> field_registry \<Rightarrow> spec_definitions \<Rightarrow> field_registry \<times> spec_definitions result" where
  "parse_sections override [] reg d = (reg, Inr d)"
| "parse_sections override (e # es) reg d =
     (if x_tag e = ''enums-root'' then
        parse_sections override es reg (d\<lparr>d_enums := named ed_name (parse_enums e)\<rparr>)
      else if x_tag e = ''fielddef-root'' then
        (case parse_fielddefs reg e of
           Inl x \<Rightarrow> (reg, Inl x) | Inr reg' \<Rightarrow> parse_sections override es reg' d)
      else if x_tag e = ''records-root'' then
        (case parse_records reg e of
           Inl x \<Rightarrow> (reg, Inl x)
         | Inr rs \<Rightarrow> parse_sections override es reg (d\<lparr>d_records := named rd_name rs\<rparr>))
      else if x_tag e = ''messages-root'' then
        (case parse_messages reg override e of
           Inl x \<Rightarrow> (reg, Inl x)
         | Inr ms \<Rightarrow> parse_sections override es reg (d\<lparr>d_messages := ms\<rparr>))
      else parse_sections override es reg d)"

definition parse_spec :: "bool \<Rightarrow> xml \<Rightarrow> field_registry \<Rightarrow> field_registry \<times> spec_definitions result" where
  "parse_spec override root reg =
     parse_sections override (x_kids root) reg \<lparr>d_enums = [], d_records = [], d_messages = []\<rparr>"

section \<open>Contexts of the generator\<close>

type_synonym type_info = "string \<rightharpoonup> string \<times> string"

fun class_name :: "TypeClass \<Rightarrow> string" where
  "class_name Boolean = ''Boolean''"
| "class_name IntT = ''Int''"
| "class_name IntBE = ''IntBE''"
| "class_name UnsignedInt = ''UnsignedInt''"
| "class_name UnsignedIntBE = ''UnsignedIntBE''"
| "class_name Byte = ''Byte''"
| "class_name Short = ''Short''"
| "class_name ShortBE = ''ShortBE''"
| "class_name UnsignedShort = ''UnsignedShort''"
| "class_name UnsignedShortBE = ''UnsignedShortBE''"
| "class_name Long = ''Long''"
| "class_name LongBE = ''LongBE''"
| "class_name UnsignedLong = ''UnsignedLong''"
| "class_name UnsignedLongBE = ''UnsignedLongBE''"
| "class_name CharAscii = ''CharAscii''"
| "class_name CharIso8599 = ''CharIso8599''"
| "class_name AsciiString = ''AsciiString''"
| "class_name Iso8859String = ''Iso8859String''"
| "class_name FixedAsciiString = ''FixedAsciiString''"
| "class_name FixedIsoString = ''FixedIsoString''"

definition class_hint :: "TypeClass \<Rightarrow> string" where
  "class_hint c = (if c = Boolean then ''bool'' else if int_format c \<noteq> None then ''int'' else ''str'')"

definition message_types :: type_info where
  "message_types t = map_option (\<lambda>c. (class_name c, class_hint c)) (Definitions t)"

definition type_lookup :: "type_info \<Rightarrow> string option \<Rightarrow> (string \<times> string) result" where
  "type_lookup types t =
     (case t of None \<Rightarrow> Inl KeyError | Some s \<Rightarrow> (case types s of None \<Rightarrow> Inl KeyError | Some i \<Rightarrow> Inr i))"

definition starts_with :: "string \<Rightarrow> string \<Rightarrow> bool" where
  "starts_with pat s \<longleftrightarrow> take (length pat) s = pat"

text \<open>\<open>s.replace(pat, '')\<close>: every occurrence goes.\<close>

function remove_all :: "string \<Rightarrow> string \<Rightarrow> string" where
  "remove_all pat s =
     (case s of
        [] \<Rightarrow> []
      | c # cs \<Rightarrow> if pat \<noteq> [] \<and> starts_with pat s then remove_all pat (drop (length pat) s)
                  else c # remove_all pat cs)"
  by pat_completeness auto
termination
  by (relation "measure (\<lambda>(pat, s). length s)") auto

declare remove_all.simps [simp del]

definition occurs_in :: "string \<Rightarrow> string \<Rightarrow> bool" where
  "occurs_in pat s \<longleftrightarrow> list_ex (\<lambda>n. starts_with pat (drop n s)) [0..<Suc (length s)]"

text \<open>The name and the hint of a field's type, before arrays and lengths.\<close>

definition base_type :: "type_info \<Rightarrow> spec_definitions \<Rightarrow> field_def \<Rightarrow> (string \<times> string) result" where
  "base_type types d f =
     (if sf_type f = None \<longleftrightarrow> sf_ref f = None then Inl ValueError
      else case sf_ref f of
        Some (c # cs) \<Rightarrow> Inr (c # cs, c # cs)
      | _ \<Rightarrow>
          (case sf_type f of
             None \<Rightarrow> Inl AttributeError
           | Some t \<Rightarrow>
               if starts_with ''enum:'' t then
                 (let n = remove_all ''enum:'' t
                  in case map_of (d_enums d) (Some n) of
                       None \<Rightarrow> Inl ValueError
                     | Some e \<Rightarrow> rbind (type_lookup types (ed_type e)) (\<lambda>(name, _). Inr (name, n)))
               else if starts_with ''record:'' t then
                 (case map_of (d_records d) (Some (remove_all ''record:'' t)) of
                    None \<Rightarrow> Inl ValueError
                  | Some r \<Rightarrow> (case rd_name r of None \<Rightarrow> Inl TypeError | Some n \<Rightarrow> Inr (n, n)))
               else type_lookup types (Some t)))"

definition array_type :: "string \<Rightarrow> string \<times> string \<Rightarrow> string \<times> string" where
  "array_type endian = (\<lambda>(t, h). (''Array('' @ t @ '', '' @ endian @ '')'', ''list['' @ h @ '']''))"

definition with_array :: "type_info \<Rightarrow> field_def \<Rightarrow> string \<times> string \<Rightarrow> (string \<times> string) result" where
  "with_array types f p =
     (case sf_array f of
        None \<Rightarrow> Inr p
      | Some a \<Rightarrow>
          rbind (type_lookup types (sf_length_type f)) (\<lambda>(endian, _).
            Inr (if a = ''double'' then array_type endian (array_type endian p) else array_type endian p)))"

definition is_fixed_len_str :: "field_def \<Rightarrow> bool" where
  "is_fixed_len_str f \<longleftrightarrow> sf_type f \<in> {Some ''str_ascii_n'', Some ''str_iso-8859-1_n''}"

record field_ctx =
  cx_name :: "string option"
  cx_type :: string
  cx_hint :: string
  cx_quote :: bool
  cx_default :: bool
  cx_default_value :: "string option"

definition field_context :: "type_info \<Rightarrow> spec_definitions \<Rightarrow> field_def \<Rightarrow> field_ctx result" where
  "field_context types d f =
     rbind (base_type types d f) (\<lambda>p.
     rbind (with_array types f p) (\<lambda>(t0, h).
       let t = (if is_fixed_len_str f then t0 @ ''(length='' @ fmt (sf_length f) @ '')'' else t0)
       in Inr \<lparr>cx_name = sf_name f, cx_type = t, cx_hint = h,
               cx_quote = (occurs_in ''Char'' t \<or> occurs_in ''String'' t),
               cx_default = (sf_default f \<noteq> None), cx_default_value = sf_default f\<rparr>))"

type_synonym enum_ctx = "string option \<times> bool \<times> (string option \<times> string option) list"

definition enum_context :: "type_info \<Rightarrow> enum_def \<Rightarrow> enum_ctx result" where
  "enum_context types e =
     rbind (type_lookup types (ed_type e)) (\<lambda>(_, hint).
       Inr (ed_name e, hint = ''str'', map (\<lambda>v. (ev_name v, ev_value v)) (ed_values e)))"

definition record_context ::
  "type_info \<Rightarrow> spec_definitions \<Rightarrow> record_def \<Rightarrow> (string option \<times> field_ctx list) result" where
  "record_context types d r =
     rbind (map_result (field_context types d) (rd_fields r)) (\<lambda>cs. Inr (rd_name r, cs))"

record message_ctx =
  mc_msg_name :: "string option"
  mc_indicator :: string
  mc_group :: "string option"
  mc_fields :: "field_ctx list"
  mc_direction :: "string option"

definition message_context :: "type_info \<Rightarrow> spec_definitions \<Rightarrow> message_def \<Rightarrow> message_ctx result" where
  "message_context types d m =
     rbind (map_result (field_context types d) (md_fields m)) (\<lambda>cs.
       Inr \<lparr>mc_msg_name = md_name m, mc_indicator = md_id m, mc_group = md_group m, mc_fields = cs,
            mc_direction = md_direction m\<rparr>)"

definition spec_context ::
  "type_info \<Rightarrow> spec_definitions \<Rightarrow>
     (enum_ctx list \<times> message_ctx list \<times> (string option \<times> field_ctx list) list) result" where
  "spec_context types d =
     rbind (map_result (\<lambda>p. enum_context types (snd p)) (d_enums d)) (\<lambda>es.
     rbind (map_result (message_context types d) (d_messages d)) (\<lambda>ms.
     rbind (map_result (\<lambda>p. record_context types d (snd p)) (d_records d)) (\<lambda>rs.
       Inr (es, ms, rs))))"

end
