(* ===== verification/SpecProps.thy ===== *)
theory SpecProps
  imports SpecParser
begin

text \<open>
  What the specification parser guarantees: the messages of a specification are those of its file,
  each key once; a generated field names only what is defined; the registry of fields that
  outlives a parse, and when it does not matter.
\<close>

section \<open>Messages\<close>

text \<open>The dictionary of the messages as a fold, when nothing is refused.\<close>

lemma messages_loop_override:
  "messages_loop reg True es d =
     rbind (map_result (create_msg reg) es) (\<lambda>ms. Inr (fold (\<lambda>m d. dict_set d (message_key m) m) ms d))"
proof (induction es arbitrary: d)
  case (Cons e es)
  then show ?case by (cases "create_msg reg e"; cases "map_result (create_msg reg) es") simp_all
qed simp

lemma messages_loop_strict:
  "messages_loop reg False es d = Inr d' \<longleftrightarrow>
     (\<exists>ms. map_result (create_msg reg) es = Inr ms \<and> distinct (map message_key ms) \<and>
           set (map message_key ms) \<inter> fst ` set d = {} \<and> d' = d @ map (\<lambda>m. (message_key m, m)) ms)"
proof (induction es arbitrary: d)
  case (Cons e es)
  have new: "message_key m \<notin> fst ` set d \<Longrightarrow> dict_set d (message_key m) m = d @ [(message_key m, m)]" for m
    by (simp add: dict_set_new)
  show ?case
    by (cases "create_msg reg e"; cases "map_result (create_msg reg) es")
      (auto simp: Cons new result_simps image_iff)
qed auto

text \<open>A dictionary built by a comprehension: the keys in the order of their first occurrence, each
  with the last element that has it.\<close>

definition firsts :: "'k list \<Rightarrow> 'k list" where
  "firsts ks = rev (remdups (rev ks))"

lemma named_snoc: "named sel (xs @ [x]) = dict_set (named sel xs) (sel x) x"
  by (simp add: named_def)

lemma named_keys: "map fst (named sel xs) = firsts (map sel xs)"
proof (induction xs rule: rev_induct)
  case Nil
  show ?case by (simp add: named_def firsts_def)
next
  case (snoc x xs)
  have "set (firsts (map sel xs)) = set (map sel xs)" by (simp add: firsts_def)
  with snoc show ?case
    unfolding named_snoc dict_set_keys by (auto simp: firsts_def)
qed

lemma named_lookup: "map_of (named sel xs) k = find (\<lambda>x. sel x = k) (rev xs)"
proof (induction xs rule: rev_induct)
  case Nil
  show ?case by (simp add: named_def)
next
  case (snoc x xs)
  then show ?case by (simp add: named_snoc)
qed

lemma find_rev_last: "\<exists>x \<in> set xs. P x \<Longrightarrow> find P (rev xs) = Some (last (filter P xs))"
proof (induction xs rule: rev_induct)
  case (snoc x xs)
  then show ?case by (cases "P x") auto
qed simp

lemma named_snds: "map snd (named sel xs) = map (\<lambda>k. last (filter (\<lambda>x. sel x = k) xs)) (firsts (map sel xs))"
proof -
  have d: "distinct (map fst (named sel xs))" by (simp add: named_keys firsts_def)
  have "snd p = last (filter (\<lambda>x. sel x = fst p) xs)" if "p \<in> set (named sel xs)" for p
  proof -
    have "map_of (named sel xs) (fst p) = Some (snd p)" using that d by simp
    moreover from this have "\<exists>x \<in> set xs. sel x = fst p"
      by (auto simp: named_lookup find_Some_iff) (metis length_rev nth_mem set_rev)
    ultimately show ?thesis using find_rev_last [of xs "\<lambda>x. sel x = fst p"] by (simp add: named_lookup)
  qed
  then have "map snd (named sel xs) = map (\<lambda>k. last (filter (\<lambda>x. sel x = k) xs)) (map fst (named sel xs))"
    by simp
  then show ?thesis by (simp only: named_keys)
qed

lemma parse_messages_override:
  "parse_messages reg True e =
     rbind (map_result (create_msg reg) (x_kids e)) (\<lambda>ms. Inr (map snd (named message_key ms)))"
  by (cases "map_result (create_msg reg) (x_kids e)")
    (simp_all add: parse_messages_def messages_loop_override named_def)

lemma parse_messages_strict:
  "parse_messages reg False e = Inr ms \<longleftrightarrow>
     map_result (create_msg reg) (x_kids e) = Inr ms \<and> distinct (map message_key ms)"
  by (auto simp: parse_messages_def result_simps messages_loop_strict comp_def)

section \<open>The types of fields\<close>

lemma lookup_simps [result_simps]:
  "type_lookup types t = Inr i \<longleftrightarrow> (\<exists>s. t = Some s \<and> types s = Some i)"
  "type_lookup types t = Inl x \<longleftrightarrow> x = KeyError \<and> (\<forall>s. t = Some s \<longrightarrow> types s = None)"
  by (auto simp: type_lookup_def split: option.splits)

text \<open>What a field may be based on: a known type, an enum or a record of the specification, or the
  name it refers to, which nothing checks.\<close>

definition defined_base :: "type_info \<Rightarrow> spec_definitions \<Rightarrow> field_def \<Rightarrow> string \<Rightarrow> bool" where
  "defined_base types d f name \<longleftrightarrow>
     name \<in> fst ` ran types \<or> Some name \<in> rd_name ` snd ` set (d_records d) \<or> sf_ref f = Some name"

lemma base_type_defined:
  assumes "base_type types d f = Inr (t, h)"
  shows "defined_base types d f t" "sf_type f = None \<longleftrightarrow> sf_ref f \<noteq> None"
proof -
  show "sf_type f = None \<longleftrightarrow> sf_ref f \<noteq> None"
    using assms by (auto simp: base_type_def split: if_splits)
  show "defined_base types d f t"
    using assms
    by (force simp: base_type_def defined_base_def result_simps ran_def Let_def image_iff
        split: if_splits option.splits list.splits dest: map_of_SomeD)
qed

lemma messages_loop_duplicate:
  "map_result (create_msg reg) es = Inr ms \<Longrightarrow> messages_loop reg False es d = Inl x \<Longrightarrow> x = ValueError"
proof (induction es arbitrary: d ms)
  case (Cons e es)
  then obtain m ms' where m: "create_msg reg e = Inr m" "map_result (create_msg reg) es = Inr ms'"
    by (auto simp: result_simps)
  show ?case
  proof (cases "message_key m \<in> fst ` set d")
    case True
    with Cons.prems(2) m(1) show ?thesis by simp
  next
    case False
    with Cons.prems(2) m(1) have "messages_loop reg False es (dict_set d (message_key m) m) = Inl x" by simp
    then show ?thesis by (rule Cons.IH [OF m(2)])
  qed
qed simp

section \<open>The registry of fields\<close>

lemma parse_field_plain: "x_get e ''def'' \<in> {None, Some []} \<Longrightarrow> parse_field reg e = parse_field reg' e"
  by (auto simp: parse_field_def)

lemma parse_fielddefs_plain:
  assumes "\<forall>k \<in> set (x_kids e). x_get k ''def'' \<in> {None, Some []}"
  shows "parse_fielddefs reg e = parse_fielddefs reg' e" "\<exists>r. parse_fielddefs reg e = Inr r"
proof -
  have "map_result (parse_field reg) (x_kids e) = map_result (parse_field reg') (x_kids e)"
    using assms parse_field_plain [of _ reg reg'] by (intro map_result_cong) auto
  then show "parse_fielddefs reg e = parse_fielddefs reg' e"
    by (simp add: parse_fielddefs_def parse_fields_def)
  have "\<forall>k \<in> set (x_kids e). \<exists>f. parse_field reg k = Inr f"
    using assms by (auto simp: parse_field_def split: option.splits list.splits)
  then obtain fs where "map_result (parse_field reg) (x_kids e) = Inr fs"
    using map_result_Inr_iff by metis
  then show "\<exists>r. parse_fielddefs reg e = Inr r"
    by (simp add: parse_fielddefs_def parse_fields_def)
qed

text \<open>A specification without a section of fields resolves its references in what an earlier parse
  left, and leaves it for the next.\<close>

lemma registry_kept:
  "\<forall>e \<in> set es. x_tag e \<noteq> ''fielddef-root'' \<Longrightarrow> fst (parse_sections override es reg d) = reg"
  by (induction es arbitrary: d) (auto split: sum.splits)

lemma registry_leaks:
  assumes "map_of reg (Some n) = Some f" "n \<noteq> []"
  shows "parse_field reg (Xml ''field'' [(''def'', n)] None []) = Inr f"
    and "parse_field [] (Xml ''field'' [(''def'', n)] None []) = Inl KeyError"
  using assms by (cases n; simp add: parse_field_def x_get_def)+

text \<open>Different messages may have one key.\<close>

lemma message_key_collision:
  "message_key \<lparr>md_name = n, md_id = i, md_group = Some ''a-b'', md_fields = fs, md_direction = Some ''c''\<rparr> =
   message_key \<lparr>md_name = n', md_id = i, md_group = Some ''a'', md_fields = fs', md_direction = Some ''b-c''\<rparr>"
  by (simp add: message_key_def fmt_def)

section \<open>Properties\<close>

definition spec_field :: "string \<Rightarrow> (string \<times> string) list \<Rightarrow> xml" where
  "spec_field name attrs = Xml ''field'' ((''name'', name) # attrs) None []"

definition spec_message :: "string \<Rightarrow> string \<Rightarrow> xml list \<Rightarrow> xml" where
  "spec_message name i fs =
     Xml ''message'' [(''id'', name), (''message-id'', i), (''direction'', ''outgoing'')] None [Xml ''fields'' [] None fs]"

definition sample_spec :: xml where
  "sample_spec = Xml ''root'' [] None
     [Xml ''fielddef-root'' [] None [spec_field ''price'' [(''type'', ''int_8'')]],
      Xml ''messages-root'' [] None
        [spec_message ''Order'' ''O'' [Xml ''field'' [(''def'', ''price'')] None []],
         spec_message ''Cancel'' ''X'' [], spec_message ''Replace'' ''O'' []]]"

text \<open>
  C35: the messages of a specification. Refusing duplicates, the messages are those of the file in
  its order if their keys - id, group and direction - differ, and an error otherwise; overriding,
  there is one message for each key, the last one of the file, in the order of first occurrence.
\<close>
theorem spec_messages:
  assumes "map_result (create_msg reg) (x_kids e) = Inr ms"
  shows "parse_messages reg False e = (if distinct (map message_key ms) then Inr ms else Inl ValueError) \<and>
    parse_messages reg True e =
      Inr (map (\<lambda>k. last (filter (\<lambda>m. message_key m = k) ms)) (firsts (map message_key ms)))"
proof -
  have "parse_messages reg False e = Inl ValueError" if "\<not> distinct (map message_key ms)"
  proof (cases "messages_loop reg False (x_kids e) []")
    case (Inl x)
    with messages_loop_duplicate [OF assms] show ?thesis by (simp add: parse_messages_def)
  next
    case (Inr d)
    with parse_messages_strict [of reg e "map snd d"] assms that show ?thesis
      by (simp add: parse_messages_def)
  qed
  then show ?thesis
    using assms parse_messages_strict [of reg e ms]
    by (simp add: parse_messages_override named_snds)
qed

theorem spec_messages_witness:
  "\<exists>e ms. map_result (create_msg []) (x_kids e) = Inr ms \<and> length ms = 3 \<and>
     parse_messages [] False e = Inl ValueError \<and> length (projr (parse_messages [] True e)) = 2"
proof -
  let ?e = "Xml ''messages-root'' [] None
        [spec_message ''Order'' ''O'' [], spec_message ''Cancel'' ''X'' [], spec_message ''Replace'' ''O'' []]"
  define ms where "ms = projr (map_result (create_msg []) (x_kids ?e))"
  have ms: "map_result (create_msg []) (x_kids ?e) = Inr ms" unfolding ms_def by code_simp
  have "\<not> distinct (map message_key ms)" "length (firsts (map message_key ms)) = 2" "length ms = 3"
    unfolding ms_def by code_simp+
  with spec_messages [OF ms] have "parse_messages [] False ?e = Inl ValueError"
    "length (projr (parse_messages [] True ?e)) = 2" by simp_all
  with ms \<open>length ms = 3\<close> show ?thesis by blast
qed

text \<open>
  a generated field names what is defined. If there is a context for a field, the field has
  either a type or a reference, and its type expression is built - with its array and its length -
  from a registered type, a record of the specification or the reference.
\<close>
theorem spec_field_defined:
  assumes "field_context types d f = Inr c"
  shows "(sf_type f = None \<longleftrightarrow> sf_ref f \<noteq> None) \<and>
    (\<exists>base. defined_base types d f base \<and>
       (case sf_array f of
          None \<Rightarrow> cx_type c = base @ (if is_fixed_len_str f then ''(length='' @ fmt (sf_length f) @ '')'' else [])
        | Some a \<Rightarrow> \<exists>endian \<in> fst ` ran types. \<exists>inner.
            inner = (if a = ''double'' then ''Array('' @ base @ '', '' @ endian @ '')'' else base) \<and>
            cx_type c = ''Array('' @ inner @ '', '' @ endian @ '')'' @
              (if is_fixed_len_str f then ''(length='' @ fmt (sf_length f) @ '')'' else [])))"
proof -
  from assms obtain base h t0 h0 where b: "base_type types d f = Inr (base, h)"
    "with_array types f (base, h) = Inr (t0, h0)"
    and c: "cx_type c = t0 @ (if is_fixed_len_str f then ''(length='' @ fmt (sf_length f) @ '')'' else [])"
    by (auto simp: field_context_def result_simps Let_def)
  show ?thesis
  proof (cases "sf_array f")
    case None
    with b c base_type_defined [OF b(1)] show ?thesis by (auto simp: with_array_def)
  next
    case (Some a)
    with b(2) obtain endian x where e: "types (the (sf_length_type f)) = Some (endian, x)"
      "t0 = fst (if a = ''double'' then array_type endian (array_type endian (base, h)) else array_type endian (base, h))"
      by (auto simp: with_array_def result_simps split: if_splits)
    then have "endian \<in> fst ` ran types" by (force simp: ran_def image_iff)
    with e(2) Some c base_type_defined [OF b(1)] show ?thesis
      by (auto simp: array_type_def intro!: exI [of _ base] bexI [of _ endian])
  qed
qed

theorem spec_field_defined_witness:
  "\<exists>f c. field_context message_types \<lparr>d_enums = [], d_records = [], d_messages = []\<rparr> f = Inr c \<and>
     cx_type c = ''Array(FixedAsciiString, UnsignedShort)(length=4)'' \<and> (sf_type f = None \<longleftrightarrow> sf_ref f \<noteq> None)"
proof -
  let ?d = "\<lparr>d_enums = [], d_records = [], d_messages = []\<rparr>"
  define f where "f = \<lparr>sf_name = Some ''x'', sf_type = Some ''str_ascii_n'', sf_ref = None, sf_array = Some ''single'',
    sf_length = Some ''4'', sf_default = None, sf_length_type = Some ''uint_2''\<rparr>"
  define c where "c = projr (field_context message_types ?d f)"
  have c: "field_context message_types ?d f = Inr c" unfolding c_def f_def by code_simp
  have "cx_type c = ''Array(FixedAsciiString, UnsignedShort)(length=4)''" unfolding c_def f_def by code_simp
  with c spec_field_defined [OF c, THEN conjunct1] show ?thesis by (intro exI conjI)
qed

text \<open>
  when a parse does not depend on the parses before it. If the first section of a specification
  defines its fields, without references, what the process parsed before makes no difference,
  neither to the result nor to what is left behind.
\<close>
theorem spec_registry_fresh:
  assumes "x_kids root = e # es" and "x_tag e = ''fielddef-root''"
    and "\<forall>k \<in> set (x_kids e). x_get k ''def'' \<in> {None, Some []}"
  shows "parse_spec override root reg = parse_spec override root reg'"
proof -
  obtain r where "parse_fielddefs reg e = Inr r" "parse_fielddefs reg' e = Inr r"
    using parse_fielddefs_plain [OF assms(3)] by metis
  with assms(1,2) show ?thesis by (simp add: parse_spec_def)
qed

theorem spec_registry_fresh_witness:
  "\<forall>reg. parse_spec True sample_spec reg = parse_spec True sample_spec [] \<and>
     (\<exists>d. snd (parse_spec True sample_spec []) = Inr d \<and> length (d_messages d) = 2)"
proof -
  have k: "x_kids sample_spec = hd (x_kids sample_spec) # tl (x_kids sample_spec)"
    "x_tag (hd (x_kids sample_spec)) = ''fielddef-root''"
    "\<forall>k \<in> set (x_kids (hd (x_kids sample_spec))). x_get k ''def'' \<in> {None, Some []}"
    by (simp_all add: sample_spec_def spec_field_def x_get_def)
  have "case snd (parse_spec True sample_spec []) of Inl _ \<Rightarrow> False | Inr d \<Rightarrow> length (d_messages d) = 2"
    by code_simp
  then show ?thesis
    using spec_registry_fresh [OF k, of True] by (auto split: sum.splits)
qed

end
