(* ===== verification/FixSpec.thy ===== *)
theory FixSpec
  imports SpecParser FixTypes
begin

text \<open>
  The parser of FIX specifications (\<open>fix/parser/parser.py\<close>) and the contexts of its generator
  (\<open>fix/parser/definitions.py\<close>). A reference to a component that is not parsed yet parses it, so
  components that refer to each other in a circle recurse until Python gives up. The model counts
  the nesting of such expansions with \<open>fuel\<close> and raises \<open>RecursionError\<close> when it runs out; how much is
  enough is proved. An entry is never changed once it is made, so sharing it is copying it.
\<close>

section \<open>Definitions\<close>

record fix_field_def =
  xf_tag :: "string option"
  xf_name :: "string option"
  xf_type :: FixType
  xf_values :: "(string option \<times> string option) list"

datatype fentry = FField bool fix_field_def | FGroup bool "string option" "fentry list"

record fix_message_def =
  xm_tag :: "string option"
  xm_name :: "string option"
  xm_category :: "string option"
  xm_entries :: "fentry list"

record fix_definitions =
  xd_version :: string
  xd_fields :: "(string option \<times> fix_field_def) list"
  xd_components :: "(string option \<times> fentry list) list"
  xd_header :: "fentry list"
  xd_trailer :: "fentry list"
  xd_messages :: "fix_message_def list"

definition fix_definitions_new :: "string \<Rightarrow> fix_definitions" where
  "fix_definitions_new version =
     \<lparr>xd_version = version, xd_fields = [], xd_components = [], xd_header = [], xd_trailer = [], xd_messages = []\<rparr>"

section \<open>Parsing\<close>

definition is_required :: "xml \<Rightarrow> bool" where
  "is_required e \<longleftrightarrow> x_get e ''required'' = Some ''Y''"

text \<open>\<open>element.iter(tag)\<close>: the element and everything below it.\<close>

fun x_iter :: "string \<Rightarrow> xml \<Rightarrow> xml list" where
  "x_iter tag (Xml t attrs text kids) =
     (if t = tag then [Xml t attrs text kids] else []) @ concat (map (x_iter tag) kids)"

fun handle_fields :: "(string \<rightharpoonup> FixType) \<Rightarrow> fix_definitions \<Rightarrow> xml list \<Rightarrow> fix_definitions result" where
  "handle_fields types d [] = Inr d"
| "handle_fields types d (e # es) =
     (if x_tag e \<noteq> ''field'' then Inl ValueError
      else let possible = fold (\<lambda>v vs. dict_set vs (x_get v ''enum'') (x_get v ''description'')) (x_iter ''value'' e) [];
               name = x_get e ''name''
           in case Option.bind (x_get e ''type'') types of
                None \<Rightarrow> Inl KeyError
              | Some t \<Rightarrow>
                  handle_fields types
                    (d\<lparr>xd_fields := dict_set (xd_fields d) name
                         \<lparr>xf_tag = x_get e ''number'', xf_name = name, xf_type = t, xf_values = possible\<rparr>\<rparr>) es)"

text \<open>\<open>root.findall('./components/component')\<close>, the first with the name.\<close>

definition find_component :: "xml \<Rightarrow> string option \<Rightarrow> xml option" where
  "find_component root name =
     find (\<lambda>x. x_get x ''name'' = name)
       (filter (\<lambda>x. x_tag x = ''component'')
         (concat (map x_kids (filter (\<lambda>x. x_tag x = ''components'') (x_kids root)))))"

lemma size_x_kids: "size_list size (x_kids e) < size e"
  by (cases e) simp

text \<open>\<open>_handle_entry\<close> for each of the entries: the entries they give, and the definitions with the
  components parsed on the way.\<close>

function handle_entries ::
  "xml \<Rightarrow> nat \<Rightarrow> fix_definitions \<Rightarrow> xml list \<Rightarrow> (fix_definitions \<times> fentry list) result" where
  "handle_entries root fuel d [] = Inr (d, [])"
| "handle_entries root fuel d (e # es) =
     rbind
       (if x_tag e = ''field'' then
          (case map_of (xd_fields d) (x_get e ''name'') of
             None \<Rightarrow> Inl ValueError
           | Some fd \<Rightarrow> Inr (d, [FField (is_required e) fd]))
        else if x_tag e = ''group'' then
          rbind (handle_entries root fuel d (x_kids e)) (\<lambda>(d', xs).
            Inr (d', [FGroup (is_required e) (x_get e ''name'') xs]))
        else if x_tag e = ''component'' then
          (case map_of (xd_components d) (x_get e ''name'') of
             Some xs \<Rightarrow> Inr (d, xs)
           | None \<Rightarrow>
               (case find_component root (x_get e ''name'') of
                  None \<Rightarrow> Inl ValueError
                | Some c \<Rightarrow>
                    (case fuel of
                       0 \<Rightarrow> Inl RecursionError
                     | Suc n \<Rightarrow>
                         rbind (handle_entries root n d (x_kids c)) (\<lambda>(d', xs).
                           Inr (d'\<lparr>xd_components := dict_set (xd_components d') (x_get e ''name'') xs\<rparr>, xs)))))
        else Inr (d, []))
       (\<lambda>(d1, xs). rbind (handle_entries root fuel d1 es) (\<lambda>(d2, ys). Inr (d2, xs @ ys)))"
  by pat_completeness auto
termination
proof (relation "measures [\<lambda>(root, fuel, d, es). fuel, \<lambda>(root, fuel, d, es). size_list size es]")
  show "wf (measures [\<lambda>(root :: xml, fuel, d :: fix_definitions, es). fuel, \<lambda>(root, fuel, d, es). size_list size es])"
    by simp
qed (auto simp: size_x_kids less_SucI intro: less_le_trans [OF size_x_kids])

declare handle_entries.simps [simp del]

definition handle_component :: "xml \<Rightarrow> nat \<Rightarrow> fix_definitions \<Rightarrow> xml \<Rightarrow> fix_definitions result" where
  "handle_component root fuel d c =
     rbind (handle_entries root fuel d (x_kids c)) (\<lambda>(d', xs).
       Inr (d'\<lparr>xd_components := dict_set (xd_components d') (x_get c ''name'') xs\<rparr>))"

fun handle_components :: "xml \<Rightarrow> nat \<Rightarrow> fix_definitions \<Rightarrow> xml list \<Rightarrow> fix_definitions result" where
  "handle_components root fuel d [] = Inr d"
| "handle_components root fuel d (c # cs) =
     rbind (handle_component root fuel d c) (\<lambda>d'. handle_components root fuel d' cs)"

definition handle_header :: "xml \<Rightarrow> nat \<Rightarrow> fix_definitions \<Rightarrow> xml \<Rightarrow> fix_definitions result" where
  "handle_header root fuel d e =
     rbind (handle_entries root fuel d (x_kids e)) (\<lambda>(d', xs). Inr (d'\<lparr>xd_header := xd_header d' @ xs\<rparr>))"

definition handle_trailer :: "xml \<Rightarrow> nat \<Rightarrow> fix_definitions \<Rightarrow> xml \<Rightarrow> fix_definitions result" where
  "handle_trailer root fuel d e =
     rbind (handle_entries root fuel d (x_kids e)) (\<lambda>(d', xs). Inr (d'\<lparr>xd_trailer := xd_trailer d' @ xs\<rparr>))"

fun handle_messages :: "xml \<Rightarrow> nat \<Rightarrow> fix_definitions \<Rightarrow> xml list \<Rightarrow> fix_definitions result" where
  "handle_messages root fuel d [] = Inr d"
| "handle_messages root fuel d (m # ms) =
     rbind (handle_entries root fuel d (x_kids m)) (\<lambda>(d', xs).
       handle_messages root fuel
         (d'\<lparr>xd_messages := xd_messages d' @
               [\<lparr>xm_tag = x_get m ''msgtype'', xm_name = x_get m ''name'', xm_category = x_get m ''msgcat'',
                 xm_entries = xs\<rparr>]\<rparr>) ms)"

definition handle_section ::
  "(string \<rightharpoonup> FixType) \<Rightarrow> xml \<Rightarrow> nat \<Rightarrow> fix_definitions \<Rightarrow> xml \<Rightarrow> fix_definitions result" where
  "handle_section types root fuel d e =
     (if x_tag e = ''fields'' then handle_fields types d (x_kids e)
      else if x_tag e = ''components'' then handle_components root fuel d (x_kids e)
      else if x_tag e = ''header'' then handle_header root fuel d e
      else if x_tag e = ''trailer'' then handle_trailer root fuel d e
      else if x_tag e = ''messages'' then handle_messages root fuel d (x_kids e)
      else Inl KeyError)"

fun handle_sections ::
  "(string \<rightharpoonup> FixType) \<Rightarrow> xml \<Rightarrow> nat \<Rightarrow> xml list \<Rightarrow> fix_definitions \<Rightarrow> fix_definitions result" where
  "handle_sections types root fuel [] d = Inr d"
| "handle_sections types root fuel (e # es) d =
     rbind (handle_section types root fuel d e) (handle_sections types root fuel es)"

text \<open>The last section of the file comes first.\<close>

definition fix_parse :: "nat \<Rightarrow> xml \<Rightarrow> string \<Rightarrow> fix_definitions result" where
  "fix_parse fuel root version =
     (if x_tag root \<noteq> ''fix'' then Inl ValueError
      else rbind (get_supported_types version) (\<lambda>types.
        handle_sections types root fuel (rev (x_kids root)) (fix_definitions_new version)))"

section \<open>Contexts of the generator\<close>

text \<open>\<open>keyword.kwlist\<close>.\<close>

definition python_keywords :: "string list" where
  "python_keywords =
     [''False'', ''None'', ''True'', ''and'', ''as'', ''assert'', ''async'', ''await'', ''break'',
      ''class'', ''continue'', ''def'', ''del'', ''elif'', ''else'', ''except'', ''finally'', ''for'',
      ''from'', ''global'', ''if'', ''import'', ''in'', ''is'', ''lambda'', ''nonlocal'', ''not'',
      ''or'', ''pass'', ''raise'', ''return'', ''try'', ''while'', ''with'', ''yield'']"

fun fix_class_name :: "FixType \<Rightarrow> string" where
  "fix_class_name FixString = ''FixString''"
| "fix_class_name FixBool = ''FixBool''"
| "fix_class_name FixInt = ''FixInt''"
| "fix_class_name FixFloat = ''FixFloat''"
| "fix_class_name FixChar = ''FixChar''"
| "fix_class_name FixQuantity = ''FixQuantity''"
| "fix_class_name FixPrice = ''FixPrice''"
| "fix_class_name FixPriceOffset = ''FixPriceOffset''"
| "fix_class_name FixAmount = ''FixAmount''"
| "fix_class_name FixMultipleValueString = ''FixMultipleValueString''"
| "fix_class_name FixCurrency = ''FixCurrency''"
| "fix_class_name FixExchange = ''FixExchange''"
| "fix_class_name FixUTCTimeStamp = ''FixUTCTimeStamp''"
| "fix_class_name FixUTCTime = ''FixUTCTime''"
| "fix_class_name FixLocalMktDate = ''FixLocalMktDate''"
| "fix_class_name FixTzTime = ''FixTzTime''"
| "fix_class_name FixTzTimestamp = ''FixTzTimestamp''"
| "fix_class_name FixDayOfMonth = ''FixDayOfMonth''"
| "fix_class_name FixUTCTimeOnly = ''FixUTCTimeOnly''"
| "fix_class_name FixTzTimeonly = ''FixTzTimeonly''"

fun kind_hint :: "fix_kind \<Rightarrow> string" where
  "kind_hint KString = ''str''"
| "kind_hint KBool = ''bool''"
| "kind_hint KInt = ''int''"
| "kind_hint KFloat = ''float''"

record value_ctx =
  vc_name :: "string option"
  vc_value :: string
  vc_quote :: bool

definition values_ctx :: "fix_field_def \<Rightarrow> value_ctx list" where
  "values_ctx fd =
     map (\<lambda>(key, v). \<lparr>vc_name = key,
            vc_value = (if v \<in> Some ` set python_keywords then fmt v @ ''_'' else fmt v),
            vc_quote = (kind_of (xf_type fd) \<in> {KString, KBool})\<rparr>) (xf_values fd)"

record fix_field_ctx =
  fc_ctx_tag :: "string option"
  fc_ctx_name :: "string option"
  fc_ctx_type :: string
  fc_ctx_hint :: string
  fc_ctx_values :: "value_ctx list"

definition fix_field_context :: "fix_field_def \<Rightarrow> fix_field_ctx" where
  "fix_field_context fd =
     \<lparr>fc_ctx_tag = xf_tag fd, fc_ctx_name = xf_name fd, fc_ctx_type = fix_class_name (xf_type fd),
      fc_ctx_hint = kind_hint (kind_of (xf_type fd)), fc_ctx_values = values_ctx fd\<rparr>"

text \<open>The context of an entry, and what \<open>Group.Contexts\<close> records of a group: name, unique name and
  entries. The counters and the contexts are class attributes.\<close>

datatype entry_ctx = CField bool fix_field_ctx | CGroup bool "string option" string "entry_ctx list"

record group_state =
  g_counter :: "string option \<Rightarrow> nat"
  g_contexts :: "(string option \<times> string \<times> entry_ctx list) list"

definition group_state_new :: group_state where
  "group_state_new = \<lparr>g_counter = (\<lambda>_. 1), g_contexts = []\<rparr>"

definition unique_name :: "string option \<Rightarrow> nat \<Rightarrow> string" where
  "unique_name name n = fmt name @ ''_'' @ nat_text n"

text \<open>The context of a group computes those of its entries twice, once for itself and once for the
  record.\<close>

fun entry_context :: "fentry \<Rightarrow> group_state \<Rightarrow> entry_ctx \<times> group_state"
  and entries_context :: "fentry list \<Rightarrow> group_state \<Rightarrow> entry_ctx list \<times> group_state" where
  "entry_context (FField r fd) g = (CField r (fix_field_context fd), g)"
| "entry_context (FGroup r name es) g =
     (let u = unique_name name (g_counter g name);
          g0 = g\<lparr>g_counter := (g_counter g)(name := Suc (g_counter g name))\<rparr>;
          (xs, g1) = entries_context es g0;
          (ys, g2) = entries_context es g1
      in (CGroup r name u xs, g2\<lparr>g_contexts := g_contexts g2 @ [(name, u, ys)]\<rparr>))"
| "entries_context [] g = ([], g)"
| "entries_context (e # es) g =
     (let (x, g1) = entry_context e g; (xs, g2) = entries_context es g1 in (x # xs, g2))"

record body_ctx =
  bc_body_name :: string
  bc_entries :: "entry_ctx list"
  bc_message :: "(string option \<times> string option \<times> string option) option"

definition fix_message_context :: "fix_message_def \<Rightarrow> group_state \<Rightarrow> body_ctx \<times> group_state" where
  "fix_message_context m g =
     (let (xs, g1) = entries_context (xm_entries m) g
      in (\<lparr>bc_body_name = fmt (xm_name m) @ ''Body'', bc_entries = xs,
           bc_message = Some (xm_tag m, xm_name m, xm_category m)\<rparr>, g1))"

fun messages_context :: "fix_message_def list \<Rightarrow> group_state \<Rightarrow> body_ctx list \<times> group_state" where
  "messages_context [] g = ([], g)"
| "messages_context (m # ms) g =
     (let (x, g1) = fix_message_context m g; (xs, g2) = messages_context ms g1 in (x # xs, g2))"

definition client_session :: "string \<Rightarrow> string result" where
  "client_session version =
     (if version = ''4.4'' then Inr ''Fix44Session''
      else if version = ''5.0'' \<or> version = ''5.0SP2'' then Inr ''Fix50Session''
      else Inl ValueError)"

record fix_context =
  ctx_client_session :: string
  ctx_fields :: "fix_field_ctx list"
  ctx_bodies :: "body_ctx list"
  ctx_messages :: "body_ctx list"
  ctx_groups :: "(string option \<times> string \<times> entry_ctx list) list"

text \<open>The messages come first, then the session class, which may raise; what the groups left in
  the class attributes stays.\<close>

definition fix_spec_context :: "fix_definitions \<Rightarrow> group_state \<Rightarrow> group_state \<times> fix_context result" where
  "fix_spec_context d g =
     (let (ms, g1) = messages_context (xd_messages d) g
      in case client_session (xd_version d) of
           Inl e \<Rightarrow> (g1, Inl e)
         | Inr c \<Rightarrow>
             (let (hs, g2) = entries_context (xd_header d) g1;
                  (ts, g3) = entries_context (xd_trailer d) g2
              in (g3, Inr \<lparr>ctx_client_session = c, ctx_fields = map (fix_field_context \<circ> snd) (xd_fields d),
                     ctx_bodies = \<lparr>bc_body_name = ''Header'', bc_entries = hs, bc_message = None\<rparr> #
                                  \<lparr>bc_body_name = ''Trailer'', bc_entries = ts, bc_message = None\<rparr> # ms,
                     ctx_messages = ms, ctx_groups = g_contexts g3\<rparr>)))"

end
