(* ===== verification/FixExpansion.thy ===== *)
theory FixExpansion
  imports FixSpec
begin

text \<open>
  What the FIX parser makes of the entries of a message: its components replaced by their entries,
  at every depth. \<open>expands\<close> says so without order, cache or depth; the parser is shown to compute it,
  whatever it has parsed before, and to raise \<open>RecursionError\<close> only for components in a circle.
\<close>

section \<open>The expansion of entries\<close>

inductive expands ::
  "xml \<Rightarrow> (string option \<rightharpoonup> fix_field_def) \<Rightarrow> xml list \<Rightarrow> fentry list \<Rightarrow> bool"
  for root :: xml and fs :: "string option \<rightharpoonup> fix_field_def" where
  Nil: "expands root fs [] []"
| Field: "x_tag e = ''field'' \<Longrightarrow> fs (x_get e ''name'') = Some fd \<Longrightarrow> expands root fs es xs \<Longrightarrow>
    expands root fs (e # es) (FField (is_required e) fd # xs)"
| Group: "x_tag e = ''group'' \<Longrightarrow> expands root fs (x_kids e) ys \<Longrightarrow> expands root fs es xs \<Longrightarrow>
    expands root fs (e # es) (FGroup (is_required e) (x_get e ''name'') ys # xs)"
| Component: "x_tag e = ''component'' \<Longrightarrow> find_component root (x_get e ''name'') = Some c \<Longrightarrow>
    expands root fs (x_kids c) ys \<Longrightarrow> expands root fs es xs \<Longrightarrow>
    expands root fs (e # es) (ys @ xs)"
| Other: "x_tag e \<notin> {''field'', ''group'', ''component''} \<Longrightarrow> expands root fs es xs \<Longrightarrow>
    expands root fs (e # es) xs"

inductive_simps expands_Nil [simp]: "expands root fs [] xs"
inductive_simps expands_Cons: "expands root fs (e # es) xs"

lemma expands_by_tag:
  "x_tag e = ''field'' \<Longrightarrow> expands root fs (e # es) zs \<longleftrightarrow>
     (\<exists>fd xs. fs (x_get e ''name'') = Some fd \<and> expands root fs es xs \<and> zs = FField (is_required e) fd # xs)"
  "x_tag e = ''group'' \<Longrightarrow> expands root fs (e # es) zs \<longleftrightarrow>
     (\<exists>ys xs. expands root fs (x_kids e) ys \<and> expands root fs es xs \<and>
        zs = FGroup (is_required e) (x_get e ''name'') ys # xs)"
  "x_tag e = ''component'' \<Longrightarrow> expands root fs (e # es) zs \<longleftrightarrow>
     (\<exists>c ys xs. find_component root (x_get e ''name'') = Some c \<and> expands root fs (x_kids c) ys \<and>
        expands root fs es xs \<and> zs = ys @ xs)"
  "x_tag e \<notin> {''field'', ''group'', ''component''} \<Longrightarrow> expands root fs (e # es) zs \<longleftrightarrow> expands root fs es zs"
  by (auto simp: expands_Cons)

lemma expands_det: "expands root fs es xs \<Longrightarrow> expands root fs es ys \<Longrightarrow> ys = xs"
proof (induction arbitrary: ys rule: expands.induct)
  case Nil
  then show ?case by simp
next
  case (Field e fd es xs)
  from Field.prems Field.hyps(2) obtain zs where "expands root fs es zs" "ys = FField (is_required e) fd # zs"
    by (auto simp: expands_by_tag(1) [OF Field.hyps(1)])
  with Field.IH show ?case by blast
next
  case (Group e zs es xs)
  from Group.prems obtain us vs where "expands root fs (x_kids e) us" "expands root fs es vs"
    "ys = FGroup (is_required e) (x_get e ''name'') us # vs"
    by (auto simp: expands_by_tag(2) [OF Group.hyps(1)])
  with Group.IH show ?case by blast
next
  case (Component e c zs es xs)
  from Component.prems Component.hyps(2) obtain us vs where "expands root fs (x_kids c) us"
    "expands root fs es vs" "ys = us @ vs"
    by (auto simp: expands_by_tag(3) [OF Component.hyps(1)])
  with Component.IH show ?case by blast
next
  case (Other e es xs)
  from Other.prems have "expands root fs es ys" by (simp only: expands_by_tag(4) [OF Other.hyps(1)])
  with Other.IH show ?case by blast
qed

lemma expands_append:
  "expands root fs es xs \<Longrightarrow> expands root fs es' ys \<Longrightarrow> expands root fs (es @ es') (xs @ ys)"
  by (induction rule: expands.induct) (auto intro: expands.intros)

section \<open>References between components\<close>

inductive refs :: "xml \<Rightarrow> xml list \<Rightarrow> string option \<Rightarrow> bool" for root :: xml where
  Direct: "e \<in> set es \<Longrightarrow> x_tag e = ''component'' \<Longrightarrow> refs root es (x_get e ''name'')"
| InGroup: "e \<in> set es \<Longrightarrow> x_tag e = ''group'' \<Longrightarrow> refs root (x_kids e) k \<Longrightarrow> refs root es k"
| Through: "e \<in> set es \<Longrightarrow> x_tag e = ''component'' \<Longrightarrow> find_component root (x_get e ''name'') = Some c \<Longrightarrow>
    refs root (x_kids c) k \<Longrightarrow> refs root es k"

lemma refs_Cons:
  "refs root (e # es) k \<longleftrightarrow>
     x_tag e = ''component'' \<and> (k = x_get e ''name'' \<or>
        (\<exists>c. find_component root (x_get e ''name'') = Some c \<and> refs root (x_kids c) k)) \<or>
     x_tag e = ''group'' \<and> refs root (x_kids e) k \<or> refs root es k"
proof
  assume "refs root (e # es) k"
  then show "x_tag e = ''component'' \<and> (k = x_get e ''name'' \<or>
        (\<exists>c. find_component root (x_get e ''name'') = Some c \<and> refs root (x_kids c) k)) \<or>
     x_tag e = ''group'' \<and> refs root (x_kids e) k \<or> refs root es k"
    by (cases rule: refs.cases) (auto intro: refs.intros)
next
  assume "x_tag e = ''component'' \<and> (k = x_get e ''name'' \<or>
        (\<exists>c. find_component root (x_get e ''name'') = Some c \<and> refs root (x_kids c) k)) \<or>
     x_tag e = ''group'' \<and> refs root (x_kids e) k \<or> refs root es k"
  moreover have "refs root es k \<Longrightarrow> refs root (e # es) k"
    by (cases rule: refs.cases) (auto intro: refs.intros)
  ultimately show "refs root (e # es) k"
    by (auto intro: refs.intros)
qed

lemma refs_Nil [simp]: "\<not> refs root [] k"
  by (auto elim: refs.cases)

lemma refs_trans:
  "refs root es k \<Longrightarrow> find_component root k = Some c \<Longrightarrow> refs root (x_kids c) k' \<Longrightarrow> refs root es k'"
  by (induction rule: refs.induct) (auto intro: refs.intros)

text \<open>Only what refers to no circle has an expansion.\<close>

lemma expands_no_circle:
  "expands root fs es xs \<Longrightarrow> refs root es k \<Longrightarrow>
   \<exists>c. find_component root k = Some c \<and> \<not> refs root (x_kids c) k"
proof (induction arbitrary: k rule: expands.induct)
  case (Component e c ys es xs)
  then show ?case
    by (auto simp: refs_Cons)
qed (auto simp: refs_Cons)

section \<open>The parser computes the expansion\<close>

text \<open>The components parsed so far are expansions of those of the file.\<close>

definition cache_ok :: "xml \<Rightarrow> fix_definitions \<Rightarrow> bool" where
  "cache_ok root d \<longleftrightarrow>
     (\<forall>name xs. map_of (xd_components d) name = Some xs \<longrightarrow>
        (\<exists>c. find_component root name = Some c \<and> expands root (map_of (xd_fields d)) (x_kids c) xs))"

definition same_but_components :: "fix_definitions \<Rightarrow> fix_definitions \<Rightarrow> bool" where
  "same_but_components d d' \<longleftrightarrow> d' = d\<lparr>xd_components := xd_components d'\<rparr>"

lemma same_but_refl [simp]: "same_but_components d d" "same_but_components d (d\<lparr>xd_components := cs\<rparr>)"
  by (simp_all add: same_but_components_def)

lemma same_but_trans: "same_but_components a b \<Longrightarrow> same_but_components b c \<Longrightarrow> same_but_components a c"
  unfolding same_but_components_def by (metis fix_definitions.update_convs(3) fix_definitions.surjective)

lemma same_but_fields: "same_but_components d d' \<Longrightarrow> xd_fields d' = xd_fields d"
  unfolding same_but_components_def by (metis fix_definitions.select_convs(2) fix_definitions.surjective fix_definitions.update_convs(3))

lemma cache_ok_set:
  assumes "cache_ok root d" "find_component root name = Some c" "expands root (map_of (xd_fields d)) (x_kids c) xs"
  shows "cache_ok root (d\<lparr>xd_components := dict_set (xd_components d) name xs\<rparr>)"
  using assms by (auto simp: cache_ok_def)

lemma handle_single:
  "handle_entries root n d [e] =
     (if x_tag e = ''field'' then
        (case map_of (xd_fields d) (x_get e ''name'') of
           None \<Rightarrow> Inl ValueError | Some fd \<Rightarrow> Inr (d, [FField (is_required e) fd]))
      else if x_tag e = ''group'' then
        rbind (handle_entries root n d (x_kids e)) (\<lambda>(d', xs).
          Inr (d', [FGroup (is_required e) (x_get e ''name'') xs]))
      else if x_tag e = ''component'' then
        (case map_of (xd_components d) (x_get e ''name'') of
           Some xs \<Rightarrow> Inr (d, xs)
         | None \<Rightarrow>
             (case find_component root (x_get e ''name'') of
                None \<Rightarrow> Inl ValueError
              | Some c \<Rightarrow>
                  (case n of
                     0 \<Rightarrow> Inl RecursionError
                   | Suc n' \<Rightarrow>
                       rbind (handle_entries root n' d (x_kids c)) (\<lambda>(d', xs).
                         Inr (d'\<lparr>xd_components := dict_set (xd_components d') (x_get e ''name'') xs\<rparr>, xs)))))
      else Inr (d, []))"
  (is "_ = ?r")
proof -
  have "handle_entries root n d [e] = rbind ?r (\<lambda>(d1, xs). Inr (d1, xs))"
    by (simp add: handle_entries.simps cong: if_cong)
  also have "\<dots> = ?r" by (cases ?r) auto
  finally show ?thesis .
qed

lemma handle_nil [simp]: "handle_entries root n d [] = Inr (d, [])"
  by (simp add: handle_entries.simps)

lemma handle_cons:
  "handle_entries root n d (e # es) =
     rbind (handle_entries root n d [e]) (\<lambda>(d1, xs). rbind (handle_entries root n d1 es) (\<lambda>(d2, ys). Inr (d2, xs @ ys)))"
  unfolding handle_single by (rule handle_entries.simps(2))

text \<open>Induction as the parser recurses: into groups, into components with less fuel, and on.\<close>

lemma handle_induct [case_names nil field group component other]:
  assumes nil: "\<And>n. P n []"
    and field: "\<And>n e es. x_tag e = ''field'' \<Longrightarrow> P n es \<Longrightarrow> P n (e # es)"
    and group: "\<And>n e es. x_tag e = ''group'' \<Longrightarrow> P n (x_kids e) \<Longrightarrow> P n es \<Longrightarrow> P n (e # es)"
    and component: "\<And>n e es. x_tag e = ''component'' \<Longrightarrow>
      (\<And>m c. n = Suc m \<Longrightarrow> find_component root (x_get e ''name'') = Some c \<Longrightarrow> P m (x_kids c)) \<Longrightarrow>
      P n es \<Longrightarrow> P n (e # es)"
    and other: "\<And>n e es. x_tag e \<notin> {''field'', ''group'', ''component''} \<Longrightarrow> P n es \<Longrightarrow> P n (e # es)"
  shows "P n es"
proof (induction n arbitrary: es rule: less_induct)
  case (less n)
  note outer = less.IH
  show ?case
  proof (induction es rule: measure_induct_rule [of "size_list size"])
    case (less es)
    show ?case
    proof (cases es)
      case Nil
      then show ?thesis by (simp add: nil)
    next
      case (Cons e es')
      have rest: "P n es'" using less.IH Cons by simp
      have kids: "P n (x_kids e)"
        using less.IH [of "x_kids e"] size_x_kids [of e] Cons by simp
      consider "x_tag e = ''field''" | "x_tag e = ''group''" | "x_tag e = ''component''"
        | "x_tag e \<notin> {''field'', ''group'', ''component''}" by auto
      then show ?thesis
      proof cases
        case 1
        show ?thesis unfolding Cons by (rule field [OF 1 rest])
      next
        case 2
        show ?thesis unfolding Cons by (rule group [OF 2 kids rest])
      next
        case 3
        show ?thesis unfolding Cons by (rule component [OF 3 _ rest]) (simp add: outer)
      next
        case 4
        show ?thesis unfolding Cons by (rule other [OF 4 rest])
      qed
    qed
  qed
qed

definition sound :: "xml \<Rightarrow> nat \<Rightarrow> xml list \<Rightarrow> bool" where
  "sound root n es \<longleftrightarrow>
     (\<forall>d d' xs. handle_entries root n d es = Inr (d', xs) \<longrightarrow> cache_ok root d \<longrightarrow>
        expands root (map_of (xd_fields d)) es xs \<and> cache_ok root d' \<and> same_but_components d d')"

lemma sound_cons:
  assumes "sound root n [e]" "sound root n es"
  shows "sound root n (e # es)"
  unfolding sound_def
proof (intro allI impI)
  fix d d' xs
  assume h: "handle_entries root n d (e # es) = Inr (d', xs)" and ok: "cache_ok root d"
  from h obtain d1 x y where 1: "handle_entries root n d [e] = Inr (d1, x)"
    and 2: "handle_entries root n d1 es = Inr (d', y)" and xs: "xs = x @ y"
    by (subst (asm) handle_cons) (auto simp: result_simps)
  from assms(1) 1 ok have s1: "expands root (map_of (xd_fields d)) [e] x" "cache_ok root d1" "same_but_components d d1"
    by (auto simp: sound_def)
  with assms(2) 2 have s2: "expands root (map_of (xd_fields d)) es y" "cache_ok root d'" "same_but_components d1 d'"
    using same_but_fields [OF s1(3)] by (fastforce simp: sound_def)+
  show "expands root (map_of (xd_fields d)) (e # es) xs \<and> cache_ok root d' \<and> same_but_components d d'"
    using expands_append [OF s1(1) s2(1)] same_but_trans [OF s1(3) s2(3)] s2(2) xs by simp
qed

lemma handle_sound: "sound root n es"
proof (induction n es rule: handle_induct [of _ root])
  case (nil n)
  then show ?case by (simp add: sound_def)
next
  case (field n e es)
  have "sound root n [e]"
    using field(1) by (simp add: sound_def handle_single expands_by_tag split: option.split)
  then show ?case using field(2) by (rule sound_cons)
next
  case (group n e es)
  have "sound root n [e]"
    using group(1,2) by (auto simp: sound_def handle_single result_simps expands_by_tag)
  then show ?case using group(3) by (rule sound_cons)
next
  case (component n e es)
  have "sound root n [e]"
    unfolding sound_def
  proof (intro allI impI)
    fix d d' xs
    assume h: "handle_entries root n d [e] = Inr (d', xs)" and ok: "cache_ok root d"
    show "expands root (map_of (xd_fields d)) [e] xs \<and> cache_ok root d' \<and> same_but_components d d'"
    proof (cases "map_of (xd_components d) (x_get e ''name'')")
      case (Some ys)
      with ok obtain c where c: "find_component root (x_get e ''name'') = Some c"
        "expands root (map_of (xd_fields d)) (x_kids c) ys" by (auto simp: cache_ok_def)
      with expands.Component [OF component(1) c expands.Nil] Some h component(1) ok show ?thesis
        by (simp add: handle_single)
    next
      case None
      with h component(1) obtain c m d1 where c: "find_component root (x_get e ''name'') = Some c" "n = Suc m"
        "handle_entries root m d (x_kids c) = Inr (d1, xs)"
        and d': "d' = d1\<lparr>xd_components := dict_set (xd_components d1) (x_get e ''name'') xs\<rparr>"
        by (auto simp: handle_single result_simps split: option.splits nat.splits)
      from component(2) [OF c(2,1)] c(3) ok have s: "expands root (map_of (xd_fields d)) (x_kids c) xs"
        "cache_ok root d1" "same_but_components d d1" by (auto simp: sound_def)
      have "cache_ok root d'"
        unfolding d' by (rule cache_ok_set [OF s(2) c(1)]) (use s in \<open>simp add: same_but_fields\<close>)
      moreover have "same_but_components d d'"
        unfolding d' by (rule same_but_trans [OF s(3)]) simp
      ultimately show ?thesis
        using expands.Component [OF component(1) c(1) s(1) expands.Nil] by simp
    qed
  qed
  then show ?case using component(3) by (rule sound_cons)
next
  case (other n e es)
  have "sound root n [e]"
    using other(1) by (simp add: sound_def handle_single expands_by_tag)
  then show ?case using other(2) by (rule sound_cons)
qed

text \<open>Enough fuel for an expansion that exists: its depth.\<close>

definition enough :: "xml \<Rightarrow> (string option \<rightharpoonup> fix_field_def) \<Rightarrow> xml list \<Rightarrow> fentry list \<Rightarrow> nat \<Rightarrow> bool" where
  "enough root fs es xs n \<longleftrightarrow>
     (\<forall>m \<ge> n. \<forall>d. map_of (xd_fields d) = fs \<longrightarrow> cache_ok root d \<longrightarrow> (\<exists>d'. handle_entries root m d es = Inr (d', xs)))"

lemma enough_cons:
  assumes "enough root fs [e] xs n" "enough root fs es ys m"
  shows "enough root fs (e # es) (xs @ ys) (max n m)"
  unfolding enough_def
proof (intro allI impI)
  fix k d
  assume k: "max n m \<le> k" and d: "map_of (xd_fields d) = fs" "cache_ok root d"
  from assms(1) k d obtain d1 where 1: "handle_entries root k d [e] = Inr (d1, xs)"
    by (auto simp: enough_def)
  with handle_sound [of root k "[e]"] d have "cache_ok root d1" "map_of (xd_fields d1) = fs"
    by (force simp: sound_def dest: same_but_fields)+
  with assms(2) k obtain d2 where "handle_entries root k d1 es = Inr (d2, ys)"
    by (auto simp: enough_def)
  with 1 show "\<exists>d'. handle_entries root k d (e # es) = Inr (d', xs @ ys)"
    by (subst handle_cons) simp
qed

lemma handle_complete: "expands root fs es xs \<Longrightarrow> \<exists>n. enough root fs es xs n"
proof (induction rule: expands.induct)
  case Nil
  show ?case by (simp add: enough_def)
next
  case (Field e fd es xs)
  have "enough root fs [e] [FField (is_required e) fd] 0"
    using Field(1,2) by (auto simp: enough_def handle_single)
  with enough_cons Field(4) show ?case by fastforce
next
  case (Group e ys es xs)
  then obtain n where "enough root fs (x_kids e) ys n" by blast
  then have "enough root fs [e] [FGroup (is_required e) (x_get e ''name'') ys] n"
    using Group(1) by (fastforce simp: enough_def handle_single)
  with enough_cons Group(5) show ?case by fastforce
next
  case (Component e c ys es xs)
  then obtain n where n: "enough root fs (x_kids c) ys n" by blast
  have "enough root fs [e] ys (Suc n)"
    unfolding enough_def
  proof (intro allI impI)
    fix m d
    assume m: "Suc n \<le> m" and d: "map_of (xd_fields d) = fs" "cache_ok root d"
    show "\<exists>d'. handle_entries root m d [e] = Inr (d', ys)"
    proof (cases "map_of (xd_components d) (x_get e ''name'')")
      case (Some zs)
      with d Component(2) have "expands root fs (x_kids c) zs" by (fastforce simp: cache_ok_def)
      with expands_det [OF Component(3)] have "zs = ys" by blast
      with Some Component(1) show ?thesis by (simp add: handle_single)
    next
      case None
      from m obtain m' where m': "m = Suc m'" "n \<le> m'" by (cases m) auto
      with n d obtain d' where "handle_entries root m' d (x_kids c) = Inr (d', ys)" by (auto simp: enough_def)
      with None m' Component(1,2) show ?thesis by (simp add: handle_single)
    qed
  qed
  with enough_cons Component(6) show ?case by blast
next
  case (Other e es xs)
  have "enough root fs [e] [] 0"
    using Other(1) by (simp add: enough_def handle_single)
  with enough_cons Other(3) show ?case by fastforce
qed

section \<open>The recursion ends\<close>

definition components_of :: "xml \<Rightarrow> xml list" where
  "components_of root =
     filter (\<lambda>x. x_tag x = ''component'') (concat (map x_kids (filter (\<lambda>x. x_tag x = ''components'') (x_kids root))))"

lemma find_component_of: "find_component root name = find (\<lambda>x. x_get x ''name'' = name) (components_of root)"
  by (simp add: find_component_def components_of_def)

definition acyclic_components :: "xml \<Rightarrow> bool" where
  "acyclic_components root \<longleftrightarrow> (\<forall>k c. find_component root k = Some c \<longrightarrow> \<not> refs root (x_kids c) k)"

definition component_names :: "xml \<Rightarrow> string option set" where
  "component_names root = {k. find_component root k \<noteq> None}"

lemma component_names: "finite (component_names root)" "card (component_names root) \<le> length (components_of root)"
proof -
  let ?img = "(\<lambda>x. x_get x ''name'') ` set (components_of root)"
  have sub: "component_names root \<subseteq> ?img"
    by (auto simp: component_names_def find_component_of find_Some_iff image_iff)
  show "finite (component_names root)"
    by (rule finite_subset [OF sub]) simp
  have "card (component_names root) \<le> card ?img" by (rule card_mono [OF _ sub]) simp
  also have "\<dots> \<le> card (set (components_of root))" by (rule card_image_le) simp
  also have "\<dots> \<le> length (components_of root)" by (rule card_length)
  finally show "card (component_names root) \<le> length (components_of root)" .
qed

text \<open>The components that are being expanded all refer to what is still to come, so none of them
  comes again.\<close>

definition open_names :: "xml \<Rightarrow> xml list \<Rightarrow> string option set \<Rightarrow> bool" where
  "open_names root es S \<longleftrightarrow>
     S \<subseteq> component_names root \<and>
     (\<forall>s \<in> S. \<forall>c k. find_component root s = Some c \<longrightarrow> refs root es k \<longrightarrow> refs root (x_kids c) k)"

definition returns_with :: "xml \<Rightarrow> nat \<Rightarrow> xml list \<Rightarrow> bool" where
  "returns_with root n es \<longleftrightarrow>
     (\<forall>S d. open_names root es S \<longrightarrow> card (component_names root) \<le> n + card S \<longrightarrow>
        handle_entries root n d es \<noteq> Inl RecursionError)"

lemma returns_cons:
  assumes "returns_with root n [e]" "returns_with root n es"
  shows "returns_with root n (e # es)"
  unfolding returns_with_def
proof (intro allI impI)
  fix S d
  assume S: "open_names root (e # es) S" "card (component_names root) \<le> n + card S"
  then have "open_names root [e] S" "open_names root es S"
    by (auto simp: open_names_def refs_Cons)
  with assms S(2) have "handle_entries root n d' [e] \<noteq> Inl RecursionError"
    "handle_entries root n d' es \<noteq> Inl RecursionError" for d'
    by (auto simp: returns_with_def)
  then show "handle_entries root n d (e # es) \<noteq> Inl RecursionError"
    by (subst handle_cons) (auto simp: result_simps)
qed

lemma handle_returns:
  assumes "acyclic_components root"
  shows "returns_with root n es"
proof (induction n es rule: handle_induct [of _ root])
  case (nil n)
  show ?case by (simp add: returns_with_def)
next
  case (field n e es)
  have "returns_with root n [e]"
    using field(1) by (simp add: returns_with_def handle_single split: option.split)
  then show ?case using field(2) by (rule returns_cons)
next
  case (group n e es)
  have "open_names root [e] S \<Longrightarrow> open_names root (x_kids e) S" for S
    using group(1) by (auto simp: open_names_def refs_Cons)
  with group(1,2) have "returns_with root n [e]"
    by (auto simp: returns_with_def handle_single result_simps)
  then show ?case using group(3) by (rule returns_cons)
next
  case (component n e es)
  let ?k = "x_get e ''name''"
  have "returns_with root n [e]"
    unfolding returns_with_def
  proof (intro allI impI)
    fix S d
    assume S: "open_names root [e] S" "card (component_names root) \<le> n + card S"
    show "handle_entries root n d [e] \<noteq> Inl RecursionError"
    proof (cases "find_component root ?k")
      case None
      then show ?thesis using component(1) by (simp add: handle_single split: option.split)
    next
      case (Some c)
      have fin: "finite S" using S(1) component_names(1) finite_subset by (auto simp: open_names_def)
      have "?k \<notin> S"
        using S(1) Some assms component(1) by (auto simp: open_names_def acyclic_components_def refs_Cons)
      moreover have "insert ?k S \<subseteq> component_names root"
        using S(1) Some by (auto simp: open_names_def component_names_def)
      ultimately have card: "Suc (card S) \<le> card (component_names root)"
        using card_mono [OF component_names(1), of "insert ?k S"] fin by simp
      with S(2) have "n \<noteq> 0" by linarith
      then obtain m where m: "n = Suc m" using not0_implies_Suc by blast
      have "refs root [e] k'" if "refs root (x_kids c) k'" for k'
        using that Some component(1) by (simp add: refs_Cons)
      note into = this
      have "refs root (x_kids b) k'" if "s \<in> insert ?k S" "find_component root s = Some b" "refs root (x_kids c) k'" for s b k'
      proof (cases "s = ?k")
        case True
        with that Some show ?thesis by simp
      next
        case False
        with that S(1) into show ?thesis unfolding open_names_def by blast
      qed
      with \<open>insert ?k S \<subseteq> component_names root\<close> have "open_names root (x_kids c) (insert ?k S)"
        unfolding open_names_def by blast
      moreover have "card (component_names root) \<le> m + card (insert ?k S)"
        using S(2) m fin \<open>?k \<notin> S\<close> by simp
      ultimately have "handle_entries root m d (x_kids c) \<noteq> Inl RecursionError"
        using component(2) [OF m Some] unfolding returns_with_def by blast
      with Some m component(1) show ?thesis
        by (auto simp: handle_single result_simps split: option.split)
    qed
  qed
  then show ?case using component(3) by (rule returns_cons)
next
  case (other n e es)
  have "returns_with root n [e]"
    using other(1) by (simp add: returns_with_def handle_single)
  then show ?case using other(2) by (rule returns_cons)
qed

lemma entries_return:
  assumes "acyclic_components root" "length (components_of root) \<le> n"
  shows "handle_entries root n d es \<noteq> Inl RecursionError"
  using handle_returns [OF assms(1), of n es] component_names(2) [of root] assms(2)
  unfolding returns_with_def open_names_def by (metis add.right_neutral card.empty empty_iff empty_subsetI le_trans)

lemma fields_return: "handle_fields types d es \<noteq> Inl RecursionError"
  by (induction types d es rule: handle_fields.induct) (auto simp: Let_def split: option.splits)

lemma sections_return:
  assumes "acyclic_components root" "length (components_of root) \<le> n"
  shows "handle_sections types root n es d \<noteq> Inl RecursionError"
proof -
  note ret = entries_return [OF assms]
  have c: "handle_components root n d cs \<noteq> Inl RecursionError" for d cs
    using ret by (induction cs arbitrary: d) (auto simp: handle_component_def result_simps)
  have m: "handle_messages root n d ms \<noteq> Inl RecursionError" for d ms
    using ret by (induction ms arbitrary: d) (auto simp: result_simps)
  have "handle_section types root n d e \<noteq> Inl RecursionError" for d e
    using c m ret fields_return by (auto simp: handle_section_def handle_header_def handle_trailer_def result_simps)
  then show ?thesis
    by (induction es arbitrary: d) (auto simp: result_simps)
qed

section \<open>The whole specification\<close>

text \<open>The children of the sections with a tag, in the order in which the sections are handled.\<close>

definition sections_of :: "string \<Rightarrow> xml list \<Rightarrow> xml list" where
  "sections_of tag es = concat (map x_kids (filter (\<lambda>e. x_tag e = tag) es))"

lemma sections_of_snoc: "sections_of tag (es @ [e]) = sections_of tag es @ (if x_tag e = tag then x_kids e else [])"
  by (simp add: sections_of_def)

definition unique_components :: "xml \<Rightarrow> bool" where
  "unique_components root \<longleftrightarrow>
     list_all (\<lambda>c. find_component root (x_get c ''name'') = Some c) (sections_of ''components'' (x_kids root))"

definition parsed_message ::
  "xml \<Rightarrow> (string option \<rightharpoonup> fix_field_def) \<Rightarrow> xml \<Rightarrow> fix_message_def \<Rightarrow> bool" where
  "parsed_message root fs m md \<longleftrightarrow>
     xm_tag md = x_get m ''msgtype'' \<and> xm_name md = x_get m ''name'' \<and> xm_category md = x_get m ''msgcat'' \<and>
     expands root fs (x_kids m) (xm_entries md)"

definition parsed :: "xml \<Rightarrow> xml list \<Rightarrow> fix_definitions \<Rightarrow> bool" where
  "parsed root secs d \<longleftrightarrow>
     cache_ok root d \<and>
     expands root (map_of (xd_fields d)) (sections_of ''header'' secs) (xd_header d) \<and>
     expands root (map_of (xd_fields d)) (sections_of ''trailer'' secs) (xd_trailer d) \<and>
     list_all2 (parsed_message root (map_of (xd_fields d))) (sections_of ''messages'' secs) (xd_messages d)"

lemma cache_ok_other [simp]:
  "cache_ok root (d\<lparr>xd_header := x\<rparr>) = cache_ok root d" "cache_ok root (d\<lparr>xd_trailer := x\<rparr>) = cache_ok root d"
  "cache_ok root (d\<lparr>xd_messages := y\<rparr>) = cache_ok root d"
  by (simp_all add: cache_ok_def)

lemma entries_soundE:
  assumes "handle_entries root n d es = Inr (d', xs)" "cache_ok root d"
  obtains cs where "expands root (map_of (xd_fields d)) es xs" "cache_ok root d'" "d' = d\<lparr>xd_components := cs\<rparr>"
  using assms handle_sound [of root n es] unfolding sound_def same_but_components_def by metis

lemma components_sound:
  "handle_components root n d cs = Inr d' \<Longrightarrow> cache_ok root d \<Longrightarrow>
   list_all (\<lambda>c. find_component root (x_get c ''name'') = Some c) cs \<Longrightarrow>
   cache_ok root d' \<and> same_but_components d d'"
proof (induction cs arbitrary: d)
  case (Cons c cs)
  from Cons.prems(1) obtain d1 xs where 1: "handle_entries root n d (x_kids c) = Inr (d1, xs)"
    and 2: "handle_components root n (d1\<lparr>xd_components := dict_set (xd_components d1) (x_get c ''name'') xs\<rparr>) cs = Inr d'"
    by (auto simp: handle_component_def result_simps)
  from entries_soundE [OF 1 Cons.prems(2)] obtain ks where k: "expands root (map_of (xd_fields d)) (x_kids c) xs"
    "cache_ok root d1" "d1 = d\<lparr>xd_components := ks\<rparr>" .
  have "cache_ok root (d1\<lparr>xd_components := dict_set (xd_components d1) (x_get c ''name'') xs\<rparr>)"
    by (rule cache_ok_set [OF k(2)]) (use k Cons.prems(3) in simp_all)
  with Cons.IH [OF 2] Cons.prems(3) have "cache_ok root d'"
    "same_but_components (d1\<lparr>xd_components := dict_set (xd_components d1) (x_get c ''name'') xs\<rparr>) d'" by simp_all
  moreover have "same_but_components d (d1\<lparr>xd_components := dict_set (xd_components d1) (x_get c ''name'') xs\<rparr>)"
    using k(3) by simp
  ultimately show ?case using same_but_trans by blast
qed simp

lemma messages_sound:
  "handle_messages root n d ms = Inr d' \<Longrightarrow> cache_ok root d \<Longrightarrow>
   \<exists>cs mds. d' = d\<lparr>xd_components := cs, xd_messages := xd_messages d @ mds\<rparr> \<and> cache_ok root d' \<and>
     list_all2 (parsed_message root (map_of (xd_fields d))) ms mds"
proof (induction ms arbitrary: d)
  case Nil
  then have "d' = d\<lparr>xd_components := xd_components d, xd_messages := xd_messages d @ []\<rparr>" by simp
  with Nil show ?case by (intro exI [of _ "xd_components d"] exI [of _ "[]"]) simp
next
  case (Cons m ms)
  let ?md = "\<lambda>xs. \<lparr>xm_tag = x_get m ''msgtype'', xm_name = x_get m ''name'', xm_category = x_get m ''msgcat'', xm_entries = xs\<rparr>"
  from Cons.prems(1) obtain d1 xs where 1: "handle_entries root n d (x_kids m) = Inr (d1, xs)"
    and 2: "handle_messages root n (d1\<lparr>xd_messages := xd_messages d1 @ [?md xs]\<rparr>) ms = Inr d'"
    by (auto simp: result_simps)
  from entries_soundE [OF 1 Cons.prems(2)] obtain ks where k: "expands root (map_of (xd_fields d)) (x_kids m) xs"
    "cache_ok root d1" "d1 = d\<lparr>xd_components := ks\<rparr>" .
  from Cons.IH [OF 2] k obtain cs mds where
    "d' = (d1\<lparr>xd_messages := xd_messages d1 @ [?md xs]\<rparr>)
       \<lparr>xd_components := cs, xd_messages := (xd_messages d1 @ [?md xs]) @ mds\<rparr>"
    "cache_ok root d'" "list_all2 (parsed_message root (map_of (xd_fields d))) ms mds" by auto
  moreover have "parsed_message root (map_of (xd_fields d)) m (?md xs)"
    using k(1) by (simp add: parsed_message_def)
  ultimately show ?case
    using k(3) by (intro exI [of _ cs] exI [of _ "?md xs # mds"]) simp
qed

lemma section_parsed:
  assumes "parsed root secs d" "handle_section types root n d e = Inr d'" "x_tag e \<noteq> ''fields''"
    and "x_tag e = ''components'' \<longrightarrow> list_all (\<lambda>c. find_component root (x_get c ''name'') = Some c) (x_kids e)"
  shows "parsed root (secs @ [e]) d' \<and> xd_fields d' = xd_fields d"
proof -
  have ok: "cache_ok root d" using assms(1) by (simp add: parsed_def)
  consider "x_tag e = ''components''" | "x_tag e = ''header''" | "x_tag e = ''trailer''" | "x_tag e = ''messages''"
    using assms(2,3) by (auto simp: handle_section_def split: if_splits)
  then show ?thesis
  proof cases
    case 1
    with assms(2) have h: "handle_components root n d (x_kids e) = Inr d'" by (simp add: handle_section_def)
    from components_sound [OF h ok] assms(4) 1 have "cache_ok root d'" "same_but_components d d'" by simp_all
    with assms(1) 1 show ?thesis
      unfolding same_but_components_def
      by (cases d') (auto simp: parsed_def sections_of_snoc)
  next
    case 2
    with assms(2) obtain d1 xs where h: "handle_entries root n d (x_kids e) = Inr (d1, xs)"
      and d': "d' = d1\<lparr>xd_header := xd_header d1 @ xs\<rparr>"
      by (auto simp: handle_section_def handle_header_def result_simps)
    from entries_soundE [OF h ok] obtain cs where "expands root (map_of (xd_fields d)) (x_kids e) xs"
      "cache_ok root d1" "d1 = d\<lparr>xd_components := cs\<rparr>" .
    with assms(1) 2 d' show ?thesis
      by (auto simp: parsed_def sections_of_snoc intro: expands_append)
  next
    case 3
    with assms(2) obtain d1 xs where h: "handle_entries root n d (x_kids e) = Inr (d1, xs)"
      and d': "d' = d1\<lparr>xd_trailer := xd_trailer d1 @ xs\<rparr>"
      by (auto simp: handle_section_def handle_trailer_def result_simps)
    from entries_soundE [OF h ok] obtain cs where "expands root (map_of (xd_fields d)) (x_kids e) xs"
      "cache_ok root d1" "d1 = d\<lparr>xd_components := cs\<rparr>" .
    with assms(1) 3 d' show ?thesis
      by (auto simp: parsed_def sections_of_snoc intro: expands_append)
  next
    case 4
    with assms(2) have h: "handle_messages root n d (x_kids e) = Inr d'" by (simp add: handle_section_def)
    from messages_sound [OF h ok] obtain cs mds where
      "d' = d\<lparr>xd_components := cs, xd_messages := xd_messages d @ mds\<rparr>" "cache_ok root d'"
      "list_all2 (parsed_message root (map_of (xd_fields d))) (x_kids e) mds" by blast
    with assms(1) 4 show ?thesis
      by (auto simp: parsed_def sections_of_snoc intro: list_all2_appendI)
  qed
qed

lemma sections_parsed:
  assumes "handle_sections types root n es d = Inr d'" "parsed root secs d"
    and "\<forall>e \<in> set es. x_tag e \<noteq> ''fields'' \<and>
      (x_tag e = ''components'' \<longrightarrow> list_all (\<lambda>c. find_component root (x_get c ''name'') = Some c) (x_kids e))"
  shows "parsed root (secs @ es) d'"
  using assms
proof (induction es arbitrary: d secs)
  case (Cons e es)
  from Cons.prems(1) obtain d1 where 1: "handle_section types root n d e = Inr d1"
    "handle_sections types root n es d1 = Inr d'" by (auto simp: result_simps)
  have "parsed root (secs @ [e]) d1"
    using section_parsed [OF Cons.prems(2) 1(1)] Cons.prems(3) by simp
  from Cons.IH [OF 1(2) this] Cons.prems(3) show ?case by simp
qed simp

lemma handle_fields_others:
  "handle_fields types d es = Inr d' \<Longrightarrow> \<exists>fs. d' = d\<lparr>xd_fields := fs\<rparr>"
proof (induction types d es rule: handle_fields.induct)
  case (1 types d)
  then have "d' = d\<lparr>xd_fields := xd_fields d\<rparr>" by simp
  then show ?case ..
next
  case (2 types d e es)
  then show ?case by (force simp: Let_def split: if_splits option.splits)
qed

lemma handle_keeps: "handle_entries root n d es = Inr (d', xs) \<Longrightarrow> same_but_components d d'"
proof -
  have "\<forall>d d' xs. handle_entries root n d es = Inr (d', xs) \<longrightarrow> same_but_components d d'"
  proof (induction n es rule: handle_induct [of _ root])
    case (nil n)
    show ?case by simp
  next
    case (field n e es)
    then show ?case
      by (subst handle_cons) (auto simp: handle_single result_simps split: option.splits)
  next
    case (group n e es)
    then show ?case
      by (subst handle_cons) (fastforce simp: handle_single result_simps intro: same_but_trans)
  next
    case (component n e es)
    have "same_but_components d d1" if "handle_entries root n d [e] = Inr (d1, x)" for d d1 x
      using that component(1,2)
      by (fastforce simp: handle_single result_simps split: option.splits nat.splits intro: same_but_trans)
    with component(3) show ?case
      by (subst handle_cons) (fastforce simp: result_simps intro: same_but_trans)
  next
    case (other n e es)
    then show ?case
      by (subst handle_cons) (auto simp: handle_single result_simps)
  qed
  then show "handle_entries root n d es = Inr (d', xs) \<Longrightarrow> same_but_components d d'" by blast
qed

lemma same_but_version: "same_but_components d d' \<Longrightarrow> xd_version d' = xd_version d"
  by (cases d; cases d') (simp add: same_but_components_def)

lemma handle_version [dest]: "handle_entries root n d es = Inr (d', xs) \<Longrightarrow> xd_version d' = xd_version d"
  by (blast dest: handle_keeps same_but_version)

lemma section_version: "handle_section types root n d e = Inr d' \<Longrightarrow> xd_version d' = xd_version d"
proof -
  have c: "handle_components root n d cs = Inr d' \<Longrightarrow> xd_version d' = xd_version d" for d cs
    by (induction cs arbitrary: d) (auto simp: handle_component_def result_simps)
  have m: "handle_messages root n d ms = Inr d' \<Longrightarrow> xd_version d' = xd_version d" for d ms
    by (induction ms arbitrary: d) (auto simp: result_simps)
  show "handle_section types root n d e = Inr d' \<Longrightarrow> xd_version d' = xd_version d"
    using c m by (auto simp: handle_section_def handle_header_def handle_trailer_def result_simps
        dest!: handle_fields_others split: if_splits)
qed

lemma sections_version: "handle_sections types root n es d = Inr d' \<Longrightarrow> xd_version d' = xd_version d"
  by (induction es arbitrary: d) (auto simp: result_simps dest: section_version)

end
