(* ===== verification/FixNames.thy ===== *)
theory FixNames
  imports FixSpec
begin

text \<open>
  The names the FIX generator invents for repeating groups: \<open>NAME_1\<close>, \<open>NAME_2\<close> and so on. The
  classes of the groups get different names, each is generated after those it uses, and how many
  there are.
\<close>

section \<open>Unique names\<close>

lemma show_nat_range: "c \<in> set (show_nat n) \<Longrightarrow> 48 \<le> c \<and> c \<le> 57"
  using show_nat_digits [of c n] by (simp add: is_digit_def)

lemma nat_text_codes: "map of_char (nat_text n) = show_nat n"
proof -
  have "c mod 256 = c" if "c \<in> set (show_nat n)" for c
    using show_nat_range [OF that] by simp
  then show ?thesis by (simp add: nat_text_def map_idI)
qed

lemma nat_text_digits: "CHR ''_'' \<notin> set (nat_text n)"
proof
  assume "CHR ''_'' \<in> set (nat_text n)"
  then have "(of_char (CHR ''_'') :: nat) \<in> of_char ` set (nat_text n)" by (rule imageI)
  then have "95 \<in> set (map of_char (nat_text n) :: nat list)" by simp
  then have "95 \<in> set (show_nat n)" unfolding nat_text_codes .
  then show False using show_nat_range [of 95 n] by simp
qed

lemma nat_text_inject: "nat_text m = nat_text n \<Longrightarrow> m = n"
  using nat_text_codes digits_val_show_nat by (metis option.inject)

lemma unique_name_inject:
  assumes "unique_name (Some a) i = unique_name (Some b) j"
  shows "a = b \<and> i = j"
proof -
  have rev_eq: "rev (nat_text i) @ CHR ''_'' # rev a = rev (nat_text j) @ CHR ''_'' # rev b"
    using arg_cong [OF assms, of rev] by (simp add: unique_name_def fmt_def)
  have tw: "takeWhile (\<lambda>c. c \<noteq> CHR ''_'') (rev (nat_text k) @ CHR ''_'' # xs) = rev (nat_text k)" for k xs
    using nat_text_digits [of k] by (subst takeWhile_append2) auto
  have "rev (nat_text i) = rev (nat_text j)"
    using arg_cong [OF rev_eq, of "takeWhile (\<lambda>c. c \<noteq> CHR ''_'')"] by (simp add: tw)
  with rev_eq nat_text_inject show ?thesis by auto
qed

section \<open>The contexts of groups\<close>

fun named_groups :: "fentry \<Rightarrow> bool" where
  "named_groups (FField r fd) \<longleftrightarrow> True"
| "named_groups (FGroup r name es) \<longleftrightarrow> name \<noteq> None \<and> list_all named_groups es"

fun class_count :: "fentry \<Rightarrow> nat" where
  "class_count (FField r fd) = 0"
| "class_count (FGroup r name es) = Suc (2 * sum_list (map class_count es))"

text \<open>The groups that a list of contexts uses, and those that are recorded.\<close>

fun used_group :: "entry_ctx \<Rightarrow> string list" where
  "used_group (CField r f) = []"
| "used_group (CGroup r name u xs) = [u]"

definition used_groups :: "entry_ctx list \<Rightarrow> string set" where
  "used_groups xs = set (concat (map used_group xs))"

type_synonym group_ctx = "string option \<times> string \<times> entry_ctx list"

definition class_names :: "group_ctx list \<Rightarrow> string list" where
  "class_names cs = map (fst \<circ> snd) cs"

definition numbered :: "group_state \<Rightarrow> group_state \<Rightarrow> group_ctx \<Rightarrow> bool" where
  "numbered g g' c \<longleftrightarrow>
     (\<exists>name i ys. c = (Some name, unique_name (Some name) i, ys) \<and>
        g_counter g (Some name) \<le> i \<and> i < g_counter g' (Some name))"

fun used_before :: "string set \<Rightarrow> group_ctx list \<Rightarrow> bool" where
  "used_before seen [] \<longleftrightarrow> True"
| "used_before seen ((name, u, ys) # cs) \<longleftrightarrow> used_groups ys \<subseteq> seen \<and> used_before (insert u seen) cs"

definition extends_by :: "group_state \<Rightarrow> group_state \<Rightarrow> group_ctx list \<Rightarrow> bool" where
  "extends_by g g' cs \<longleftrightarrow>
     g_contexts g' = g_contexts g @ cs \<and> g_counter g \<le> g_counter g' \<and> list_all (numbered g g') cs \<and>
     distinct (class_names cs) \<and> used_before {} cs"

lemma used_before_mono: "used_before S cs \<Longrightarrow> S \<subseteq> T \<Longrightarrow> used_before T cs"
proof (induction S cs arbitrary: T rule: used_before.induct)
  case (2 seen name u ys cs)
  from "2.prems" "2.IH" [of "insert u T"] show ?case by auto
qed simp

lemma used_before_append:
  "used_before S (xs @ ys) \<longleftrightarrow> used_before S xs \<and> used_before (S \<union> set (class_names xs)) ys"
  by (induction S xs rule: used_before.induct) (auto simp: class_names_def)

lemma numbered_mono:
  "numbered g1 g2 c \<Longrightarrow> g_counter g \<le> g_counter g1 \<Longrightarrow> g_counter g2 \<le> g_counter g' \<Longrightarrow> numbered g g' c"
  by (fastforce simp: numbered_def le_fun_def intro: le_trans less_le_trans)

lemma extends_refl: "extends_by g g []"
  by (simp add: extends_by_def class_names_def)

lemma numbered_apart:
  assumes "numbered g g1 c" "numbered g1 g2 c'"
  shows "fst (snd c) \<noteq> fst (snd c')"
  using assms unique_name_inject by (fastforce simp: numbered_def)

lemma extends_trans:
  assumes "extends_by g g1 xs" "extends_by g1 g2 ys"
  shows "extends_by g g2 (xs @ ys)"
proof -
  have "distinct (class_names (xs @ ys))"
    using assms numbered_apart by (fastforce simp: extends_by_def class_names_def list_all_iff)
  moreover have "list_all (numbered g g2) (xs @ ys)"
    using assms by (auto simp: extends_by_def list_all_iff intro: numbered_mono)
  moreover have "used_before {} (xs @ ys)"
    using assms by (auto simp: extends_by_def used_before_append intro: used_before_mono)
  moreover have "g_counter g \<le> g_counter g2"
    using assms by (auto simp: extends_by_def intro: order_trans)
  ultimately show ?thesis
    using assms by (simp add: extends_by_def)
qed

definition recorded :: "group_state \<Rightarrow> group_state \<Rightarrow> nat \<Rightarrow> entry_ctx list \<Rightarrow> bool" where
  "recorded g g' n xs \<longleftrightarrow>
     (\<exists>cs. extends_by g g' cs \<and> length cs = n \<and> used_groups xs \<subseteq> set (class_names cs))"

lemma entries_recorded:
  "named_groups e \<Longrightarrow> entry_context e g = (x, g') \<Longrightarrow> recorded g g' (class_count e) [x]"
  "list_all named_groups es \<Longrightarrow> entries_context es g = (xs, g') \<Longrightarrow>
     recorded g g' (sum_list (map class_count es)) xs"
proof (induction e g and es g arbitrary: x g' and xs g' rule: entry_context_entries_context.induct)
  case (1 r fd g)
  then show ?case by (auto simp: recorded_def used_groups_def intro: exI [of _ "[]"] extends_refl)
next
  case (2 r name es g)
  then obtain nm where nm: "name = Some nm" by auto
  define u where "u = unique_name name (g_counter g name)"
  define g0 where "g0 = g\<lparr>g_counter := (g_counter g)(name := Suc (g_counter g name))\<rparr>"
  obtain xs g1 where 1: "entries_context es g0 = (xs, g1)" by fastforce
  obtain ys g2 where 2: "entries_context es g1 = (ys, g2)" by fastforce
  have x: "x = CGroup r name u xs" and g': "g' = g2\<lparr>g_contexts := g_contexts g2 @ [(name, u, ys)]\<rparr>"
    using "2.prems"(2) 1 2 by (auto simp: Let_def u_def g0_def)
  have named: "list_all named_groups es" using "2.prems"(1) by simp
  from "2.IH"(1) [OF u_def g0_def named 1] obtain cs where
    cs: "extends_by g0 g1 cs" "length cs = sum_list (map class_count es)" by (auto simp: recorded_def)
  from "2.IH"(2) [OF u_def g0_def 1 [symmetric] refl named 2] obtain ds where
    ds: "extends_by g1 g2 ds" "length ds = sum_list (map class_count es)" "used_groups ys \<subseteq> set (class_names ds)"
    by (auto simp: recorded_def)
  have all: "extends_by g0 g2 (cs @ ds)" using extends_trans [OF cs(1) ds(1)] .
  have "extends_by g g' ((cs @ ds) @ [(name, u, ys)])"
    unfolding extends_by_def
  proof (intro conjI)
    show "g_contexts g' = g_contexts g @ (cs @ ds) @ [(name, u, ys)]"
      using all by (simp add: g' extends_by_def g0_def)
    have le: "g_counter g \<le> g_counter g0" "g_counter g0 \<le> g_counter g'"
      using all by (auto simp: le_fun_def g0_def g' extends_by_def)
    then show "g_counter g \<le> g_counter g'" by simp
    have "g_counter g name < g_counter g' name"
      using le(2) by (auto simp: le_fun_def g0_def dest: spec [of _ name])
    then have "numbered g g' (name, u, ys)"
      by (auto simp: numbered_def u_def nm)
    moreover have "list_all (numbered g g') (cs @ ds)"
      using all le numbered_mono [of g0 g2 _ g g'] by (auto simp: extends_by_def list_all_iff g')
    ultimately show "list_all (numbered g g') ((cs @ ds) @ [(name, u, ys)])" by simp
    have "u \<noteq> fst (snd c)" if "c \<in> set (cs @ ds)" for c
    proof -
      from all that have "numbered g0 g2 c" by (auto simp: extends_by_def list_all_iff)
      then obtain n' i zs where c: "c = (Some n', unique_name (Some n') i, zs)" "g_counter g0 (Some n') \<le> i"
        by (auto simp: numbered_def)
      show ?thesis
      proof
        assume "u = fst (snd c)"
        with c(1) nm have "nm = n' \<and> g_counter g name = i"
          using unique_name_inject by (auto simp: u_def)
        with c(2) nm show False by (simp add: g0_def)
      qed
    qed
    with all show "distinct (class_names ((cs @ ds) @ [(name, u, ys)]))"
      by (auto simp: extends_by_def class_names_def)
    show "used_before {} ((cs @ ds) @ [(name, u, ys)])"
      using all ds(3) by (auto simp: extends_by_def used_before_append class_names_def)
  qed
  moreover have "length ((cs @ ds) @ [(name, u, ys)]) = class_count (FGroup r name es)"
    using cs(2) ds(2) by simp
  moreover have "used_groups [x] \<subseteq> set (class_names ((cs @ ds) @ [(name, u, ys)]))"
    by (simp add: x used_groups_def class_names_def)
  ultimately show ?case unfolding recorded_def by blast
next
  case (3 g)
  then show ?case by (auto simp: recorded_def used_groups_def intro: exI [of _ "[]"] extends_refl)
next
  case (4 e es g)
  obtain x g1 where 1: "entry_context e g = (x, g1)" by fastforce
  obtain ys g2 where 2: "entries_context es g1 = (ys, g2)" by fastforce
  have xs: "xs = x # ys" and g': "g' = g2" using "4.prems"(2) 1 2 by auto
  from "4.IH"(1) [OF _ 1] "4.prems"(1) obtain cs where
    cs: "extends_by g g1 cs" "length cs = class_count e" "used_groups [x] \<subseteq> set (class_names cs)"
    by (auto simp: recorded_def)
  from "4.IH"(2) [OF 1 [symmetric] refl _ 2] "4.prems"(1) obtain ds where
    ds: "extends_by g1 g2 ds" "length ds = sum_list (map class_count es)" "used_groups ys \<subseteq> set (class_names ds)"
    by (auto simp: recorded_def)
  have "extends_by g g' (cs @ ds)" using extends_trans [OF cs(1) ds(1)] g' by simp
  moreover have "used_groups xs \<subseteq> set (class_names (cs @ ds))"
    using cs(3) ds(3) by (auto simp: xs used_groups_def class_names_def)
  ultimately show ?case
    using cs(2) ds(2) unfolding recorded_def by (intro exI [of _ "cs @ ds"]) simp
qed

end
