(* ===== verification/FixSpecProps.thy ===== *)
theory FixSpecProps
  imports FixExpansion FixNames
begin

text \<open>
  The properties of the FIX specification parser and of the contexts of its generator, with a
  small specification for their witnesses.
\<close>

section \<open>A sample specification\<close>

definition fix_el :: "string \<Rightarrow> string \<Rightarrow> xml list \<Rightarrow> xml" where
  "fix_el tag name kids = Xml tag [(''name'', name), (''required'', ''Y'')] None kids"

definition fix_field_el :: "string \<Rightarrow> string \<Rightarrow> string \<Rightarrow> xml" where
  "fix_field_el name number type = Xml ''field'' [(''number'', number), (''name'', name), (''type'', type)] None []"

definition sample_fix_fields :: xml where
  "sample_fix_fields = Xml ''fields'' [] None
     [fix_field_el ''Account'' ''1'' ''STRING'', fix_field_el ''NoLegs'' ''555'' ''INT'',
      fix_field_el ''NoSides'' ''552'' ''INT'', fix_field_el ''Price'' ''44'' ''PRICE'']"

definition sample_sides :: xml where
  "sample_sides = fix_el ''component'' ''Sides'' [fix_el ''group'' ''NoSides'' [fix_el ''field'' ''Account'' []]]"

definition sample_legs :: xml where
  "sample_legs = fix_el ''component'' ''Legs'' [fix_el ''group'' ''NoLegs'' [fix_el ''component'' ''Sides'' []]]"

definition sample_fix_sections :: "xml list" where
  "sample_fix_sections =
     [Xml ''header'' [] None [fix_el ''field'' ''Account'' []],
      Xml ''messages'' [] None
        [Xml ''message'' [(''name'', ''Order''), (''msgtype'', ''D''), (''msgcat'', ''app'')] None
           [fix_el ''component'' ''Legs'' [], fix_el ''field'' ''Price'' []]],
      Xml ''components'' [] None [sample_legs, sample_sides]]"

definition sample_fix_spec :: xml where
  "sample_fix_spec = Xml ''fix'' [] None (sample_fix_sections @ [sample_fix_fields])"

definition sample_fix_definitions :: fix_definitions where
  "sample_fix_definitions = projr (fix_parse 2 sample_fix_spec ''4.4'')"

lemma sample_fix_parsed: "fix_parse 2 sample_fix_spec ''4.4'' = Inr sample_fix_definitions"
  unfolding sample_fix_definitions_def by code_simp

text \<open>A circle of two components.\<close>

definition circular_a :: xml where
  "circular_a = fix_el ''component'' ''A'' [fix_el ''component'' ''B'' []]"

definition circular_b :: xml where
  "circular_b = fix_el ''component'' ''B'' [fix_el ''group'' ''NoSides'' [fix_el ''component'' ''A'' []]]"

definition circular_fix_spec :: xml where
  "circular_fix_spec = Xml ''fix'' [] None [Xml ''components'' [] None [circular_a, circular_b]]"

lemma fix_el_simps [simp]:
  "x_tag (fix_el tag name kids) = tag" "x_kids (fix_el tag name kids) = kids"
  "x_get (fix_el tag name kids) ''name'' = Some name"
  by (simp_all add: fix_el_def x_get_def)

lemma find_sample:
  "find_component sample_fix_spec k =
     (if k = Some ''Legs'' then Some sample_legs else if k = Some ''Sides'' then Some sample_sides else None)"
  by (auto simp: find_component_def sample_fix_spec_def sample_fix_sections_def sample_fix_fields_def
      sample_legs_def sample_sides_def)

lemma find_circular:
  "find_component circular_fix_spec k =
     (if k = Some ''A'' then Some circular_a else if k = Some ''B'' then Some circular_b else None)"
  by (auto simp: find_component_def circular_fix_spec_def circular_a_def circular_b_def)

section \<open>Components\<close>

text \<open>
  C36: components are replaced by their entries. Whatever has been parsed before and in whatever
  order, the parser gives a list of entries for some depth of recursion exactly if that list is
  the expansion of the elements: fields looked up, groups kept, components replaced by the
  expansion of their definition.
\<close>
theorem fix_components_inlined:
  assumes "cache_ok root d"
  shows "(\<exists>n d'. handle_entries root n d es = Inr (d', xs)) \<longleftrightarrow> expands root (map_of (xd_fields d)) es xs"
proof
  assume "\<exists>n d'. handle_entries root n d es = Inr (d', xs)"
  then obtain n d' where "handle_entries root n d es = Inr (d', xs)" by blast
  from entries_soundE [OF this assms] show "expands root (map_of (xd_fields d)) es xs" by blast
next
  assume "expands root (map_of (xd_fields d)) es xs"
  from handle_complete [OF this] obtain n where "enough root (map_of (xd_fields d)) es xs n" ..
  with assms show "\<exists>n d'. handle_entries root n d es = Inr (d', xs)"
    unfolding enough_def by blast
qed

theorem fix_components_inlined_witness:
  "\<exists>(d :: fix_definitions) xs. expands sample_fix_spec (map_of (xd_fields d)) [fix_el ''component'' ''Legs'' []] xs \<and> length xs = 1"
proof -
  define d where "d = projr (handle_fields fix_44_version_types (fix_definitions_new ''4.4'') (x_kids sample_fix_fields))"
  define r where "r = projr (handle_entries sample_fix_spec 2 d [fix_el ''component'' ''Legs'' []])"
  have "xd_components d = []" unfolding d_def by code_simp
  then have ok: "cache_ok sample_fix_spec d" by (simp add: cache_ok_def)
  have "handle_entries sample_fix_spec 2 d [fix_el ''component'' ''Legs'' []] = Inr r"
    unfolding r_def d_def by code_simp
  then have "\<exists>n d'. handle_entries sample_fix_spec n d [fix_el ''component'' ''Legs'' []] = Inr (d', snd r)"
    by (metis prod.collapse)
  then have "expands sample_fix_spec (map_of (xd_fields d)) [fix_el ''component'' ''Legs'' []] (snd r)"
    by (rule fix_components_inlined [OF ok, THEN iffD1])
  moreover have "length (snd r) = 1" unfolding r_def d_def by code_simp
  ultimately show ?thesis by blast
qed

text \<open>
  C37: when the recursion ends. If no component refers to itself, directly or through others, a
  depth of as many expansions as there are components is enough for the whole file. Entries that
  lead into a circle are never parsed, however deep the recursion may go.
\<close>
theorem fix_recursion:
  assumes "length (components_of root) \<le> n"
  shows "(acyclic_components root \<longrightarrow> fix_parse n root version \<noteq> Inl RecursionError) \<and>
    (\<forall>es k c d m d' xs. refs root es k \<longrightarrow> find_component root k = Some c \<longrightarrow> refs root (x_kids c) k \<longrightarrow>
       cache_ok root d \<longrightarrow> handle_entries root m d es \<noteq> Inr (d', xs))"
proof (intro conjI allI impI notI)
  assume "acyclic_components root" "fix_parse n root version = Inl RecursionError"
  then show False
    using sections_return [OF _ assms]
    by (auto simp: fix_parse_def result_simps get_supported_types_def split: if_splits)
next
  fix es k c d m d' xs
  assume k: "refs root es k" "find_component root k = Some c" "refs root (x_kids c) k"
    and h: "handle_entries root m d es = Inr (d', xs)" "cache_ok root d"
  from entries_soundE [OF h] have "expands root (map_of (xd_fields d)) es xs" .
  from expands_no_circle [OF this k(1)] k(2,3) show False by simp
qed

lemma sample_refs:
  "refs sample_fix_spec (x_kids sample_sides) k \<longleftrightarrow> False"
  "refs sample_fix_spec (x_kids sample_legs) k \<longleftrightarrow> k = Some ''Sides''"
  by (simp_all add: sample_sides_def sample_legs_def refs_Cons find_sample)

lemma sample_acyclic: "acyclic_components sample_fix_spec"
  by (simp add: acyclic_components_def find_sample sample_refs)

lemma circle_refs:
  "refs circular_fix_spec [fix_el ''component'' ''A'' []] (Some ''A'')"
  "find_component circular_fix_spec (Some ''A'') = Some circular_a"
  "refs circular_fix_spec (x_kids circular_a) (Some ''A'')"
proof -
  have "refs circular_fix_spec [fix_el ''component'' ''A'' []] (Some ''A'')"
    using refs.Direct [of "fix_el ''component'' ''A'' []" "[fix_el ''component'' ''A'' []]"] by simp
  then have "refs circular_fix_spec (x_kids (fix_el ''group'' ''NoSides'' [fix_el ''component'' ''A'' []])) (Some ''A'')" by simp
  then have "refs circular_fix_spec (x_kids circular_b) (Some ''A'')"
    by (rule refs.InGroup [of "fix_el ''group'' ''NoSides'' [fix_el ''component'' ''A'' []]", rotated 2]) (simp_all add: circular_b_def)
  then show "refs circular_fix_spec (x_kids circular_a) (Some ''A'')"
    by (rule refs.Through [of "fix_el ''component'' ''B'' []" _ _ circular_b, rotated 3]) (simp_all add: circular_a_def find_circular)
  show "refs circular_fix_spec [fix_el ''component'' ''A'' []] (Some ''A'')" by fact
  show "find_component circular_fix_spec (Some ''A'') = Some circular_a" by (simp add: find_circular)
qed

theorem fix_recursion_witness:
  "fix_parse 2 sample_fix_spec ''4.4'' \<noteq> Inl RecursionError \<and>
   (\<forall>m d' xs. handle_entries circular_fix_spec m (fix_definitions_new ''4.4'') [fix_el ''component'' ''A'' []] \<noteq> Inr (d', xs))"
proof
  have "length (components_of sample_fix_spec) \<le> 2" by code_simp
  from fix_recursion [OF this] sample_acyclic show "fix_parse 2 sample_fix_spec ''4.4'' \<noteq> Inl RecursionError"
    by blast
  have l: "length (components_of circular_fix_spec) \<le> 2" by code_simp
  have ok: "cache_ok circular_fix_spec (fix_definitions_new ''4.4'')"
    by (simp add: cache_ok_def fix_definitions_new_def)
  from fix_recursion [OF l, THEN conjunct2] circle_refs ok
  show "\<forall>m d' xs. handle_entries circular_fix_spec m (fix_definitions_new ''4.4'') [fix_el ''component'' ''A'' []] \<noteq> Inr (d', xs)"
    by blast
qed

text \<open>
  C38: what parsing a specification gives. If the section of the fields is the last of the file and
  component names are unique, the header, the trailer and every message have the expansions of
  their elements, the messages in the order of the file within each section and the sections
  from the last to the first.
\<close>
theorem fix_spec_parsed:
  assumes "fix_parse n root version = Inr d" and "unique_components root"
    and "x_kids root = secs @ [e]" and "x_tag e = ''fields''" and "\<forall>s \<in> set secs. x_tag s \<noteq> ''fields''"
  shows "xd_version d = version \<and>
    expands root (map_of (xd_fields d)) (sections_of ''header'' (rev secs)) (xd_header d) \<and>
    expands root (map_of (xd_fields d)) (sections_of ''trailer'' (rev secs)) (xd_trailer d) \<and>
    list_all2 (parsed_message root (map_of (xd_fields d))) (sections_of ''messages'' (rev secs)) (xd_messages d)"
proof -
  from assms(1,3) obtain types where h: "handle_sections types root n (e # rev secs) (fix_definitions_new version) = Inr d"
    by (auto simp: fix_parse_def result_simps split: if_splits)
  with assms(4) obtain d1 where d1: "handle_fields types (fix_definitions_new version) (x_kids e) = Inr d1"
    "handle_sections types root n (rev secs) d1 = Inr d"
    by (auto simp: result_simps handle_section_def)
  from handle_fields_others [OF d1(1)] have "parsed root [] d1"
    by (auto simp: parsed_def fix_definitions_new_def cache_ok_def sections_of_def)
  moreover have "\<forall>s \<in> set (rev secs). x_tag s \<noteq> ''fields'' \<and> (x_tag s = ''components'' \<longrightarrow>
      list_all (\<lambda>c. find_component root (x_get c ''name'') = Some c) (x_kids s))"
    using assms(2,3,5) by (auto simp: unique_components_def sections_of_def list_all_iff)
  ultimately have "parsed root (rev secs) d"
    using sections_parsed [OF d1(2), of "[]"] by simp
  moreover have "xd_version d = version"
    using sections_version [OF h] by (simp add: fix_definitions_new_def)
  ultimately show ?thesis by (simp add: parsed_def)
qed

theorem fix_spec_parsed_witness:
  "list_all2 (parsed_message sample_fix_spec (map_of (xd_fields sample_fix_definitions)))
     (sections_of ''messages'' (rev sample_fix_sections)) (xd_messages sample_fix_definitions) \<and>
   length (xd_messages sample_fix_definitions) = 1"
proof
  have "unique_components sample_fix_spec" by code_simp
  moreover have "x_kids sample_fix_spec = sample_fix_sections @ [sample_fix_fields]"
    by (simp add: sample_fix_spec_def)
  moreover have "x_tag sample_fix_fields = ''fields''" "\<forall>s \<in> set sample_fix_sections. x_tag s \<noteq> ''fields''"
    by (simp_all add: sample_fix_fields_def sample_fix_sections_def)
  ultimately show "list_all2 (parsed_message sample_fix_spec (map_of (xd_fields sample_fix_definitions)))
     (sections_of ''messages'' (rev sample_fix_sections)) (xd_messages sample_fix_definitions)"
    using fix_spec_parsed [OF sample_fix_parsed] by blast
  show "length (xd_messages sample_fix_definitions) = 1" by code_simp
qed

section \<open>Contexts\<close>

text \<open>
  version 4.2 can be parsed but not generated. For every specification that parses, asking for
  the contexts raises \<open>ValueError\<close> exactly if its version is 4.2.
\<close>
theorem fix_version_unsupported:
  assumes "fix_parse n root version = Inr d"
  shows "snd (fix_spec_context d g) = Inl ValueError \<longleftrightarrow> version = ''4.2''"
proof -
  from assms obtain types where t: "get_supported_types version = Inr types"
    and h: "handle_sections types root n (rev (x_kids root)) (fix_definitions_new version) = Inr d"
    by (auto simp: fix_parse_def result_simps split: if_splits)
  have "xd_version d = version"
    using sections_version [OF h] by (simp add: fix_definitions_new_def)
  moreover have "version \<in> {''4.2'', ''4.4'', ''5.0'', ''5.0SP2''}"
    using t by (auto simp: get_supported_types_def split: if_splits)
  ultimately show ?thesis
    by (auto simp: fix_spec_context_def client_session_def split: prod.split)
qed

theorem fix_version_unsupported_witness:
  "\<exists>d. fix_parse 0 (Xml ''fix'' [] None []) ''4.2'' = Inr d \<and>
     snd (fix_spec_context d group_state_new) = Inl ValueError"
proof -
  have p: "fix_parse 0 (Xml ''fix'' [] None []) ''4.2'' = Inr (fix_definitions_new ''4.2'')"
    by (simp add: fix_parse_def get_supported_types_def)
  with fix_version_unsupported [OF p] show ?thesis by blast
qed

lemma messages_recorded:
  "messages_context ms g = (bs, g') \<Longrightarrow> list_all (\<lambda>m. list_all named_groups (xm_entries m)) ms \<Longrightarrow>
   \<exists>cs. extends_by g g' cs \<and> length cs = sum_list (map (\<lambda>m. sum_list (map class_count (xm_entries m))) ms) \<and>
     (\<forall>b \<in> set bs. used_groups (bc_entries b) \<subseteq> set (class_names cs))"
proof (induction ms arbitrary: g bs)
  case Nil
  then show ?case by (auto intro: exI [of _ "[]"] extends_refl)
next
  case (Cons m ms)
  obtain xs g1 where 1: "entries_context (xm_entries m) g = (xs, g1)" by fastforce
  obtain bs1 g2 where 2: "messages_context ms g1 = (bs1, g2)" by fastforce
  from Cons.prems 1 2 have g': "g' = g2" and bs: "bs = fst (fix_message_context m g) # bs1"
    and xs: "bc_entries (fst (fix_message_context m g)) = xs"
    by (auto simp: fix_message_context_def)
  from entries_recorded(2) [OF _ 1] Cons.prems(2) obtain cs where
    cs: "extends_by g g1 cs" "length cs = sum_list (map class_count (xm_entries m))" "used_groups xs \<subseteq> set (class_names cs)"
    by (auto simp: recorded_def)
  from Cons.IH [OF 2 [folded g']] Cons.prems(2) obtain ds where
    ds: "extends_by g1 g' ds" "length ds = sum_list (map (\<lambda>m. sum_list (map class_count (xm_entries m))) ms)"
      "\<forall>b \<in> set bs1. used_groups (bc_entries b) \<subseteq> set (class_names ds)" by auto
  have "extends_by g g' (cs @ ds)" using extends_trans [OF cs(1) ds(1)] .
  with cs ds bs xs show ?case
    by (intro exI [of _ "cs @ ds"]) (auto simp: class_names_def)
qed

text \<open>
  C39: the classes of groups. The context of a specification adds classes for its groups to those of
  the specifications the process generated before. The new ones have different names, each one
  uses only groups that come before it, and every group a body uses is among them. A group has
  one class for each time it is reached, twice for every group around it.
\<close>
theorem fix_group_names:
  assumes "fix_spec_context d g = (g', Inr ctx)"
    and "list_all (\<lambda>m. list_all named_groups (xm_entries m)) (xd_messages d)"
    and "list_all named_groups (xd_header d @ xd_trailer d)"
  shows "\<exists>cs. ctx_groups ctx = g_contexts g @ cs \<and> distinct (class_names cs) \<and> used_before {} cs \<and>
    (\<forall>b \<in> set (ctx_bodies ctx). used_groups (bc_entries b) \<subseteq> set (class_names cs)) \<and>
    length cs = sum_list (map (\<lambda>m. sum_list (map class_count (xm_entries m))) (xd_messages d)) +
      sum_list (map class_count (xd_header d @ xd_trailer d))"
proof -
  obtain ms g1 where 1: "messages_context (xd_messages d) g = (ms, g1)" by fastforce
  obtain hs g2 where 2: "entries_context (xd_header d) g1 = (hs, g2)" by fastforce
  obtain ts g3 where 3: "entries_context (xd_trailer d) g2 = (ts, g3)" by fastforce
  from assms(1) 1 2 3 have ctx: "ctx_groups ctx = g_contexts g3"
    "bc_entries ` set (ctx_bodies ctx) = {hs, ts} \<union> bc_entries ` set ms"
    by (auto simp: fix_spec_context_def split: sum.splits)
  from messages_recorded [OF 1 assms(2)] obtain as where as: "extends_by g g1 as"
    "length as = sum_list (map (\<lambda>m. sum_list (map class_count (xm_entries m))) (xd_messages d))"
    "\<forall>b \<in> set ms. used_groups (bc_entries b) \<subseteq> set (class_names as)" by blast
  from entries_recorded(2) [OF _ 2] assms(3) obtain bs where bs: "extends_by g1 g2 bs"
    "length bs = sum_list (map class_count (xd_header d))" "used_groups hs \<subseteq> set (class_names bs)"
    by (auto simp: recorded_def)
  from entries_recorded(2) [OF _ 3] assms(3) obtain cs where cs: "extends_by g2 g3 cs"
    "length cs = sum_list (map class_count (xd_trailer d))" "used_groups ts \<subseteq> set (class_names cs)"
    by (auto simp: recorded_def)
  have all: "extends_by g g3 ((as @ bs) @ cs)"
    by (rule extends_trans [OF extends_trans [OF as(1) bs(1)] cs(1)])
  have "used_groups (bc_entries b) \<subseteq> set (class_names ((as @ bs) @ cs))" if "b \<in> set (ctx_bodies ctx)" for b
  proof -
    from that ctx(2) have "bc_entries b \<in> {hs, ts} \<union> bc_entries ` set ms" by blast
    with as(3) bs(3) cs(3) show ?thesis by (elim UnE imageE) (fastforce simp: class_names_def)+
  qed
  with all ctx(1) as(2) bs(2) cs(2) show ?thesis
    by (intro exI [of _ "(as @ bs) @ cs"]) (auto simp: extends_by_def)
qed

theorem fix_group_names_witness:
  "\<exists>g ctx. fix_spec_context sample_fix_definitions group_state_new = (g, Inr ctx) \<and>
     distinct (class_names (ctx_groups ctx)) \<and> length (ctx_groups ctx) = 3"
proof -
  let ?r = "fix_spec_context sample_fix_definitions group_state_new"
  define ctx where "ctx = projr (snd ?r)"
  have "snd ?r = Inr ctx" unfolding ctx_def by code_simp
  then have r: "?r = (fst ?r, Inr ctx)" by (metis prod.collapse)
  have named: "list_all (\<lambda>m. list_all named_groups (xm_entries m)) (xd_messages sample_fix_definitions)"
    "list_all named_groups (xd_header sample_fix_definitions @ xd_trailer sample_fix_definitions)"
    by code_simp+
  have "sum_list (map (\<lambda>m. sum_list (map class_count (xm_entries m))) (xd_messages sample_fix_definitions)) +
      sum_list (map class_count (xd_header sample_fix_definitions @ xd_trailer sample_fix_definitions)) = 3"
    by code_simp
  with fix_group_names [OF r named] r show ?thesis
    by (intro exI [of _ "fst ?r"] exI [of _ ctx]) (auto simp: group_state_new_def)
qed

text \<open>So nesting doubles the number of classes.\<close>

fun nested_group :: "nat \<Rightarrow> fentry" where
  "nested_group 0 = FGroup True (Some ''NoLegs'') []"
| "nested_group (Suc n) = FGroup True (Some ''NoLegs'') [nested_group n]"

lemma nested_classes: "Suc (class_count (nested_group n)) = 2 ^ Suc n"
  by (induction n) simp_all

end
