(* ===== verification/SyncExecutor.thy ===== *)
theory SyncExecutor
  imports Session
begin

text \<open>
  \<open>SyncExecutor\<close> (\<open>common/sync_executor.py\<close>): an event loop in a thread of its own, to which other
  threads submit coroutines and whose results they wait for. The state is that of the loop - which
  coroutines were submitted, which of them have begun, the futures that have a result - and every
  operation of a caller or of the loop is a step. What a coroutine does is left to the user of
  the executor; the executor is a \<open>served_mailbox\<close> of them.
\<close>

section \<open>State\<close>

text \<open>A submitted coroutine is known by its place in \<open>ex_jobs\<close>. \<open>ex_ready\<close> holds those the loop has
  not begun, \<open>ex_begun\<close> those it has, in the order in which it began them.\<close>

record ('j, 'r) executor =
  ex_alive :: bool
  ex_stopping :: bool
  ex_jobs :: "'j list"
  ex_ready :: "nat list"
  ex_begun :: "nat list"
  ex_results :: "(nat \<times> 'r result) list"
  ex_cancelled :: "nat list"

text \<open>\<open>__attrs_post_init__\<close>: the loop runs when the executor exists.\<close>

definition executor_new :: "('j, 'r) executor" where
  "executor_new = \<lparr>ex_alive = True, ex_stopping = False, ex_jobs = [], ex_ready = [], ex_begun = [],
     ex_results = [], ex_cancelled = []\<rparr>"

definition must_be_active :: "('j, 'r) executor \<Rightarrow> unit result" where
  "must_be_active ex = (if ex_alive ex then Inr () else Inl StateError)"

section \<open>Calls\<close>

text \<open>\<open>run_coroutine_threadsafe\<close>.\<close>

definition submit :: "'j \<Rightarrow> ('j, 'r) executor \<Rightarrow> ('j, 'r) executor" where
  "submit j ex = ex\<lparr>ex_jobs := ex_jobs ex @ [j], ex_ready := ex_ready ex @ [length (ex_jobs ex)]\<rparr>"

text \<open>\<open>execute\<close> up to the wait for the future. What is executed is \<open>None\<close> when it is no coroutine.\<close>

definition execute :: "'j option \<Rightarrow> ('j, 'r) executor \<Rightarrow> (nat \<times> ('j, 'r) executor) result" where
  "execute underlying ex =
     rbind (must_be_active ex) (\<lambda>_.
       case underlying of
         None \<Rightarrow> Inl ValueError
       | Some j \<Rightarrow> Inr (length (ex_jobs ex), submit j ex))"

text \<open>\<open>execute_sync\<close>: a callable is wrapped by \<open>_bridge\<close>.\<close>

definition execute_sync :: "'j option \<Rightarrow> ('j, 'r) executor \<Rightarrow> (nat \<times> ('j, 'r) executor) result" where
  "execute_sync underlying ex =
     rbind (must_be_active ex) (\<lambda>_.
       case underlying of
         None \<Rightarrow> Inl ValueError
       | Some j \<Rightarrow> execute (Some j) ex)"

text \<open>The rest of \<open>execute\<close>: \<open>None\<close> while the caller has to wait. A caller with a time-out gives
  up by cancelling the future, which withdraws the result and not the coroutine.\<close>

definition future_result :: "nat \<Rightarrow> ('j, 'r) executor \<Rightarrow> 'r result option" where
  "future_result i ex = map_of (ex_results ex) i"

definition execute_times_out ::
  "nat \<Rightarrow> ('j, 'r) executor \<Rightarrow> 'r result option \<times> ('j, 'r) executor" where
  "execute_times_out i ex =
     (case future_result i ex of
        Some r \<Rightarrow> (Some r, ex)
      | None \<Rightarrow> (Some (Inl TimeoutError), ex\<lparr>ex_cancelled := i # ex_cancelled ex\<rparr>))"

definition executor_stop :: "('j, 'r) executor \<Rightarrow> ('j, 'r) executor" where
  "executor_stop ex = ex\<lparr>ex_stopping := True\<rparr>"

text \<open>\<open>join\<close> returns when the thread is over.\<close>

definition executor_join :: "('j, 'r) executor \<Rightarrow> bool" where
  "executor_join ex \<longleftrightarrow> \<not> ex_alive ex"

section \<open>The loop\<close>

text \<open>The loop begins the first coroutine that is ready, sets the result of one that is over,
  and returns some time after it was told to stop.\<close>

definition loop_begins :: "('j, 'r) executor \<Rightarrow> (nat \<times> 'j) option \<times> ('j, 'r) executor" where
  "loop_begins ex =
     (case ex_ready ex of
        [] \<Rightarrow> (None, ex)
      | i # is \<Rightarrow>
          if ex_alive ex
          then (Some (i, ex_jobs ex ! i), ex\<lparr>ex_ready := is, ex_begun := ex_begun ex @ [i]\<rparr>)
          else (None, ex))"

definition loop_finishes :: "nat \<Rightarrow> 'r result \<Rightarrow> ('j, 'r) executor \<Rightarrow> ('j, 'r) executor" where
  "loop_finishes i r ex =
     (if ex_alive ex \<and> i \<in> set (ex_begun ex) \<and> i \<notin> set (ex_cancelled ex) \<and> map_of (ex_results ex) i = None
      then ex\<lparr>ex_results := ex_results ex @ [(i, r)]\<rparr> else ex)"

definition loop_ends :: "('j, 'r) executor \<Rightarrow> ('j, 'r) executor" where
  "loop_ends ex = (if ex_stopping ex then ex\<lparr>ex_alive := False\<rparr> else ex)"

datatype ('j, 'r) exevent =
    Execute "'j option" | ExecuteSync "'j option" | TimesOut nat | StopExecutor
  | LoopBegins | LoopFinishes nat "'r result" | LoopEnds

fun executor_step :: "('j, 'r) exevent \<Rightarrow> ('j, 'r) executor \<Rightarrow> ('j, 'r) executor" where
  "executor_step (Execute u) ex = (case execute u ex of Inl _ \<Rightarrow> ex | Inr (_, ex') \<Rightarrow> ex')"
| "executor_step (ExecuteSync u) ex = (case execute_sync u ex of Inl _ \<Rightarrow> ex | Inr (_, ex') \<Rightarrow> ex')"
| "executor_step (TimesOut i) ex = snd (execute_times_out i ex)"
| "executor_step StopExecutor ex = executor_stop ex"
| "executor_step LoopBegins ex = snd (loop_begins ex)"
| "executor_step (LoopFinishes i r) ex = loop_finishes i r ex"
| "executor_step LoopEnds ex = loop_ends ex"

section \<open>Coroutines begin once, in the order of their submission\<close>

definition submitted :: "('j, 'r) executor \<Rightarrow> nat list" where
  "submitted ex = [0..<length (ex_jobs ex)]"

named_theorems executor_defs \<open>the operations of the executor\<close>

lemmas [executor_defs] =
  executor_new_def must_be_active_def submit_def execute_def execute_sync_def future_result_def
  execute_times_out_def executor_stop_def loop_begins_def loop_finishes_def loop_ends_def

lemma execute_Inr:
  "execute u ex = Inr (i, ex') \<longleftrightarrow>
     (\<exists>j. u = Some j \<and> ex_alive ex \<and> i = length (ex_jobs ex) \<and> ex' = submit j ex)"
  by (cases u) (auto simp: execute_def must_be_active_def)

lemma execute_sync_execute: "execute_sync u ex = execute u ex"
  by (cases u) (auto simp: execute_def execute_sync_def must_be_active_def)

lemma executor_status [simp]:
  "ex_alive (submit j ex) = ex_alive ex" "ex_stopping (submit j ex) = ex_stopping ex"
  "ex_alive (loop_finishes i r ex) = ex_alive ex" "ex_stopping (loop_finishes i r ex) = ex_stopping ex"
  "ex_alive (executor_stop ex) = ex_alive ex" "ex_stopping (executor_stop ex)"
  by (simp_all add: submit_def loop_finishes_def executor_stop_def)

lemma loop_begins_Some:
  "loop_begins ex = (Some (i, j), ex') \<longleftrightarrow> ex_alive ex \<and> j = ex_jobs ex ! i \<and>
     (\<exists>is. ex_ready ex = i # is \<and> ex' = ex\<lparr>ex_ready := is, ex_begun := ex_begun ex @ [i]\<rparr>)"
  by (auto simp: loop_begins_def split: list.split)



text \<open>A future gets a result once, and only after its coroutine began.\<close>

definition results_ok :: "('j, 'r) executor \<Rightarrow> bool" where
  "results_ok ex \<longleftrightarrow> distinct (map fst (ex_results ex)) \<and> fst ` set (ex_results ex) \<subseteq> set (ex_begun ex)"







text \<open>When the loop has ended nothing is begun and no future gets a result.\<close>

lemma dead_step:
  "\<not> ex_alive ex \<Longrightarrow> \<not> ex_alive (executor_step e ex) \<and> ex_begun (executor_step e ex) = ex_begun ex \<and>
     ex_results (executor_step e ex) = ex_results ex"
  by (cases e) (auto simp: execute_sync_execute executor_defs split: option.split sum.split list.split)

lemma dead_run:
  "\<not> ex_alive ex \<Longrightarrow> \<not> ex_alive (fold executor_step es ex) \<and> ex_begun (fold executor_step es ex) = ex_begun ex \<and>
     ex_results (fold executor_step es ex) = ex_results ex"
  by (induction es arbitrary: ex) (simp_all add: dead_step)

section \<open>Properties\<close>



text \<open>
  a call that loses the race against \<open>stop\<close> never returns. Between the call of \<open>stop\<close> and the end
  of the loop the thread is alive, so \<open>execute\<close> accepts the coroutine; if the loop ends before it
  begins it, its future never gets a result, and a caller without a time-out waits for ever.
  Only a call that comes after the end of the loop raises \<open>StateError\<close>.
\<close>
theorem executor_stop_race:
  assumes "ex_alive ex" and "ex_stopping ex" and "results_ok ex" and "submitted ex = ex_begun ex @ ex_ready ex"
  shows "\<exists>i ex'. execute (Some j) ex = Inr (i, ex') \<and>
     future_result i (fold executor_step (LoopEnds # es) ex') = None \<and>
     execute u (fold executor_step (LoopEnds # es) ex') = Inl StateError"
proof -
  let ?ex = "executor_step LoopEnds (submit j ex)"
  have "length (ex_jobs ex) \<notin> set (ex_begun ex)"
  proof
    assume "length (ex_jobs ex) \<in> set (ex_begun ex)"
    then have "length (ex_jobs ex) \<in> set (submitted ex)" by (simp add: assms(4))
    then show False by (simp add: submitted_def)
  qed
  with assms(3) have "map_of (ex_results ex) (length (ex_jobs ex)) = None"
    by (auto simp: results_ok_def map_of_eq_None_iff)
  moreover have "\<not> ex_alive ?ex" "ex_results ?ex = ex_results ex"
    using assms(2) by (simp_all add: loop_ends_def submit_def)
  ultimately have "execute (Some j) ex = Inr (length (ex_jobs ex), submit j ex)"
    "future_result (length (ex_jobs ex)) (fold executor_step es ?ex) = None"
    "\<not> ex_alive (fold executor_step es ?ex)"
    using assms(1) dead_run [of ?ex es] by (simp_all add: execute_Inr future_result_def)
  then show ?thesis by (auto simp: execute_def must_be_active_def)
qed

theorem executor_stop_race_witness:
  "\<exists>i ex'. execute (Some ''late'') (executor_stop (executor_new :: (string, nat) executor)) = Inr (i, ex') \<and>
     future_result i (fold executor_step [LoopEnds, LoopBegins] ex') = None"
proof -
  have "ex_alive (executor_stop (executor_new :: (string, nat) executor))"
    "ex_stopping (executor_stop (executor_new :: (string, nat) executor))"
    "results_ok (executor_stop (executor_new :: (string, nat) executor))"
    "submitted (executor_stop (executor_new :: (string, nat) executor)) =
      ex_begun (executor_stop (executor_new :: (string, nat) executor)) @ ex_ready (executor_stop (executor_new :: (string, nat) executor))"
    by (simp_all add: executor_new_def executor_stop_def results_ok_def submitted_def)
  from executor_stop_race [OF this, of "''late''" "[LoopBegins]" None] show ?thesis by blast
qed

end
