(* ===== verification/SyncSession.thy ===== *)
theory SyncSession
  imports SoupSession SyncExecutor
begin

text \<open>
  \<open>SoupClientSessionSync\<close> (\<open>soup/session.py\<close>) and \<open>connect\<close> (\<open>soup/__init__.py\<close>): a client session that
  lives in the loop of a \<open>SyncExecutor\<close> and is used from other threads. The state holds the session,
  the executor, the lock and the event they share, and for every thread where it stands; a step is
  what one thread does between two points at which it may have to wait. The handler that the
  constructor puts into the session waits for the lock in the loop's thread: while it does, the
  loop does nothing else.
\<close>

section \<open>State\<close>

datatype thread = LoopThread | CallerThread nat

text \<open>What is executed in the loop, and the calls a thread may make.\<close>

datatype job = ConnectJob | ReceiveJob | SendJob SoupMessage | LogoutJob | CloseJob

datatype call =
    CallReceive | CallSend SoupMessage | CallDebug pystr | CallUnseq bytes | CallLogout | CallClose

text \<open>A calling thread: outside of any call, at \<open>with close_lock\<close>, inside it, waiting there or
  elsewhere for a future, at \<open>closed_event.wait()\<close>, at \<open>bridge.join()\<close>, or back from a call.\<close>

datatype caller =
    Outside | AtLock call | InLock call | AwaitsInLock call nat | Awaits call nat
  | AtEvent call | AtJoin call | Back call "SoupMessage option result"

text \<open>The injected \<open>on_close_coro\<close>: not called, at the lock, inside it, over.\<close>

datatype close_handler = NotCalled | HandlerAtLock | HandlerInLock | HandlerOver

record sync_session =
  sy_session :: soup_session
  sy_bridge :: "(job, SoupMessage option) executor"
  sy_close_lock :: "thread option"
  sy_closed_event :: bool
  sy_handler :: close_handler
  sy_stops :: nat
  sy_caller :: "nat \<Rightarrow> caller"

text \<open>The constructor, with \<open>__attrs_post_init__\<close>: the close handler of the session is replaced.\<close>

definition sync_new :: "soup_session \<Rightarrow> (job, SoupMessage option) executor \<Rightarrow> sync_session" where
  "sync_new se ex =
     \<lparr>sy_session = se\<lparr>s_on_close_coro := Some 0\<rparr>, sy_bridge = ex, sy_close_lock = None,
      sy_closed_event = False, sy_handler = NotCalled, sy_stops = 0, sy_caller = (\<lambda>_. Outside)\<rparr>"

section \<open>Callers\<close>

abbreviation at :: "nat \<Rightarrow> caller \<Rightarrow> sync_session \<Rightarrow> sync_session" where
  "at i c s \<equiv> s\<lparr>sy_caller := (sy_caller s)(i := c)\<rparr>"

text \<open>The coroutine of a call that goes through the bridge.\<close>

fun job_of :: "call \<Rightarrow> job" where
  "job_of CallReceive = ReceiveJob"
| "job_of (CallSend m) = SendJob m"
| "job_of (CallDebug text) = SendJob (Debug text)"
| "job_of (CallUnseq data) = SendJob (UnSequencedData data)"
| "job_of CallLogout = LogoutJob"
| "job_of CallClose = CloseJob"

definition sync_execute :: "(nat \<Rightarrow> caller) \<Rightarrow> nat \<Rightarrow> call \<Rightarrow> sync_session \<Rightarrow> sync_session" where
  "sync_execute waits i c s =
     (case execute_sync (Some (job_of c)) (sy_bridge s) of
        Inl e \<Rightarrow> at i (Back c (Inl e)) s
      | Inr (n, ex) \<Rightarrow> at i (waits n) (s\<lparr>sy_bridge := ex\<rparr>))"

definition sync_receive :: "nat \<Rightarrow> sync_session \<Rightarrow> sync_session" where
  "sync_receive i s =
     (case execute (Some ReceiveJob) (sy_bridge s) of
        Inl e \<Rightarrow> at i (Back CallReceive (Inl e)) s
      | Inr (n, ex) \<Rightarrow> at i (Awaits CallReceive n) (s\<lparr>sy_bridge := ex\<rparr>))"

definition sync_send_msg :: "nat \<Rightarrow> SoupMessage \<Rightarrow> sync_session \<Rightarrow> sync_session" where
  "sync_send_msg i m s = sync_execute (Awaits (CallSend m)) i (CallSend m) s"

definition sync_send_debug :: "nat \<Rightarrow> pystr \<Rightarrow> sync_session \<Rightarrow> sync_session" where
  "sync_send_debug i text s = sync_execute (Awaits (CallDebug text)) i (CallDebug text) s"

text \<open>\<open>send_unseq_data\<close> calls the session directly, in the thread of the caller.\<close>

definition sync_send_unseq_data :: "nat \<Rightarrow> bytes \<Rightarrow> sync_session \<Rightarrow> sync_session" where
  "sync_send_unseq_data i data s =
     (case send_unseq_data data (sy_session s) of
        Inl e \<Rightarrow> at i (Back (CallUnseq data) (Inl e)) s
      | Inr se \<Rightarrow> at i (Back (CallUnseq data) (Inr None)) (s\<lparr>sy_session := se\<rparr>))"

definition sync_is_closed :: "sync_session \<Rightarrow> bool" where
  "sync_is_closed s \<longleftrightarrow> is_closed (sy_session s)"

text \<open>A thread that is in no call makes one.\<close>

fun idle :: "caller \<Rightarrow> bool" where
  "idle Outside = True"
| "idle (Back _ _) = True"
| "idle _ = False"

definition begin_call :: "nat \<Rightarrow> call \<Rightarrow> sync_session \<Rightarrow> sync_session option" where
  "begin_call i c s =
     (if \<not> idle (sy_caller s i) then None
      else Some (case c of
                   CallReceive \<Rightarrow> sync_receive i s
                 | CallSend m \<Rightarrow> sync_send_msg i m s
                 | CallDebug text \<Rightarrow> sync_send_debug i text s
                 | CallUnseq data \<Rightarrow> sync_send_unseq_data i data s
                 | CallLogout \<Rightarrow> at i (AtLock CallLogout) s
                 | CallClose \<Rightarrow> at i (AtLock CallClose) s))"

text \<open>\<open>logout\<close> and \<open>close\<close>, which differ in what they execute: under the lock the call is executed
  unless the event is set; then the thread waits for the event and joins the loop's thread. An
  exception leaves the block of the lock.\<close>

definition close_locked :: "nat \<Rightarrow> call \<Rightarrow> sync_session \<Rightarrow> sync_session" where
  "close_locked i c s =
     (if sy_closed_event s then at i (AtEvent c) (s\<lparr>sy_close_lock := None\<rparr>)
      else case execute_sync (Some (job_of c)) (sy_bridge s) of
             Inl e \<Rightarrow> at i (Back c (Inl e)) (s\<lparr>sy_close_lock := None\<rparr>)
           | Inr (n, ex) \<Rightarrow> at i (AwaitsInLock c n) (s\<lparr>sy_bridge := ex\<rparr>))"

definition close_executed :: "nat \<Rightarrow> call \<Rightarrow> nat \<Rightarrow> sync_session \<Rightarrow> sync_session option" where
  "close_executed i c n s =
     (case future_result n (sy_bridge s) of
        None \<Rightarrow> None
      | Some (Inl e) \<Rightarrow> Some (at i (Back c (Inl e)) (s\<lparr>sy_close_lock := None\<rparr>))
      | Some (Inr _) \<Rightarrow> Some (at i (AtEvent c) (s\<lparr>sy_close_lock := None\<rparr>)))"

text \<open>The next thing a thread does that is in a call; \<open>None\<close> when it has to wait.\<close>

definition turn :: "nat \<Rightarrow> sync_session \<Rightarrow> sync_session option" where
  "turn i s =
     (case sy_caller s i of
        AtLock c \<Rightarrow>
          if sy_close_lock s = None
          then Some (at i (InLock c) (s\<lparr>sy_close_lock := Some (CallerThread i)\<rparr>)) else None
      | InLock c \<Rightarrow> Some (close_locked i c s)
      | AwaitsInLock c n \<Rightarrow> close_executed i c n s
      | Awaits c n \<Rightarrow> map_option (\<lambda>r. at i (Back c r) s) (future_result n (sy_bridge s))
      | AtEvent c \<Rightarrow> if sy_closed_event s then Some (at i (AtJoin c) s) else None
      | AtJoin c \<Rightarrow> if executor_join (sy_bridge s) then Some (at i (Back c (Inr None)) s) else None
      | _ \<Rightarrow> None)"

section \<open>The loop\<close>

text \<open>The loop's thread can do something: it is alive and not inside the close handler.\<close>

definition loop_free :: "sync_session \<Rightarrow> bool" where
  "loop_free s \<longleftrightarrow> ex_alive (sy_bridge s) \<and> sy_handler s \<in> {NotCalled, HandlerOver}"

text \<open>A coroutine runs up to its end, or to its first await, and gives its result if it is over.
  The messages are true, so \<open>receive_msg\<close> returns the one it gets.\<close>

fun perform :: "job \<Rightarrow> nat \<Rightarrow> soup_session \<Rightarrow> soup_session \<times> SoupMessage option result option" where
  "perform ReceiveJob n se = (se\<lparr>s_queue := get (\<lambda>_. True) n (s_queue se)\<rparr>, None)"
| "perform (SendJob m) n se =
     (case send_msg m se of Inl e \<Rightarrow> (se, Some (Inl e)) | Inr se' \<Rightarrow> (se', Some (Inr None)))"
| "perform LogoutJob n se =
     (case logout se of Inl e \<Rightarrow> (se, Some (Inl e)) | Inr se' \<Rightarrow> (se', Some (Inr None)))"
| "perform CloseJob n se = (initiate_close False se, Some (Inr None))"
| "perform ConnectJob n se = (se, Some (Inr None))"

definition runs_job :: "sync_session \<Rightarrow> sync_session option" where
  "runs_job s =
     (case loop_begins (sy_bridge s) of
        (None, _) \<Rightarrow> None
      | (Some (n, j), ex) \<Rightarrow>
          if \<not> loop_free s then None
          else (case perform j n (sy_session s) of
                  (se, None) \<Rightarrow> Some (s\<lparr>sy_session := se, sy_bridge := ex\<rparr>)
                | (se, Some r) \<Rightarrow> Some (s\<lparr>sy_session := se, sy_bridge := loop_finishes n r ex\<rparr>)))"

text \<open>A coroutine of \<open>receive\<close> is over when \<open>get\<close> has a message or an exception for it.\<close>

definition receives :: "nat \<Rightarrow> sync_session \<Rightarrow> sync_session option" where
  "receives n s =
     (if \<not> loop_free s \<or> ex_jobs (sy_bridge s) ! n \<noteq> ReceiveJob then None
      else map_option (\<lambda>r. s\<lparr>sy_bridge := loop_finishes n (map_sum id Some r) (sy_bridge s)\<rparr>)
             (map_of (q_results (s_queue (sy_session s))) n))"

text \<open>What else happens to the session in the loop; there is no dispatcher.\<close>

fun loop_event :: "SoupMessage sevent \<Rightarrow> bool" where
  "loop_event (DataReceived _) = True"
| "loop_event ConnectionLost = True"
| "loop_event ReaderTurn = True"
| "loop_event (QueueEvent ReadingRuns) = True"
| "loop_event (QueueEvent (ReaderResumes _)) = True"
| "loop_event LocalInterval = True"
| "loop_event RemoteInterval = True"
| "loop_event ClosingTask = True"
| "loop_event CloseStep = True"
| "loop_event _ = False"

text \<open>When \<open>close\<close> of the session comes to \<open>on_close_coro\<close> the handler begins.\<close>

definition session_event :: "SoupMessage sevent \<Rightarrow> sync_session \<Rightarrow> sync_session option" where
  "session_event e s =
     (if loop_free s \<and> loop_event e
      then let se = client_step (ClientSession e) (sy_session s)
           in Some (s\<lparr>sy_session := se,
                      sy_handler := (if closes (sy_session s) < closes se then HandlerAtLock else sy_handler s)\<rparr>)
      else None)"

definition on_close_coro :: "sync_session \<Rightarrow> sync_session option" where
  "on_close_coro s =
     (case sy_handler s of
        HandlerAtLock \<Rightarrow>
          if sy_close_lock s = None
          then Some (s\<lparr>sy_close_lock := Some LoopThread, sy_handler := HandlerInLock\<rparr>) else None
      | HandlerInLock \<Rightarrow>
          let s1 = s\<lparr>sy_close_lock := None, sy_handler := HandlerOver\<rparr>
          in Some (if sy_closed_event s then s1
                   else s1\<lparr>sy_bridge := executor_stop (sy_bridge s), sy_stops := Suc (sy_stops s),
                           sy_closed_event := True\<rparr>)
      | _ \<Rightarrow> None)"

definition loop_over :: "sync_session \<Rightarrow> sync_session option" where
  "loop_over s =
     (if loop_free s \<and> ex_stopping (sy_bridge s)
      then Some (s\<lparr>sy_bridge := executor_step LoopEnds (sy_bridge s)\<rparr>) else None)"

section \<open>Runs\<close>

datatype sync_event =
    BeginCall nat call | Turn nat
  | RunsJob | Receives nat | SessionEvent "SoupMessage sevent" | OnCloseCoro | LoopOver

fun sync_step :: "sync_event \<Rightarrow> sync_session \<Rightarrow> sync_session option" where
  "sync_step (BeginCall i c) s = begin_call i c s"
| "sync_step (Turn i) s = turn i s"
| "sync_step RunsJob s = runs_job s"
| "sync_step (Receives n) s = receives n s"
| "sync_step (SessionEvent e) s = session_event e s"
| "sync_step OnCloseCoro s = on_close_coro s"
| "sync_step LoopOver s = loop_over s"

fun sync_run :: "sync_event list \<Rightarrow> sync_session \<Rightarrow> sync_session option" where
  "sync_run [] s = Some s"
| "sync_run (e # es) s = Option.bind (sync_step e s) (sync_run es)"

text \<open>\<open>connect\<close>: \<open>connect_async\<close> is the first coroutine of a new executor; the outcome of it is a
  logged in session or an exception, which stops the executor and waits for its thread.\<close>

definition connecting :: "SoupMessage option result \<Rightarrow> (job, SoupMessage option) executor" where
  "connecting r = loop_finishes 0 r (snd (loop_begins (submit ConnectJob executor_new)))"

definition connect ::
  "soup_session result \<Rightarrow> sync_session result \<times> (job, SoupMessage option) executor" where
  "connect outcome =
     (case outcome of
        Inr se \<Rightarrow> (Inr (sync_new se (connecting (Inr None))), connecting (Inr None))
      | Inl e \<Rightarrow> (Inl e, loop_ends (executor_stop (connecting (Inl e)))))"

text \<open>What can come of \<open>connect\<close> with a session that has not called \<open>on_close_coro\<close> (it has none
  before) and was read only by \<open>login\<close>, followed by any steps of any threads.\<close>

inductive reachable :: "sync_session \<Rightarrow> bool" where
  connected: "closed_once se \<Longrightarrow> closes se = 0 \<Longrightarrow> fst ` set (q_results (s_queue se)) \<subseteq> {0} \<Longrightarrow>
    fst (connect (Inr se)) = Inr s \<Longrightarrow> reachable s"
| stepped: "reachable s \<Longrightarrow> sync_step e s = Some s' \<Longrightarrow> reachable s'"

end
