(* ===== verification/SyncInvariants.thy ===== *)
theory SyncInvariants
  imports SyncSession
begin

text \<open>
  What holds of the synchronous session in every interleaving of its threads: the invariants of
  the lock, of the event, of the executor and of the calls. Each is shown to be preserved by every
  step; \<open>reachable_inv\<close> and \<open>pending_reachable\<close> collect them.
\<close>

section \<open>The invariants\<close>

named_theorems sync_defs \<open>the steps of callers and of the loop\<close>

lemmas [sync_defs] =
  begin_call_def sync_execute_def sync_receive_def sync_send_msg_def sync_send_debug_def
  sync_send_unseq_data_def turn_def close_locked_def close_executed_def runs_job_def receives_def
  session_event_def on_close_coro_def loop_over_def future_result_def executor_join_def

lemmas sync_splits =
  option.splits sum.splits caller.splits call.splits close_handler.splits prod.splits if_splits

definition inv_session :: "sync_session \<Rightarrow> bool" where
  "inv_session s \<longleftrightarrow> closed_once (sy_session s) \<and> (sy_handler s = NotCalled \<longleftrightarrow> closes (sy_session s) = 0)"

definition inv_event :: "sync_session \<Rightarrow> bool" where
  "inv_event s \<longleftrightarrow> (sy_closed_event s \<longleftrightarrow> sy_handler s = HandlerOver) \<and>
     sy_stops s = of_bool (sy_closed_event s) \<and> (ex_stopping (sy_bridge s) \<longleftrightarrow> sy_closed_event s) \<and>
     (\<not> ex_alive (sy_bridge s) \<longrightarrow> sy_closed_event s)"

lemma idle_iff: "idle c \<longleftrightarrow> c = Outside \<or> (\<exists>k r. c = Back k r)"
  by (cases c) auto

fun in_lock :: "caller \<Rightarrow> bool" where
  "in_lock (InLock _) = True"
| "in_lock (AwaitsInLock _ _) = True"
| "in_lock _ = False"

definition inv_lock :: "sync_session \<Rightarrow> bool" where
  "inv_lock s \<longleftrightarrow> (sy_close_lock s = Some LoopThread \<longleftrightarrow> sy_handler s = HandlerInLock) \<and>
     (\<forall>i. sy_close_lock s = Some (CallerThread i) \<longleftrightarrow> in_lock (sy_caller s i))"

definition closing_call :: "call \<Rightarrow> bool" where
  "closing_call c \<longleftrightarrow> c = CallLogout \<or> c = CallClose"

definition inv_jobs :: "sync_session \<Rightarrow> bool" where
  "inv_jobs s \<longleftrightarrow> (let ex = sy_bridge s in
     submitted ex = ex_begun ex @ ex_ready ex \<and> ex_cancelled ex = [] \<and>
     (\<forall>n < length (ex_jobs ex). ex_jobs ex ! n = ReceiveJob \<or> n \<in> set (ex_ready ex) \<or> future_result n ex \<noteq> None) \<and>
     (\<forall>n. future_result n ex \<noteq> None \<longrightarrow> n < length (ex_jobs ex)) \<and>
     (\<forall>n r. future_result n ex = Some (Inr r) \<and> ex_jobs ex ! n \<in> {LogoutJob, CloseJob} \<longrightarrow>
        \<not> is_active (sy_session s)))"

definition caller_ok :: "sync_session \<Rightarrow> caller \<Rightarrow> bool" where
  "caller_ok s k \<longleftrightarrow> (case k of
       AtLock c \<Rightarrow> closing_call c
     | InLock c \<Rightarrow> closing_call c
     | AwaitsInLock c n \<Rightarrow> closing_call c \<and> n < length (ex_jobs (sy_bridge s)) \<and> ex_jobs (sy_bridge s) ! n = job_of c
     | Awaits c n \<Rightarrow> \<not> closing_call c
     | AtEvent c \<Rightarrow> closing_call c \<and> \<not> is_active (sy_session s)
     | AtJoin c \<Rightarrow> closing_call c \<and> sy_closed_event s
     | Back c (Inr _) \<Rightarrow> closing_call c \<longrightarrow> \<not> ex_alive (sy_bridge s)
     | _ \<Rightarrow> True)"

definition inv_caller :: "sync_session \<Rightarrow> bool" where
  "inv_caller s \<longleftrightarrow> (\<forall>i. caller_ok s (sy_caller s i))"

text \<open>What never goes back.\<close>

definition grows :: "sync_session \<Rightarrow> sync_session \<Rightarrow> bool" where
  "grows s s' \<longleftrightarrow> (is_active (sy_session s') \<longrightarrow> is_active (sy_session s)) \<and>
     (sy_closed_event s \<longrightarrow> sy_closed_event s') \<and> (ex_alive (sy_bridge s') \<longrightarrow> ex_alive (sy_bridge s)) \<and>
     (\<exists>js. ex_jobs (sy_bridge s') = ex_jobs (sy_bridge s) @ js)"

section \<open>What the steps do to the session\<close>

lemma perform_core: "session_core (fst (perform j n se)) = session_core se"
proof (cases j)
  case ReceiveJob
  then show ?thesis
    using q_closed_step [of "\<lambda>_. True" "Get n" "s_queue se"] by (simp add: session_core_def)
next
  case LogoutJob
  then show ?thesis
    by (auto simp: logout_def result_simps send_msg_core(1) split: sum.split)
qed (auto simp: send_msg_core(1) split: sum.split)

lemma core_stage: "session_core se' = session_core se \<Longrightarrow> stage se' = stage se"
  by (simp add: session_core_def)

lemma stage_once: "stage se' = stage se \<Longrightarrow> closed_once se' = closed_once se \<and> closes se' = closes se \<and> s_closed se' = s_closed se"
  by (simp add: stage_def closed_once_def)

lemma closes_step: "closes s \<le> closes (client_step (ClientSession e) s)"
proof (cases "e = CloseStep")
  case True
  then show ?thesis
    by (cases "s_phase s") (auto simp: close_step_def closes_def Let_def split: option.split sum.split)
next
  case False
  from client.step_begins_close [OF this, of s] show ?thesis
    by (auto simp: begins_close_def stage_def)
qed

lemma send_msg_task: "send_msg m s = Inr s' \<Longrightarrow> s_closing_task s' = s_closing_task s"
  by (auto simp: send_msg_def Let_def result_simps split: if_splits)

lemma on_message_task:
  "s_closing_task (fold client_on_message ms s) = s_closing_task s"
  by (induction ms arbitrary: s) (simp_all add: client_on_message_def async_on_message_def)

lemma heartbeat_task: "s_closing_task (client_send_heartbeat s) = s_closing_task s"
  by (auto simp: client_send_heartbeat_def or_same_def send_msg_task split: sum.split)

lemma loop_event_task:
  assumes "loop_event e" "s_closing_task s \<noteq> None"
  shows "s_closing_task (client_step (ClientSession e) s) \<noteq> None"
proof (cases e)
  case ReaderTurn
  with assms(2) show ?thesis
    by (auto simp: reader_turn_def close_enter_def on_message_task Let_def split: option.split)
next
  case CloseStep
  with assms(2) show ?thesis
    by (cases "s_phase s") (auto simp: close_step_def Let_def split: option.split sum.split)
qed (use assms in \<open>auto simp: or_same_def data_received_def connection_lost_def initiate_close_def
    local_interval_def remote_interval_def closing_task_begins_def close_enter_def heartbeat_task Let_def
    split: option.splits sum.split\<close>)

lemma closed_step: "s_closed s \<Longrightarrow> s_closed (client_step (ClientSession e) s)"
proof (cases "e = CloseStep")
  case True
  assume "s_closed s"
  with True show ?thesis
    by (cases "s_phase s") (auto simp: close_step_def Let_def split: option.split sum.split)
next
  case False
  assume "s_closed s"
  with client.step_begins_close [OF False, of s] show ?thesis
    by (auto simp: begins_close_def stage_def)
qed

lemma inactive_step: "loop_event e \<Longrightarrow> \<not> is_active s \<Longrightarrow> \<not> is_active (client_step (ClientSession e) s)"
  using loop_event_task [of e s] closed_step [of s e] by (auto simp: is_active_def simp del: client_step.simps)

lemma initiate_inactive: "\<not> is_active (initiate_close d s)"
  by (simp add: initiate_close_def is_active_def)

lemma perform_inactive:
  "\<not> is_active se \<Longrightarrow> \<not> is_active (fst (perform j n se))"
  "j \<in> {LogoutJob, CloseJob} \<Longrightarrow> snd (perform j n se) = Some (Inr r) \<Longrightarrow> \<not> is_active (fst (perform j n se))"
proof -
  have c: "s_closed (fst (perform j n se)) = s_closed se"
    using stage_once [OF core_stage [OF perform_core]] by blast
  have "s_closing_task se \<noteq> None \<longrightarrow> s_closing_task (fst (perform j n se)) \<noteq> None"
    by (cases j) (auto simp: logout_def initiate_close_def result_simps send_msg_task split: sum.split)
  with c show "\<not> is_active se \<Longrightarrow> \<not> is_active (fst (perform j n se))" by (auto simp: is_active_def)
  show "j \<in> {LogoutJob, CloseJob} \<Longrightarrow> snd (perform j n se) = Some (Inr r) \<Longrightarrow> \<not> is_active (fst (perform j n se))"
    by (auto simp: logout_def initiate_inactive result_simps split: sum.splits)
qed

lemma unseq_core: "send_unseq_data d se = Inr se' \<Longrightarrow> stage se' = stage se \<and> is_active se' = is_active se"
  using send_msg_core(1) [of "UnSequencedData d" se se'] send_msg_task [of "UnSequencedData d" se se']
  by (auto simp: send_unseq_data_def session_core_def stage_def is_active_def)

section \<open>The steps preserve the invariants\<close>

lemma inv_session_step:
  assumes "inv_session s" "sync_step e s = Some s'"
  shows "inv_session s'"
proof (cases e)
  case (BeginCall i c)
  with assms show ?thesis
    by (auto simp: inv_session_def sync_defs dest!: unseq_core stage_once split: sync_splits)
next
  case (Turn i)
  with assms show ?thesis by (auto simp: inv_session_def sync_defs split: sync_splits)
next
  case RunsJob
  have "closed_once se' = closed_once se \<and> closes se' = closes se" if "perform j n se = (se', r)" for j n se se' r
    using stage_once [OF core_stage [OF perform_core [of j n se]]] that by simp
  with RunsJob assms show ?thesis by (auto simp: inv_session_def sync_defs split: sync_splits)
next
  case (Receives n)
  with assms show ?thesis by (auto simp: inv_session_def sync_defs split: sync_splits)
next
  case (SessionEvent x)
  from client_step_once [of "sy_session s" "ClientSession x"] closes_step [of "sy_session s" x] SessionEvent assms
  show ?thesis
    by (auto simp: inv_session_def sync_defs Let_def simp del: client_step.simps split: sync_splits)
next
  case OnCloseCoro
  with assms show ?thesis by (auto simp: inv_session_def sync_defs Let_def split: sync_splits)
next
  case LoopOver
  with assms show ?thesis by (auto simp: inv_session_def sync_defs split: sync_splits)
qed

lemma handler_once:
  assumes "inv_session s" "closes (sy_session s) < closes (client_step (ClientSession x) (sy_session s))"
  shows "sy_handler s = NotCalled"
proof -
  from assms(1) client_step_once [of "sy_session s" "ClientSession x"]
  have "closes (client_step (ClientSession x) (sy_session s)) \<le> 1"
    by (simp add: inv_session_def closed_once_def del: client_step.simps)
  with assms show ?thesis by (simp add: inv_session_def)
qed

lemma inv_event_step:
  assumes "inv_event s" "inv_session s" "sync_step e s = Some s'"
  shows "inv_event s'"
proof (cases e)
  case (SessionEvent x)
  with assms handler_once [OF assms(2), of x] show ?thesis
    by (auto simp: inv_event_def sync_defs Let_def simp del: client_step.simps split: if_splits)
next
  case (BeginCall i c)
  with assms show ?thesis
    by (cases c) (auto simp: inv_event_def sync_defs execute_Inr execute_sync_execute split: sum.splits if_splits)
next
  case (Turn i)
  with assms show ?thesis
    by (cases "sy_caller s i") (auto simp: inv_event_def sync_defs execute_Inr execute_sync_execute
        split: option.splits sum.splits if_splits)
next
  case RunsJob
  with assms show ?thesis
    by (auto simp: inv_event_def sync_defs loop_begins_Some split: option.splits prod.splits if_splits)
next
  case OnCloseCoro
  with assms show ?thesis
    by (cases "sy_handler s") (auto simp: inv_event_def sync_defs Let_def split: if_splits)
qed (use assms in \<open>auto simp: inv_event_def sync_defs loop_free_def loop_ends_def Let_def
  simp del: client_step.simps split: option.splits if_splits\<close>)

lemma inv_lock_step:
  assumes "inv_lock s" "sync_step e s = Some s'"
  shows "inv_lock s'"
proof (cases e)
  case (Turn i)
  from assms(1) have "in_lock (sy_caller s i) \<Longrightarrow> sy_close_lock s = Some (CallerThread i)"
    by (simp add: inv_lock_def)
  with Turn assms show ?thesis
    by (cases "sy_caller s i") (auto simp: inv_lock_def sync_defs split: option.splits sum.splits if_splits)
next
  case (BeginCall i c)
  with assms show ?thesis
    by (cases c) (auto simp: inv_lock_def idle_iff sync_defs split: option.splits sum.splits if_splits)
next
  case OnCloseCoro
  with assms show ?thesis
    by (cases "sy_handler s") (auto simp: inv_lock_def sync_defs Let_def split: if_splits)
qed (use assms in \<open>auto simp: inv_lock_def sync_defs loop_free_def Let_def
  simp del: client_step.simps split: option.splits prod.splits if_splits\<close>)

lemma submit_fields [simp]:
  "ex_jobs (submit j ex) = ex_jobs ex @ [j]" "ex_ready (submit j ex) = ex_ready ex @ [length (ex_jobs ex)]"
  "ex_begun (submit j ex) = ex_begun ex" "ex_cancelled (submit j ex) = ex_cancelled ex"
  "future_result n (submit j ex) = future_result n ex" "submitted (submit j ex) = submitted ex @ [length (ex_jobs ex)]"
  by (simp_all add: submit_def future_result_def submitted_def)

lemma finishes_fields [simp]:
  "ex_jobs (loop_finishes n r ex) = ex_jobs ex" "ex_ready (loop_finishes n r ex) = ex_ready ex"
  "ex_begun (loop_finishes n r ex) = ex_begun ex" "ex_cancelled (loop_finishes n r ex) = ex_cancelled ex"
  "submitted (loop_finishes n r ex) = submitted ex"
  by (simp_all add: loop_finishes_def submitted_def)

lemma finishes_result:
  "future_result k (loop_finishes n r ex) =
     (if k = n \<and> ex_alive ex \<and> n \<in> set (ex_begun ex) \<and> n \<notin> set (ex_cancelled ex) \<and> future_result n ex = None
      then Some r else future_result k ex)"
  by (auto simp: loop_finishes_def future_result_def map_add_def split: option.splits)

text \<open>Only two of the steps do more to the executor than submit a coroutine or change its status.\<close>

lemma inv_jobs_keep:
  assumes "inv_jobs s" "is_active (sy_session s') \<longrightarrow> is_active (sy_session s)"
    and "sy_bridge s' = sy_bridge s \<or> (\<exists>j. sy_bridge s' = submit j (sy_bridge s)) \<or>
      sy_bridge s' = executor_stop (sy_bridge s) \<or> sy_bridge s' = loop_ends (sy_bridge s)"
  shows "inv_jobs s'"
  using assms(3)
proof (elim disjE exE)
  fix j assume j: "sy_bridge s' = submit j (sy_bridge s)"
  have "future_result (length (ex_jobs (sy_bridge s))) (sy_bridge s) = None"
    using assms(1) by (auto simp: inv_jobs_def Let_def)
  with j assms(1,2) show ?thesis by (auto simp: inv_jobs_def Let_def nth_append less_Suc_eq)
qed (use assms(1,2) in \<open>auto simp: inv_jobs_def Let_def executor_stop_def loop_ends_def submitted_def future_result_def\<close>)

lemma inv_jobs_runs:
  assumes "inv_jobs s" "runs_job s = Some s'"
  shows "inv_jobs s'"
proof -
  from assms(2) obtain n j ex where b: "loop_begins (sy_bridge s) = (Some (n, j), ex)"
    by (auto simp: runs_job_def split: prod.splits option.splits)
  obtain se r where p: "perform j n (sy_session s) = (se, r)" by fastforce
  have r: "r = None \<longleftrightarrow> j = ReceiveJob"
    using p by (cases j) (auto split: sum.splits)
  have act: "\<not> is_active (sy_session s) \<Longrightarrow> \<not> is_active se"
    "j \<in> {LogoutJob, CloseJob} \<Longrightarrow> r = Some (Inr x) \<Longrightarrow> \<not> is_active se" for x
    using perform_inactive(1) [where se = "sy_session s" and j = j and n = n]
      perform_inactive(2) [where se = "sy_session s" and j = j and n = n and r = x] p by simp_all
  from b obtain rest where i: "j = ex_jobs (sy_bridge s) ! n" "ex_ready (sy_bridge s) = n # rest"
    and ex: "ex_alive ex" "ex_jobs ex = ex_jobs (sy_bridge s)" "ex_ready ex = rest"
      "ex_begun ex = ex_begun (sy_bridge s) @ [n]" "ex_cancelled ex = ex_cancelled (sy_bridge s)"
      "\<And>k. future_result k ex = future_result k (sy_bridge s)" "submitted ex = submitted (sy_bridge s)"
    by (auto simp: loop_begins_Some future_result_def submitted_def)
  have "n \<in> set (submitted (sy_bridge s))" using assms(1) i by (simp add: inv_jobs_def Let_def)
  then have n: "n < length (ex_jobs (sy_bridge s))" by (simp add: submitted_def)
  from assms(2) b p have s': "s' = (case r of None \<Rightarrow> s\<lparr>sy_session := se, sy_bridge := ex\<rparr>
      | Some x \<Rightarrow> s\<lparr>sy_session := se, sy_bridge := loop_finishes n x ex\<rparr>)"
    by (auto simp: runs_job_def split: if_splits option.splits)
  show ?thesis
  proof (cases r)
    case None
    with r s' assms(1) i act(1) show ?thesis
      by (auto simp: inv_jobs_def Let_def ex)
  next
    case (Some x)
    with r s' assms(1) i n act show ?thesis
      by (auto simp: inv_jobs_def Let_def ex finishes_result)
  qed
qed

lemma closed_event_session:
  assumes "inv_session s" "inv_event s" "sy_closed_event s"
  shows "s_closed (sy_session s) \<and> s_phase (sy_session s) = CloseDone"
  using assms by (auto simp: inv_session_def inv_event_def closed_once_def)

lemma step_grows:
  assumes "sync_step e s = Some s'"
  shows "grows s s'"
proof (cases e)
  case (BeginCall i c)
  with assms show ?thesis
    by (cases c) (auto simp: grows_def sync_defs execute_Inr execute_sync_execute dest!: unseq_core
        split: sum.splits if_splits)
next
  case (Turn i)
  with assms show ?thesis
    by (cases "sy_caller s i") (auto simp: grows_def sync_defs execute_Inr execute_sync_execute
        split: option.splits sum.splits if_splits)
next
  case RunsJob
  have "is_active (sy_session s)" if "perform j n (sy_session s) = (se, r)" "is_active se" for j n se r
    using perform_inactive(1) [where se = "sy_session s" and j = j and n = n] that by auto
  with RunsJob assms show ?thesis
    by (auto simp: grows_def sync_defs loop_begins_Some split: option.splits prod.splits if_splits)
next
  case (SessionEvent x)
  have "is_active (client_step (ClientSession x) (sy_session s)) \<longrightarrow> loop_event x \<longrightarrow> is_active (sy_session s)"
    using inactive_step by blast
  with SessionEvent assms show ?thesis
    by (auto simp: grows_def sync_defs Let_def simp del: client_step.simps split: if_splits)
next
  case OnCloseCoro
  with assms show ?thesis
    by (cases "sy_handler s") (auto simp: grows_def sync_defs Let_def executor_stop_def split: if_splits)
qed (use assms in \<open>auto simp: grows_def sync_defs loop_ends_def split: option.splits if_splits\<close>)

lemma inv_jobs_step:
  assumes "inv_jobs s" "sync_step e s = Some s'"
  shows "inv_jobs s'"
proof -
  note keep = inv_jobs_keep [OF assms(1)]
  have act: "is_active (sy_session s') \<longrightarrow> is_active (sy_session s)"
    using step_grows [OF assms(2)] by (simp add: grows_def)
  show ?thesis
  proof (cases e)
    case (BeginCall i c)
    with assms(2) act show ?thesis
      by (intro keep) (cases c; auto simp: sync_defs execute_Inr execute_sync_execute split: sum.splits if_splits)+
  next
    case (Turn i)
    with assms(2) act show ?thesis
      by (intro keep) (cases "sy_caller s i"; auto simp: sync_defs execute_Inr execute_sync_execute
          split: option.splits sum.splits if_splits)+
  next
    case RunsJob
    with assms inv_jobs_runs show ?thesis by simp
  next
    case (Receives n)
    with assms(2) obtain r where r: "s' = s\<lparr>sy_bridge := loop_finishes n r (sy_bridge s)\<rparr>"
      "ex_jobs (sy_bridge s) ! n = ReceiveJob"
      by (auto simp: sync_defs split: if_splits)
    have "n < length (ex_jobs (sy_bridge s))" if "n \<in> set (ex_begun (sy_bridge s))"
    proof -
      have "n \<in> set (submitted (sy_bridge s))" using assms(1) that by (simp add: inv_jobs_def Let_def)
      then show ?thesis by (simp add: submitted_def)
    qed
    with r assms(1) show ?thesis by (auto simp: inv_jobs_def Let_def finishes_result)
  next
    case (SessionEvent x)
    with assms(2) act show ?thesis
      by (intro keep) (auto simp: sync_defs Let_def simp del: client_step.simps split: if_splits)
  next
    case OnCloseCoro
    with assms(2) act show ?thesis
      by (intro keep) (cases "sy_handler s"; auto simp: sync_defs Let_def split: if_splits)+
  next
    case LoopOver
    with assms(2) act show ?thesis by (intro keep) (auto simp: sync_defs split: if_splits)
  qed
qed

lemma caller_ok_grows: "grows s s' \<Longrightarrow> caller_ok s k \<Longrightarrow> caller_ok s' k"
  by (cases k) (auto simp: caller_ok_def grows_def nth_append split: sum.splits)

lemma caller_ok_at [simp]: "caller_ok (at i k s) = caller_ok s"
  by (simp add: caller_ok_def fun_eq_iff split: caller.split sum.split)

lemma inv_caller_step:
  assumes "inv_caller s" "inv_session s" "inv_event s" "inv_jobs s" "sync_step e s = Some s'"
  shows "inv_caller s'"
proof -
  note g = step_grows [OF assms(5)]
  have old: "caller_ok s' (sy_caller s i)" for i
    using assms(1) caller_ok_grows [OF g] by (simp add: inv_caller_def)
  have "caller_ok s' (sy_caller s' i)" for i
  proof (cases "sy_caller s' i = sy_caller s i")
    case False
    show ?thesis
    proof (cases e)
      case (BeginCall j c)
      with assms(5) False show ?thesis
        by (cases c) (auto simp: sync_defs caller_ok_def closing_call_def execute_Inr execute_sync_execute
            split: sum.splits if_splits)
    next
      case (Turn j)
      have "\<not> is_active (sy_session s)" if "map_of (ex_results (sy_bridge s)) n = Some (Inr r)"
        "ex_jobs (sy_bridge s) ! n = job_of c" "closing_call c" for c n r
        using assms(4) that by (auto simp: inv_jobs_def Let_def future_result_def closing_call_def)
      moreover have "sy_closed_event s \<Longrightarrow> \<not> is_active (sy_session s)"
        using closed_event_session [OF assms(2,3)] by (simp add: is_active_def)
      moreover have "caller_ok s (sy_caller s j)" using assms(1) by (simp add: inv_caller_def)
      ultimately show ?thesis
        using Turn assms(5) False
        by (cases "sy_caller s j") (auto simp: sync_defs caller_ok_def
            execute_Inr execute_sync_execute split: option.splits sum.splits if_splits)
    qed (use assms(5) False in \<open>auto simp: sync_defs Let_def simp del: client_step.simps
        split: option.splits prod.splits close_handler.splits if_splits\<close>)
  qed (simp add: old)
  then show ?thesis by (simp add: inv_caller_def)
qed

lemma connected_fields:
  "connect (Inr se) = (Inr (sync_new se (connecting (Inr None))), connecting (Inr None))"
  "ex_alive (connecting r)" "\<not> ex_stopping (connecting r)" "ex_jobs (connecting r) = [ConnectJob]"
  "ex_ready (connecting r) = []" "ex_begun (connecting r) = [0]" "ex_results (connecting r) = [(0, r)]"
  "ex_cancelled (connecting r) = []"
  by (simp_all add: connect_def connecting_def executor_defs)

lemma failed_connect: "connect (Inl e) = (Inl e, ex) \<Longrightarrow> \<not> ex_alive ex"
  by (auto simp: connect_def loop_ends_def)

lemma reachable_inv:
  assumes "reachable s"
  shows "inv_session s \<and> inv_event s \<and> inv_lock s \<and> inv_jobs s \<and> inv_caller s"
  using assms
proof (induction rule: reachable.induct)
  case (connected se s)
  then have s: "s = sync_new se (connecting (Inr None))" by (simp add: connected_fields)
  show ?case
    using connected(1,2) unfolding s
    by (auto simp: inv_session_def inv_event_def inv_lock_def inv_jobs_def inv_caller_def sync_new_def
        connected_fields submitted_def future_result_def caller_ok_def closed_once_def Let_def split: if_splits)
next
  case (stepped s e s')
  then show ?case
    using inv_session_step inv_event_step inv_lock_step inv_jobs_step inv_caller_step by blast
qed

text \<open>While a caller waits in the lock the event is not set.\<close>

definition inv_pending :: "sync_session \<Rightarrow> bool" where
  "inv_pending s \<longleftrightarrow> (\<forall>i c n. sy_caller s i = AwaitsInLock c n \<longrightarrow> \<not> sy_closed_event s)"

lemma inv_pending_step:
  assumes "inv_pending s" "inv_lock s" "sync_step e s = Some s'"
  shows "inv_pending s'"
proof (cases e)
  case (BeginCall i c)
  with assms show ?thesis
    by (cases c) (auto simp: inv_pending_def sync_defs execute_Inr execute_sync_execute split: sum.splits if_splits)
next
  case (Turn i)
  with assms show ?thesis
    by (cases "sy_caller s i") (auto simp: inv_pending_def sync_defs split: option.splits sum.splits if_splits)
next
  case OnCloseCoro
  have "\<not> in_lock (sy_caller s i)" if "sy_handler s = HandlerInLock" for i
    using assms(2) that by (auto simp: inv_lock_def)
  then have "sy_caller s i \<noteq> AwaitsInLock c n" if "sy_handler s = HandlerInLock" for i c n
    using that by (metis in_lock.simps(2))
  with OnCloseCoro assms(1,3) show ?thesis
    by (cases "sy_handler s") (auto simp: inv_pending_def sync_defs Let_def split: if_splits)
qed (use assms in \<open>auto simp: inv_pending_def sync_defs Let_def simp del: client_step.simps
  split: option.splits prod.splits if_splits\<close>)

lemma pending_reachable: "reachable s \<Longrightarrow> inv_pending s"
proof (induction rule: reachable.induct)
  case (connected se s)
  then show ?case by (auto simp: connected_fields sync_new_def inv_pending_def)
next
  case (stepped s e s')
  with inv_pending_step reachable_inv show ?case by blast
qed

lemma reachable_run: "reachable s \<Longrightarrow> sync_run es s = Some s' \<Longrightarrow> reachable s'"
  by (induction es arbitrary: s) (auto split: Option.bind_splits intro: reachable.stepped)

end
