(* ===== verification/SyncProps.thy ===== *)
theory SyncProps
  imports SyncInvariants
begin

text \<open>
  The properties of the synchronous session (\<open>SoupClientSessionSync\<close>): what a return of \<open>close\<close>
  means, what a close may wait for, when it completes, when it never does, and what calls do
  after it.
\<close>

section \<open>Properties\<close>

text \<open>
  C20: what a return of \<open>close\<close> means. In every interleaving the executor is stopped at most once,
  by the close handler and together with the event; the event is set only when the session has
  closed and the loop's thread ends only after that. When \<open>close\<close> or \<open>logout\<close> returns to any thread
  without an exception, all of this has happened and the thread of the loop is over. At any time
  one thread at most is inside the lock.
\<close>
theorem sync_close_returns:
  assumes "reachable s"
  shows "sy_stops s = of_bool (sy_closed_event s) \<and>
    (sy_closed_event s \<longrightarrow> sync_is_closed s \<and> s_phase (sy_session s) = CloseDone) \<and>
    (\<not> ex_alive (sy_bridge s) \<longrightarrow> sy_closed_event s) \<and>
    (sy_caller s i = Back c (Inr r) \<and> closing_call c \<longrightarrow>
       sy_closed_event s \<and> sync_is_closed s \<and> \<not> ex_alive (sy_bridge s)) \<and>
    (in_lock (sy_caller s i) \<longrightarrow> sy_handler s \<noteq> HandlerInLock \<and> (\<forall>j. in_lock (sy_caller s j) \<longrightarrow> j = i))"
proof -
  from reachable_inv [OF assms] have inv: "inv_session s" "inv_event s" "inv_lock s" "inv_caller s" by auto
  have "sy_caller s i = Back c (Inr r) \<and> closing_call c \<longrightarrow> \<not> ex_alive (sy_bridge s)"
    using inv(4) unfolding inv_caller_def caller_ok_def by (auto dest: spec [of _ i])
  moreover have "in_lock (sy_caller s i) \<longrightarrow> sy_handler s \<noteq> HandlerInLock \<and> (\<forall>j. in_lock (sy_caller s j) \<longrightarrow> j = i)"
    using inv(3) unfolding inv_lock_def by (metis option.inject thread.distinct(1) thread.inject)
  ultimately show ?thesis
    using inv(2) closed_event_session [OF inv(1,2)]
    by (auto simp: inv_event_def sync_is_closed_def is_closed_def)
qed

text \<open>A caller that waits, with the lock, for a coroutine that the loop has not begun, while the
  loop waits for the lock.\<close>

definition crossed :: "nat \<Rightarrow> sync_session \<Rightarrow> bool" where
  "crossed i s \<longleftrightarrow>
     (case sy_caller s i of AwaitsInLock c n \<Rightarrow> future_result n (sy_bridge s) = None | _ \<Rightarrow> False) \<and>
     sy_close_lock s = Some (CallerThread i) \<and> sy_handler s = HandlerAtLock \<and> \<not> sy_closed_event s"

lemma crossed_step:
  assumes "crossed i s" "inv_lock s" "sync_step e s = Some s'"
  shows "crossed i s' \<and> sy_caller s' i = sy_caller s i"
proof -
  obtain c n where c: "sy_caller s i = AwaitsInLock c n" "future_result n (sy_bridge s) = None"
    using assms(1) by (auto simp: crossed_def split: caller.splits)
  have r: "map_of (ex_results (submit j (sy_bridge s))) n = map_of (ex_results (sy_bridge s)) n" for j
    by (simp add: submit_def)
  have other: "\<not> in_lock (sy_caller s j)" if "j \<noteq> i" for j
    using assms(1,2) that by (auto simp: inv_lock_def crossed_def)
  show ?thesis
  proof (cases e)
    case (BeginCall j k)
    with assms(1,3) c r show ?thesis
      by (cases k) (auto simp: crossed_def sync_defs idle_iff execute_Inr execute_sync_execute split: sum.splits if_splits)
  next
    case (Turn j)
    with assms(3) c have "j \<noteq> i" by (auto simp: sync_defs)
    with assms(1,3) c r other [OF this] Turn show ?thesis
      by (cases "sy_caller s j") (auto simp: crossed_def sync_defs split: option.splits if_splits)
  qed (use assms in \<open>auto simp: crossed_def sync_defs loop_free_def split: option.splits prod.splits\<close>)
qed

lemma crossed_run:
  assumes "crossed i s" "reachable s" "sync_run es s = Some s'"
  shows "crossed i s' \<and> reachable s' \<and> sy_caller s' i = sy_caller s i"
  using assms
proof (induction es arbitrary: s)
  case (Cons e es)
  then obtain s1 where s1: "sync_step e s = Some s1" "sync_run es s1 = Some s'"
    by (auto split: Option.bind_splits)
  from crossed_step [OF Cons.prems(1) _ s1(1)] reachable_inv [OF Cons.prems(2)]
    Cons.IH [OF _ reachable.stepped [OF Cons.prems(2) s1(1)] s1(2)]
  show ?case by auto
qed simp

lemma runs_if_ready: "loop_free s \<Longrightarrow> ex_ready (sy_bridge s) \<noteq> [] \<Longrightarrow> runs_job s \<noteq> None"
  by (auto simp: runs_job_def loop_begins_def loop_free_def split: list.split prod.split option.split)

text \<open>
  C21: two closes deadlock. A thread in \<open>close\<close> or \<open>logout\<close> holds the lock while its coroutine waits
  for the loop; if the session, closed by its peer, by a time-out or by another thread, comes to
  \<open>on_close_coro\<close> in the meantime, the loop waits for the lock. Then neither goes on, whatever else
  happens: the call does not return, the event is never set, and no thread that waits for it or
  for the loop returns either.
\<close>
theorem sync_close_deadlock:
  assumes "reachable s" and "crossed i s" and "sync_run es s = Some s'"
  shows "sy_caller s' i = sy_caller s i \<and> \<not> sy_closed_event s' \<and> sy_handler s' = HandlerAtLock \<and>
    \<not> loop_free s' \<and> turn i s' = None \<and>
    (sy_caller s' j \<noteq> Back CallClose (Inr r) \<and> sy_caller s' j \<noteq> Back CallLogout (Inr r))"
proof -
  from crossed_run [OF assms(2,1,3)] have c: "crossed i s'" "reachable s'" "sy_caller s' i = sy_caller s i" by auto
  with sync_close_returns [OF c(2), of j] show ?thesis
    by (auto simp: crossed_def turn_def close_executed_def loop_free_def closing_call_def split: caller.splits)
qed

definition two_closes :: "sync_event list" where
  "two_closes = [BeginCall 1 CallClose, Turn 1, Turn 1, RunsJob, Turn 1, SessionEvent ClosingTask,
     SessionEvent CloseStep, SessionEvent CloseStep, SessionEvent CloseStep,
     BeginCall 0 CallClose, Turn 0, Turn 0, SessionEvent CloseStep]"

text \<open>A session as \<open>connect\<close> returns it.\<close>

definition sample_client :: soup_session where
  "sample_client = fold client_step
     [ClientSession ConnectionMade, LoginResume (Inr (LoginAccepted (lit ''s'') 1))] (client_new None None 10 10)"

definition sample_sync :: sync_session where
  "sample_sync = sync_new sample_client (connecting (Inr None))"

lemma sample_reachable: "reachable sample_sync"
proof (rule reachable.connected)
  show "closed_once sample_client"
    unfolding sample_client_def by (rule client_run_once [OF new_once(1)])
  show "closes sample_client = 0" "fst ` set (q_results (s_queue sample_client)) \<subseteq> {0}"
    by (simp_all add: sample_client_def or_same_def connection_made_def login_resume_def start_heartbeats_def
        new_monitor_def not_none_def session_start_dispatching_def client_new_def extend_soup_def closes_def
        session.defs soup_session.defs session_new_def mq_new_def mq_empty_def start_dispatching_def Let_def)
  show "fst (connect (Inr sample_client)) = Inr sample_sync"
    by (simp add: connected_fields sample_sync_def)
qed

lemma two_closes_run:
  "case sync_run two_closes sample_sync of None \<Rightarrow> False | Some s \<Rightarrow> crossed 0 s"
  by code_simp

lemma two_closes_waits:
  "case sync_run two_closes sample_sync of None \<Rightarrow> False | Some s \<Rightarrow> sy_caller s 1 = AtEvent CallClose"
  by code_simp

theorem sync_close_deadlock_witness:
  "case sync_run two_closes sample_sync of None \<Rightarrow> False
   | Some s \<Rightarrow> reachable s \<and> (\<forall>es s'. sync_run es s = Some s' \<longrightarrow> turn 0 s' = None \<and> \<not> sy_closed_event s')"
proof -
  obtain s where s: "sync_run two_closes sample_sync = Some s" "crossed 0 s"
    using two_closes_run by (auto split: option.splits)
  note r = reachable_run [OF sample_reachable s(1)]
  from s(1) r sync_close_deadlock [OF r s(2)] show ?thesis by auto
qed

definition too_late :: "sync_session \<Rightarrow> bool" where
  "too_late s \<longleftrightarrow> sy_handler s = NotCalled \<and> s_phase (sy_session s) = CloseDone \<and> closed_once (sy_session s)"

lemma too_late_step:
  assumes "too_late s" "sync_step e s = Some s'"
  shows "too_late s'"
proof -
  from assms(1) have c: "s_closed (sy_session s)" by (simp add: too_late_def closed_once_def)
  have "stage (sy_session s') = stage (sy_session s) \<and> sy_handler s' = NotCalled"
  proof (cases e)
    case (BeginCall j c)
    with assms show ?thesis
      by (cases c) (auto simp: too_late_def sync_defs dest: unseq_core split: sum.splits if_splits)
  next
    case (Turn j)
    with assms show ?thesis
      by (cases "sy_caller s j") (auto simp: too_late_def sync_defs split: option.splits sum.splits if_splits)
  next
    case RunsJob
    have "stage se' = stage se" if "perform j n se = (se', r)" for j n se se' r
      using core_stage [OF perform_core [of j n se]] that by simp
    with RunsJob assms show ?thesis
      by (auto simp: too_late_def sync_defs split: option.splits prod.splits if_splits)
  next
    case (SessionEvent x)
    have "stage (client_step (ClientSession x) (sy_session s)) = stage (sy_session s)"
    proof (cases "x = CloseStep")
      case True
      with assms(1) show ?thesis by (simp add: too_late_def close_step_def)
    qed (use client.step_begins_close [of x "sy_session s"] begins_close_phase [OF _ c] in simp)
    with SessionEvent assms stage_once [OF this] show ?thesis
      by (auto simp: too_late_def sync_defs Let_def simp del: client_step.simps split: if_splits)
  qed (use assms in \<open>auto simp: too_late_def sync_defs split: option.splits if_splits\<close>)
  with assms(1) stage_once [of "sy_session s'" "sy_session s"] show ?thesis
    by (simp add: too_late_def stage_def)
qed

lemma too_late_run: "too_late s \<Longrightarrow> sync_run es s = Some s' \<Longrightarrow> too_late s'"
  by (induction es arbitrary: s) (auto dest: too_late_step split: Option.bind_splits)

text \<open>
  a session that closes before \<open>connect\<close> returns it. The close handler is injected when the
  login is over; if the session has already closed by then, the handler is never called: the
  event is never set, the loop's thread never ends, and \<open>close\<close> and \<open>logout\<close> never return.
\<close>
theorem sync_late_handler:
  assumes "closed_once se" and "s_phase se = CloseDone" and "closes se = 0"
    and "fst ` set (q_results (s_queue se)) \<subseteq> {0}"
    and "fst (connect (Inr se)) = Inr s" and "sync_run es s = Some s'"
  shows "sync_is_closed s' \<and> \<not> sy_closed_event s' \<and> ex_alive (sy_bridge s') \<and>
    sy_caller s' i \<noteq> Back CallClose (Inr r) \<and> sy_caller s' i \<noteq> Back CallLogout (Inr r)"
proof -
  have s: "s = sync_new se (connecting (Inr None))" using assms(5) by (simp add: connected_fields)
  have "too_late s" using assms(1,2) unfolding s by (simp add: too_late_def sync_new_def closed_once_def)
  from too_late_run [OF this assms(6)] have late: "too_late s'" .
  have "reachable s'" by (rule reachable_run [OF reachable.connected [OF assms(1,3-5)] assms(6)])
  with late sync_close_returns [of s' i] reachable_inv [of s'] show ?thesis
    by (auto simp: too_late_def inv_event_def sync_is_closed_def is_closed_def closed_once_def closing_call_def)
qed

definition closed_client :: soup_session where
  "closed_client = fold client_step (ClientSession (Close False) # replicate 4 (ClientSession CloseStep)) sample_client"

theorem sync_late_handler_witness:
  "sync_run es (sync_new closed_client (connecting (Inr None))) = Some s' \<longrightarrow> sy_caller s' 0 \<noteq> Back CallClose (Inr r)"
proof -
  have o: "closed_once closed_client"
    unfolding closed_client_def sample_client_def by (intro client_run_once new_once(1))
  have f: "s_phase closed_client = CloseDone" "closes closed_client = 0" "q_results (s_queue closed_client) = []"
    by code_simp+
  then have "fst ` set (q_results (s_queue closed_client)) \<subseteq> {0}" by simp
  from sync_late_handler [OF o f(1,2) this, of "sync_new closed_client (connecting (Inr None))" es s' 0 r]
  show ?thesis by (simp add: connected_fields)
qed


definition close_schedule :: "nat \<Rightarrow> sync_event list" where
  "close_schedule i = [Turn i, Turn i, RunsJob, Turn i] @
     (SessionEvent ClosingTask # replicate 4 (SessionEvent CloseStep)) @
     [OnCloseCoro, OnCloseCoro, Turn i, LoopOver, Turn i]"



abbreviation goes_on :: "sync_session \<Rightarrow> bool" where
  "goes_on s \<equiv> (\<exists>j. turn j s \<noteq> None) \<or> runs_job s \<noteq> None \<or> on_close_coro s \<noteq> None \<or> loop_over s \<noteq> None \<or>
     (\<exists>j. crossed j s)"

lemma reachable_caller_ok: "reachable s \<Longrightarrow> caller_ok s (sy_caller s j)"
  using reachable_inv [of s] by (simp add: inv_caller_def)

lemma lock_holder_goes_on:
  assumes "reachable s" "in_lock (sy_caller s j)"
  shows "goes_on s"
proof (cases "sy_caller s j")
  case (InLock k)
  then have "turn j s \<noteq> None" by (simp add: turn_def)
  then show ?thesis by blast
next
  case (AwaitsInLock k m)
  from reachable_inv [OF assms(1)] have inv: "inv_event s" "inv_lock s" "inv_jobs s" by auto
  note lock = inv(2) [unfolded inv_lock_def]
  show ?thesis
  proof (cases "future_result m (sy_bridge s)")
    case None
    with reachable_caller_ok [OF assms(1), of j] AwaitsInLock inv(3) have m: "m \<in> set (ex_ready (sy_bridge s))"
      by (auto simp: caller_ok_def closing_call_def inv_jobs_def Let_def)
    have e: "\<not> sy_closed_event s"
      using pending_reachable [OF assms(1)] AwaitsInLock by (auto simp: inv_pending_def)
    have l: "sy_close_lock s = Some (CallerThread j)" using assms(2) lock by simp
    show ?thesis
    proof (cases "sy_handler s")
      case NotCalled
      with m e inv(1) have "runs_job s \<noteq> None"
        by (intro runs_if_ready) (auto simp: inv_event_def loop_free_def)
      then show ?thesis by blast
    next
      case HandlerAtLock
      with None AwaitsInLock l e have "crossed j s" by (simp add: crossed_def)
      then show ?thesis by blast
    next
      case HandlerInLock
      with lock have "sy_close_lock s = Some LoopThread" by blast
      with l show ?thesis by simp
    qed (use e inv(1) in \<open>simp_all add: inv_event_def\<close>)
  next
    case (Some r)
    with AwaitsInLock have "turn j s \<noteq> None"
      by (auto simp: turn_def close_executed_def split: sum.split)
    then show ?thesis by blast
  qed
qed (use assms(2) in simp_all)

lemma close_handler_goes_on:
  assumes "reachable s" "sy_handler s = HandlerAtLock \<or> sy_handler s = HandlerInLock"
  shows "goes_on s"
proof (cases "sy_close_lock s")
  case None
  with assms(2) show ?thesis by (auto simp: on_close_coro_def Let_def)
next
  case (Some t)
  with assms(2) lock_holder_goes_on [OF assms(1)] reachable_inv [OF assms(1)] show ?thesis
    by (cases t) (auto simp: on_close_coro_def inv_lock_def Let_def)
qed

text \<open>
  C23: what can keep a \<open>close\<close> or \<open>logout\<close> waiting. Whenever a thread is inside one of them, some thread
  can go on - a caller, the loop with a coroutine, with the close handler or by ending - or two
  closes have crossed, or the loop is still closing the session.
\<close>
theorem sync_close_waits:
  assumes "reachable s" and "sy_caller s i \<in> {AtLock c, InLock c, AwaitsInLock c n, AtEvent c, AtJoin c}"
  shows "(\<exists>j. turn j s \<noteq> None) \<or> runs_job s \<noteq> None \<or> on_close_coro s \<noteq> None \<or> loop_over s \<noteq> None \<or>
    (\<exists>j. crossed j s) \<or> (\<not> is_active (sy_session s) \<and> loop_free s \<and> sy_handler s = NotCalled)"
proof -
  from reachable_inv [OF assms(1)] have inv: "inv_event s" "inv_lock s" by auto
  note ok = reachable_caller_ok [OF assms(1), of i]
  note holder = lock_holder_goes_on [OF assms(1)] and handler = close_handler_goes_on [OF assms(1)]
  from assms(2) show ?thesis
  proof (elim insertE emptyE)
    assume a: "sy_caller s i = AtLock c"
    then have "sy_close_lock s = None \<Longrightarrow> turn i s \<noteq> None" by (simp add: turn_def)
    moreover have "goes_on s" if "sy_close_lock s = Some t" for t
      using that holder handler inv(2) by (cases t) (auto simp: inv_lock_def)
    ultimately show ?thesis by (cases "sy_close_lock s") blast+
  next
    assume a: "sy_caller s i = AtEvent c"
    then have "sy_closed_event s \<Longrightarrow> turn i s \<noteq> None" by (simp add: turn_def)
    moreover from a ok inv(1) handler have ?thesis if "\<not> sy_closed_event s"
      using that by (cases "sy_handler s") (auto simp: caller_ok_def inv_event_def loop_free_def)
    ultimately show ?thesis by blast
  next
    assume a: "sy_caller s i = AtJoin c"
    then have "\<not> ex_alive (sy_bridge s) \<Longrightarrow> turn i s \<noteq> None" by (simp add: turn_def executor_join_def)
    moreover from a ok inv(1) have "ex_alive (sy_bridge s) \<Longrightarrow> loop_over s \<noteq> None"
      by (auto simp: caller_ok_def inv_event_def loop_over_def loop_free_def)
    ultimately show ?thesis by blast
  qed (use holder [of i] in auto)
qed


text \<open>
  calls after the end. Once \<open>close\<close> or \<open>logout\<close> has returned to some thread, \<open>receive\<close>, \<open>send_msg\<close>
  and \<open>send_debug\<close> raise \<open>StateError\<close> in every thread. \<open>close\<close> and \<open>logout\<close> return again without
  executing anything. \<open>send_unseq_data\<close> alone, which does not go through the executor, still writes
  to the transport of the closed session and returns.
\<close>
theorem sync_calls_after_close:
  assumes "reachable s" and "sy_caller s j = Back k (Inr r)" and "closing_call k" and "idle (sy_caller s i)"
  shows "(c \<in> {CallReceive, CallSend m, CallDebug text} \<longrightarrow>
       begin_call i c s = Some (at i (Back c (Inl StateError)) s)) \<and>
    (closing_call c \<and> sy_close_lock s = None \<longrightarrow>
       sync_run [BeginCall i c, Turn i, Turn i, Turn i, Turn i] s = Some (at i (Back c (Inr None)) s)) \<and>
    (s_transport (sy_session s) \<and> length data < 32767 \<longrightarrow>
       (\<exists>s'. begin_call i (CallUnseq data) s = Some s' \<and> sy_caller s' i = Back (CallUnseq data) (Inr None) \<and>
          s_sent (sy_session s') = s_sent (sy_session s) @ [Wrote (soup_bytes (UnSequencedData data))]))"
proof -
  from sync_close_returns [OF assms(1), of j k r] assms(2,3)
  have dead: "\<not> ex_alive (sy_bridge s)" "sy_closed_event s" by auto
  show ?thesis
  proof (intro conjI impI)
    assume "c \<in> {CallReceive, CallSend m, CallDebug text}"
    with dead assms(4) show "begin_call i c s = Some (at i (Back c (Inl StateError)) s)"
      by (auto simp: sync_defs executor_defs)
  next
    assume "closing_call c \<and> sy_close_lock s = None"
    with dead assms(4) show "sync_run [BeginCall i c, Turn i, Turn i, Turn i, Turn i] s = Some (at i (Back c (Inr None)) s)"
      by (auto simp: closing_call_def sync_defs)
  next
    assume a: "s_transport (sy_session s) \<and> length data < 32767"
    then have "valid_soup (UnSequencedData data)" by simp
    then obtain bs where "soup_to_bytes (UnSequencedData data) = Inr (length bs, bs)"
      using soup_decode_encode by blast
    with a assms(4) show "\<exists>s'. begin_call i (CallUnseq data) s = Some s' \<and>
       sy_caller s' i = Back (CallUnseq data) (Inr None) \<and>
       s_sent (sy_session s') = s_sent (sy_session s) @ [Wrote (soup_bytes (UnSequencedData data))]"
      by (auto simp: sync_defs send_unseq_data_def send_msg_def is_heartbeat_def soup_bytes_def Let_def)
  qed
qed

theorem sync_close_waits_witness:
  "case sync_run two_closes sample_sync of None \<Rightarrow> False
   | Some s \<Rightarrow> sy_caller s 1 = AtEvent CallClose \<and> (turn 1 s = None \<longrightarrow> runs_job s = None \<longrightarrow>
       on_close_coro s = None \<longrightarrow> loop_over s = None \<longrightarrow> loop_free s \<or> (\<exists>j. turn j s \<noteq> None \<or> crossed j s))"
proof -
  obtain s where s: "sync_run two_closes sample_sync = Some s" "sy_caller s 1 = AtEvent CallClose"
    using two_closes_waits by (auto split: option.splits)
  from s sync_close_waits [OF reachable_run [OF sample_reachable s(1)], of 1 CallClose 0] show ?thesis by auto
qed



lemma sample_closes:
  "case sync_run (BeginCall 1 CallClose # close_schedule 1) sample_sync of None \<Rightarrow> False
   | Some s \<Rightarrow> sy_caller s 1 = Back CallClose (Inr None) \<and> idle (sy_caller s 0) \<and> s_transport (sy_session s)"
  by code_simp

theorem sync_close_returns_witness:
  "case sync_run (BeginCall 1 CallClose # close_schedule 1) sample_sync of None \<Rightarrow> False
   | Some s \<Rightarrow> sync_is_closed s \<and> \<not> ex_alive (sy_bridge s) \<and> sy_stops s = 1"
proof -
  obtain s where s: "sync_run (BeginCall 1 CallClose # close_schedule 1) sample_sync = Some s"
    "sy_caller s 1 = Back CallClose (Inr None)"
    using sample_closes by (auto split: option.splits)
  from sync_close_returns [OF reachable_run [OF sample_reachable s(1)], of 1 CallClose None] s
  show ?thesis by (simp add: closing_call_def)
qed

theorem sync_calls_after_close_witness:
  "case sync_run (BeginCall 1 CallClose # close_schedule 1) sample_sync of None \<Rightarrow> False
   | Some s \<Rightarrow> begin_call 0 CallReceive s = Some (at 0 (Back CallReceive (Inl StateError)) s) \<and>
       (\<exists>s'. begin_call 0 (CallUnseq [7]) s = Some s' \<and> sy_caller s' 0 = Back (CallUnseq [7]) (Inr None))"
proof -
  obtain s where s: "sync_run (BeginCall 1 CallClose # close_schedule 1) sample_sync = Some s"
    "sy_caller s 1 = Back CallClose (Inr None)" "idle (sy_caller s 0)" "s_transport (sy_session s)"
    using sample_closes by (auto split: option.splits)
  have "closing_call CallClose" by (simp add: closing_call_def)
  from sync_calls_after_close [OF reachable_run [OF sample_reachable s(1)] s(2) this s(3),
      of CallReceive "Debug []" "[]" "[7]"] s
  show ?thesis by auto
qed

end
