(* ===== verification/Files.thy ===== *)
theory Files
  imports Prelude
begin

text \<open>
  The file system as the command line tools use it: files with their contents and directories.
  Writing with the modes \<open>'w'\<close> and \<open>'a'\<close>, \<open>touch\<close>, removing a tree and copying. A file system that
  refuses a write is not modelled.
\<close>

section \<open>Operations\<close>

text \<open>The files with their contents, and the directories that were made.\<close>

record 'p files =
  contents :: "'p \<Rightarrow> pystr option"
  directories :: "'p list"

definition path_exists :: "'p \<Rightarrow> 'p files \<Rightarrow> bool" where
  "path_exists p fs \<longleftrightarrow> contents fs p \<noteq> None \<or> p \<in> set (directories fs)"

definition text_of :: "'p \<Rightarrow> 'p files \<Rightarrow> pystr" where
  "text_of p fs = (case contents fs p of None \<Rightarrow> [] | Some t \<Rightarrow> t)"

text \<open>\<open>touch\<close>, and \<open>open\<close> with the modes \<open>'w'\<close> and \<open>'a'\<close> followed by a write.\<close>

definition touch :: "'p \<Rightarrow> 'p files \<Rightarrow> 'p files" where
  "touch p fs = fs\<lparr>contents := (contents fs)(p \<mapsto> text_of p fs)\<rparr>"

definition write_new :: "'p \<Rightarrow> pystr \<Rightarrow> 'p files \<Rightarrow> 'p files" where
  "write_new p t fs = fs\<lparr>contents := (contents fs)(p \<mapsto> t)\<rparr>"

definition append_to :: "'p \<Rightarrow> pystr \<Rightarrow> 'p files \<Rightarrow> 'p files" where
  "append_to p t fs = fs\<lparr>contents := (contents fs)(p \<mapsto> text_of p fs @ t)\<rparr>"

text \<open>\<open>shutil.rmtree\<close>, of the paths that are below a directory, and \<open>shutil.copy2\<close>.\<close>

definition rmtree :: "('p \<Rightarrow> bool) \<Rightarrow> 'p files \<Rightarrow> 'p files" where
  "rmtree below fs = \<lparr>contents = (\<lambda>p. if below p then None else contents fs p),
     directories = filter (\<lambda>p. \<not> below p) (directories fs)\<rparr>"

definition copy_file :: "'p \<Rightarrow> 'p \<Rightarrow> 'p files \<Rightarrow> 'p files result" where
  "copy_file src dst fs =
     (case contents fs src of None \<Rightarrow> Inl FileNotFoundError | Some t \<Rightarrow> Inr (write_new dst t fs))"

section \<open>What was written stays\<close>

text \<open>A file grows: what it held is still there, at its beginning.\<close>

definition kept :: "'p files \<Rightarrow> 'p files \<Rightarrow> bool" where
  "kept fs fs' \<longleftrightarrow> (\<forall>p c. contents fs p = Some c \<longrightarrow> (\<exists>t. contents fs' p = Some (c @ t)))"

lemma kept_refl: "kept fs fs"
  by (simp add: kept_def)

lemma kept_trans: "kept fs gs \<Longrightarrow> kept gs hs \<Longrightarrow> kept fs hs"
  unfolding kept_def by fastforce

lemma kept_writes:
  "kept fs (touch p fs)" "kept fs (append_to p t fs)" "kept fs (fs\<lparr>directories := ds\<rparr>)"
  "\<not> path_exists p fs \<Longrightarrow> kept fs (write_new p t fs)"
  by (auto simp: kept_def touch_def append_to_def write_new_def text_of_def path_exists_def)

lemma text_of_append [simp]:
  "text_of p (append_to q t fs) = (if p = q then text_of p fs @ t else text_of p fs)"
  "contents (append_to q t fs) p = (if p = q then Some (text_of p fs @ t) else contents fs p)"
  by (simp_all add: text_of_def append_to_def)

end
