(* ===== verification/NewProject.thy ===== *)
theory NewProject
  imports Files
begin

text \<open>
  The command that creates a project (\<open>tools/new_project.py\<close>): which applications it accepts, and what
  it does to the file system. Paths and the rendering of the templates (\<open>pathlib\<close>, \<open>chevron\<close>) are
  parameters, collected in the record \<open>tools\<close>; a file system that refuses a write is not modelled.
\<close>

section \<open>Applications\<close>

definition SUPPORTED_PROTOCOLS :: "pystr list" where
  "SUPPORTED_PROTOCOLS = [lit ''ouch'', lit ''itch'', lit ''sqf'']"

definition colon :: nat where "colon = 58"

text \<open>\<open>str.split\<close> at a single character.\<close>

fun py_split :: "nat \<Rightarrow> pystr \<Rightarrow> pystr list" where
  "py_split c [] = [[]]"
| "py_split c (x # xs) =
     (if x = c then [] # py_split c xs
      else case py_split c xs of [] \<Rightarrow> [[x]] | w # ws \<Rightarrow> (x # w) # ws)"

text \<open>\<open>app_name, proto_name = app_proto.split(':')\<close> raises \<open>ValueError\<close> unless there are two parts.\<close>

definition app_proto :: "pystr \<Rightarrow> (pystr \<times> pystr) result" where
  "app_proto a = (case py_split colon a of [app_name, proto_name] \<Rightarrow> Inr (app_name, proto_name) | _ \<Rightarrow> Inl ValueError)"

fun validate_loop :: "(pystr \<times> pystr) list \<Rightarrow> pystr list \<Rightarrow> (pystr \<times> pystr) list result" where
  "validate_loop apps [] = Inr apps"
| "validate_loop apps (a # as) =
     (if colon \<notin> set a then Inl ValueError
      else rbind (app_proto a) (\<lambda>(app_name, proto_name).
        if map_of apps app_name \<noteq> None then Inl ValueError
        else if proto_name \<notin> set SUPPORTED_PROTOCOLS then Inl ValueError
        else validate_loop (dict_set apps app_name proto_name) as))"


section \<open>The project\<close>

record 'p AppInfo =
  app_name :: pystr
  app_dir :: 'p
  app_xml :: 'p
  proto_name :: pystr

record 'p Context =
  project_name :: pystr
  project_src_name :: pystr
  project_module_dir :: 'p
  target_dir :: 'p
  pyproject_toml :: 'p
  tox_ini :: 'p
  apps :: "'p AppInfo list"

record 'p tools =
  as_path :: "pystr \<Rightarrow> 'p"
  slash :: "'p \<Rightarrow> 'p \<Rightarrow> 'p"
  render_xml :: "'p AppInfo \<Rightarrow> pystr"
  render_toml :: "'p Context \<Rightarrow> pystr"
  render_tox :: "'p Context \<Rightarrow> pystr"




definition app_info :: "'p tools \<Rightarrow> 'p Context \<Rightarrow> pystr \<Rightarrow> pystr \<Rightarrow> 'p AppInfo" where
  "app_info tk cx name proto =
     (let dir = slash tk (project_module_dir cx) (as_path tk name)
      in \<lparr>app_name = name, app_dir = dir, app_xml = slash tk dir (as_path tk (name @ lit ''.xml'')),
          proto_name = proto\<rparr>)"





section \<open>Lemmas\<close>


definition name_of :: "pystr \<Rightarrow> pystr" where
  "name_of a = takeWhile (\<lambda>x. x \<noteq> colon) a"







lemma app_proto_error: "app_proto a = Inl e \<Longrightarrow> e = ValueError"
  by (auto simp: app_proto_def split: list.splits)

lemma name_of_app [simp]: "colon \<notin> set n \<Longrightarrow> name_of (n @ colon # p) = n"
  by (induction n) (auto simp: name_of_def)


lemma validate_loop_error: "validate_loop d as = Inl e \<Longrightarrow> e = ValueError"
  by (induction d as rule: validate_loop.induct)
    (auto simp: result_simps dest: app_proto_error split: if_splits prod.splits)



text \<open>The context of a project when its applications have been added.\<close>

definition info_of :: "'p tools \<Rightarrow> 'p Context \<Rightarrow> pystr \<Rightarrow> 'p AppInfo" where
  "info_of tk cx a =
     (case app_proto a of Inl _ \<Rightarrow> app_info tk cx a [] | Inr (n, p) \<Rightarrow> app_info tk cx n p)"



lemma app_info_fields [simp]:
  "proto_name (app_info tk cx n p) = p" "app_info tk (cx\<lparr>apps := as\<rparr>) n p = app_info tk cx n p"
  by (simp_all add: app_info_def Let_def)

lemma info_of_apps [simp]: "info_of tk (cx\<lparr>apps := as\<rparr>) = info_of tk cx"
  by (simp add: info_of_def fun_eq_iff split: sum.split prod.split)





section \<open>Properties\<close>






end
