(* ===== verification/Generators.thy ===== *)
theory Generators
  imports Files
begin

text \<open>
  The code generators: \<open>Generator\<close> of \<open>common/message/codegen.py\<close> and of \<open>fix/parser/generator.py\<close>, and
  \<open>Ans1Generator\<close> of \<open>asn1_app/codegen.py\<close>. Paths and templates (\<open>os.path\<close>, \<open>chevron\<close>) are parameters,
  collected in the record \<open>gen_tools\<close>; the context that the definitions of a specification give is
  a value of any type. What is modelled is which files are written, with what, and in which mode.
\<close>

section \<open>Contexts and tools\<close>

text \<open>The contexts handed to the templates: that of a module, and that of an init file.\<close>

datatype ('d, 'x) gen_context =
    SoupContext 'd pystr pystr 'x
  | InitContext "pystr list"
  | FixContext 'd pystr pystr
  | FixInitContext pystr pystr "pystr list"
  | Asn1Context pystr pystr pystr 'x

record ('d, 'x, 'p) gen_tools =
  join :: "'p \<Rightarrow> pystr \<Rightarrow> 'p"
  TEMPLATES_PATH :: 'p
  render :: "'p \<Rightarrow> ('d, 'x) gen_context \<Rightarrow> pystr"
  below :: "'p \<Rightarrow> 'p \<Rightarrow> bool"
  basename :: "'p \<Rightarrow> pystr"

definition ends_with :: "pystr \<Rightarrow> pystr \<Rightarrow> bool" where
  "ends_with suffix s \<longleftrightarrow> length suffix \<le> length s \<and> drop (length s - length suffix) s = suffix"

definition with_prefix :: "pystr \<Rightarrow> pystr" where
  "with_prefix prefix = (if prefix = [] then [] else prefix @ lit ''_'')"

definition template_path :: "('d, 'x, 'p) gen_tools \<Rightarrow> pystr \<Rightarrow> 'p" where
  "template_path tk template =
     join tk (TEMPLATES_PATH tk)
       (if ends_with (lit ''.mustache'') template then template else template @ lit ''.mustache'')"

text \<open>\<open>Path(op_dir).mkdir(parents=True, exist_ok=True)\<close>, and \<open>_generate\<close> of all three: the file is
  opened with mode \<open>'a'\<close>.\<close>

definition mkdir :: "'p \<Rightarrow> 'p files \<Rightarrow> 'p files" where
  "mkdir d fs = fs\<lparr>directories := d # directories fs\<rparr>"

definition render_to ::
  "('d, 'x, 'p) gen_tools \<Rightarrow> 'p \<Rightarrow> ('d, 'x) gen_context \<Rightarrow> 'p \<Rightarrow> 'p files \<Rightarrow> 'p files" where
  "render_to tk tmpl ctx op_file fs = append_to op_file (render tk tmpl ctx) fs"

section \<open>Applications over SoupBinTCP\<close>

record ('d, 'p) Generator =
  definitions :: 'd
  impl :: pystr
  app_name :: pystr
  op_dir :: 'p
  template :: 'p
  generate_init_file :: bool
  mod_name :: pystr
  op_file :: 'p
  init_file :: 'p

definition generator_init ::
  "('d, 'x, 'p) gen_tools \<Rightarrow> 'd \<Rightarrow> pystr \<Rightarrow> pystr \<Rightarrow> 'p \<Rightarrow> pystr \<Rightarrow> pystr \<Rightarrow> bool \<Rightarrow> 'p files \<Rightarrow>
     ('d, 'p) Generator \<times> 'p files" where
  "generator_init tk defs im app dir tmpl prefix init fs =
     (let module = with_prefix prefix @ im @ lit ''_'' @ app
      in (\<lparr>definitions = defs, impl = im, app_name = app, op_dir = dir, template = template_path tk tmpl,
           generate_init_file = init, mod_name = module, op_file = join tk dir (module @ lit ''.py''),
           init_file = join tk dir (lit ''__init__.py'')\<rparr>,
          mkdir dir fs))"

definition generate ::
  "('d, 'x, 'p) gen_tools \<Rightarrow> 'x \<Rightarrow> ('d, 'p) Generator \<Rightarrow> 'p files \<Rightarrow> 'p list \<times> 'p files" where
  "generate tk extra g fs =
     (let fs1 = render_to tk (template g) (SoupContext (definitions g) (impl g) (app_name g) extra) (op_file g) fs
      in if generate_init_file g
         then ([op_file g, init_file g],
               render_to tk (join tk (TEMPLATES_PATH tk) (lit ''init.mustache''))
                 (InitContext [mod_name g]) (init_file g) fs1)
         else ([op_file g], fs1))"

section \<open>FIX applications\<close>

record ('d, 'p) FixGenerator =
  fg_definitions :: 'd
  fg_app_name :: pystr
  fg_op_dir :: 'p
  fg_generate_init_file :: bool
  fg_module_prefix :: pystr
  fg_init_file :: 'p

definition fix_generator_init ::
  "('d, 'x, 'p) gen_tools \<Rightarrow> 'd \<Rightarrow> pystr \<Rightarrow> 'p \<Rightarrow> pystr \<Rightarrow> bool \<Rightarrow> 'p files \<Rightarrow>
     ('d, 'p) FixGenerator \<times> 'p files" where
  "fix_generator_init tk defs app dir prefix init fs =
     (\<lparr>fg_definitions = defs, fg_app_name = app, fg_op_dir = dir, fg_generate_init_file = init,
       fg_module_prefix = with_prefix prefix @ lit ''fix_'' @ app, fg_init_file = join tk dir (lit ''__init__.py'')\<rparr>,
      mkdir dir fs)"

definition fix_files :: "pystr list" where
  "fix_files = [lit ''fields'', lit ''groups'', lit ''bodies'', lit ''messages'']"

definition fix_gen_context :: "('d, 'p) FixGenerator \<Rightarrow> ('d, 'x) gen_context" where
  "fix_gen_context g = FixContext (fg_definitions g) (fg_module_prefix g) (fg_app_name g)"

definition fix_module :: "('d, 'p) FixGenerator \<Rightarrow> pystr \<Rightarrow> pystr" where
  "fix_module g file = fg_module_prefix g @ lit ''_'' @ file"

text \<open>A module of the application, and the module \<open>app\<close>, whose name has no prefix.\<close>

definition fix_generate_module ::
  "('d, 'x, 'p) gen_tools \<Rightarrow> ('d, 'p) FixGenerator \<Rightarrow> pystr \<Rightarrow> pystr \<Rightarrow> 'p files \<Rightarrow> 'p files" where
  "fix_generate_module tk g file module fs =
     render_to tk (join tk (TEMPLATES_PATH tk) (file @ lit ''.mustache'')) (fix_gen_context g)
       (join tk (fg_op_dir g) (module @ lit ''.py'')) fs"

definition fix_generate ::
  "('d, 'x, 'p) gen_tools \<Rightarrow> ('d \<Rightarrow> pystr) \<Rightarrow> ('d, 'p) FixGenerator \<Rightarrow> 'p files \<Rightarrow> 'p list \<times> 'p files" where
  "fix_generate tk client_session g fs =
     (let modules = map (fix_module g) fix_files @ [lit ''app''];
          fs1 = fold (\<lambda>file. fix_generate_module tk g file (fix_module g file)) fix_files fs;
          fs2 = fix_generate_module tk g (lit ''app'') (lit ''app'') fs1;
          files = map (\<lambda>m. join tk (fg_op_dir g) (m @ lit ''.py'')) modules
      in if fg_generate_init_file g
         then (files @ [fg_init_file g],
               render_to tk (join tk (TEMPLATES_PATH tk) (lit ''init.mustache''))
                 (FixInitContext (fg_app_name g) (client_session (fg_definitions g)) modules) (fg_init_file g) fs2)
         else (files, fs2))"

section \<open>ASN.1 applications\<close>

record 'p Ans1Generator =
  ag_app_name :: pystr
  ag_pdu :: pystr
  ag_package_name :: pystr
  ag_op_dir :: 'p
  ag_template :: 'p
  ag_generate_init_file :: bool
  ag_mod_name :: pystr
  ag_op_file :: 'p
  ag_asn1_files :: "'p list"

text \<open>\<open>listing\<close> is what \<open>os.listdir\<close> gives for the directory of the specifications. The output directory
  is removed with everything in it.\<close>

definition ans1_init ::
  "('d, 'x, 'p) gen_tools \<Rightarrow> pystr list \<Rightarrow> 'p \<Rightarrow> pystr \<Rightarrow> pystr \<Rightarrow> 'p \<Rightarrow> pystr \<Rightarrow> pystr \<Rightarrow> pystr \<Rightarrow> bool \<Rightarrow>
     'p files \<Rightarrow> ('p Ans1Generator \<times> 'p files) result" where
  "ans1_init tk listing asn1_dir app pdu dir tmpl prefix package init fs =
     (let module = with_prefix prefix @ app;
          g = \<lparr>ag_app_name = app, ag_pdu = pdu, ag_package_name = package, ag_op_dir = dir,
               ag_template = template_path tk tmpl, ag_generate_init_file = init, ag_mod_name = module,
               ag_op_file = join tk dir (module @ lit ''.py''),
               ag_asn1_files = map (join tk asn1_dir) (filter (ends_with (lit ''.asn1'')) listing)\<rparr>
      in if path_exists dir fs then Inr (g, mkdir dir (rmtree (below tk dir) fs)) else Inl FileNotFoundError)"

fun copy_all :: "('d, 'x, 'p) gen_tools \<Rightarrow> 'p \<Rightarrow> 'p list \<Rightarrow> 'p files \<Rightarrow> 'p files result" where
  "copy_all tk dir [] fs = Inr fs"
| "copy_all tk dir (src # srcs) fs =
     rbind (copy_file src (join tk dir (basename tk src)) fs) (copy_all tk dir srcs)"

definition copy_asn1_files ::
  "('d, 'x, 'p) gen_tools \<Rightarrow> 'p Ans1Generator \<Rightarrow> 'p files \<Rightarrow> 'p files result" where
  "copy_asn1_files tk g fs =
     (let dir = join tk (ag_op_dir g) (lit ''spec'')
      in copy_all tk dir (ag_asn1_files g) (mkdir dir fs))"

definition ans1_generate ::
  "('d, 'x, 'p) gen_tools \<Rightarrow> 'x \<Rightarrow> 'p Ans1Generator \<Rightarrow> 'p files \<Rightarrow> ('p list \<times> 'p files) result" where
  "ans1_generate tk extra g fs =
     (let fs1 = render_to tk (ag_template g)
            (Asn1Context (ag_app_name g) (ag_pdu g) (ag_package_name g) extra) (ag_op_file g) fs;
          init = join tk (ag_op_dir g) (lit ''__init__.py'');
          (files, fs2) = (if ag_generate_init_file g
             then ([ag_op_file g, init],
                   render_to tk (join tk (TEMPLATES_PATH tk) (lit ''init.mustache''))
                     (InitContext [ag_mod_name g]) init fs1)
             else ([ag_op_file g], fs1))
      in rbind (copy_asn1_files tk g fs2) (\<lambda>fs3. Inr (files, fs3)))"

section \<open>Commands\<close>

text \<open>The commands \<open>generate\<close> of the applications: \<open>parse\<close> is the parser applied to the specification
  file, which is given whether messages may override earlier ones; \<open>record_type\<close> is the additional
  entry of the context.\<close>

definition generate_command ::
  "pystr \<Rightarrow> ('d, 'x, 'p) gen_tools \<Rightarrow> (bool \<Rightarrow> 'd result) \<Rightarrow> 'x \<Rightarrow> pystr \<Rightarrow> 'p \<Rightarrow> pystr \<Rightarrow> bool \<Rightarrow> bool \<Rightarrow>
     'p files \<Rightarrow> ('p list \<times> 'p files) result" where
  "generate_command im tk parse record_type app dir prefix override_messages init fs =
     rbind (parse override_messages) (\<lambda>defs.
       let (g, fs1) = generator_init tk defs im app dir (lit ''message_soup_app.mustache'') prefix init fs
       in Inr (generate tk record_type g fs1))"

definition ouch_generate ::
  "('d, 'x, 'p) gen_tools \<Rightarrow> (bool \<Rightarrow> 'd result) \<Rightarrow> 'x \<Rightarrow> pystr \<Rightarrow> 'p \<Rightarrow> pystr \<Rightarrow> bool \<Rightarrow> bool \<Rightarrow>
     'p files \<Rightarrow> ('p list \<times> 'p files) result" where
  "ouch_generate = generate_command (lit ''ouch'')"

definition itch_generate ::
  "('d, 'x, 'p) gen_tools \<Rightarrow> (bool \<Rightarrow> 'd result) \<Rightarrow> 'x \<Rightarrow> pystr \<Rightarrow> 'p \<Rightarrow> pystr \<Rightarrow> bool \<Rightarrow> bool \<Rightarrow>
     'p files \<Rightarrow> ('p list \<times> 'p files) result" where
  "itch_generate = generate_command (lit ''itch'')"

definition sqf_generate ::
  "('d, 'x, 'p) gen_tools \<Rightarrow> (bool \<Rightarrow> 'd result) \<Rightarrow> 'x \<Rightarrow> pystr \<Rightarrow> 'p \<Rightarrow> pystr \<Rightarrow> bool \<Rightarrow> bool \<Rightarrow>
     'p files \<Rightarrow> ('p list \<times> 'p files) result" where
  "sqf_generate = generate_command (lit ''sqf'')"

text \<open>That of FIX takes the version instead; the contexts of the definitions are computed when the
  generator is made, and may not exist.\<close>

definition fix_generate_command ::
  "('c, 'x, 'p) gen_tools \<Rightarrow> (pystr \<Rightarrow> 'd result) \<Rightarrow> ('d \<Rightarrow> 'c result) \<Rightarrow> ('c \<Rightarrow> pystr) \<Rightarrow> pystr \<Rightarrow> 'p \<Rightarrow> pystr \<Rightarrow>
     bool \<Rightarrow> pystr \<Rightarrow> 'p files \<Rightarrow> ('p list \<times> 'p files) result" where
  "fix_generate_command tk parse codegen_context client_session app dir prefix init fix_version fs =
     rbind (parse fix_version) (\<lambda>d.
     rbind (codegen_context d) (\<lambda>c.
       let (g, fs1) = fix_generator_init tk c app dir prefix init fs
       in Inr (fix_generate tk client_session g fs1)))"

definition generate_soup_app ::
  "('d, 'x, 'p) gen_tools \<Rightarrow> pystr list \<Rightarrow> 'p \<Rightarrow> 'x \<Rightarrow> pystr \<Rightarrow> pystr \<Rightarrow> pystr \<Rightarrow> 'p \<Rightarrow> pystr \<Rightarrow> bool \<Rightarrow>
     'p files \<Rightarrow> ('p list \<times> 'p files) result" where
  "generate_soup_app tk listing asn1_dir no_extra app pdu prefix dir package init fs =
     rbind (ans1_init tk listing asn1_dir app pdu dir (lit ''ans1_soup_app.mustache'') prefix package init fs)
       (\<lambda>(g, fs1). ans1_generate tk no_extra g fs1)"

section \<open>Lemmas\<close>

text \<open>Generators append a list of texts to files.\<close>

definition appends :: "('p \<times> pystr) list \<Rightarrow> 'p files \<Rightarrow> 'p files" where
  "appends ws fs = fold (\<lambda>(p, t). append_to p t) ws fs"

lemma appends_simps [simp]:
  "appends [] fs = fs" "appends ((p, t) # ws) fs = appends ws (append_to p t fs)"
  "appends ws (appends vs fs) = appends (vs @ ws) fs"
  by (simp_all add: appends_def)

lemma appends_text:
  "text_of p (appends ws fs) = text_of p fs @ concat (map snd (filter (\<lambda>w. fst w = p) ws))"
  by (induction ws arbitrary: fs) auto

lemma appends_contents:
  "contents (appends ws fs) p = (if p \<in> fst ` set ws then Some (text_of p (appends ws fs)) else contents fs p)"
proof (induction ws arbitrary: fs)
  case (Cons w ws)
  obtain q t where "w = (q, t)" by fastforce
  with Cons.IH [of "append_to q t fs"] show ?case by (auto simp: appends_text image_iff)
qed simp

lemma appends_dirs: "directories (appends ws fs) = directories fs"
  by (induction ws arbitrary: fs) (auto simp: append_to_def)

definition soup_writes ::
  "('d, 'x, 'p) gen_tools \<Rightarrow> 'x \<Rightarrow> ('d, 'p) Generator \<Rightarrow> ('p \<times> pystr) list" where
  "soup_writes tk extra g =
     (op_file g, render tk (template g) (SoupContext (definitions g) (impl g) (app_name g) extra)) #
     (if generate_init_file g
      then [(init_file g, render tk (join tk (TEMPLATES_PATH tk) (lit ''init.mustache'')) (InitContext [mod_name g]))]
      else [])"

lemma generate_appends: "generate tk extra g fs = (map fst (soup_writes tk extra g), appends (soup_writes tk extra g) fs)"
  by (simp add: generate_def soup_writes_def render_to_def Let_def)

lemma concat_replicate_shift: "ws @ concat (replicate n ws) = concat (replicate n ws) @ ws"
  by (induction n) auto

lemma generate_again:
  "((\<lambda>fs. snd (generate tk extra g fs)) ^^ n) fs = appends (concat (replicate n (soup_writes tk extra g))) fs"
  by (induction n arbitrary: fs) (simp_all add: generate_appends concat_replicate_shift)

definition fix_writes ::
  "('d, 'x, 'p) gen_tools \<Rightarrow> ('d \<Rightarrow> pystr) \<Rightarrow> ('d, 'p) FixGenerator \<Rightarrow> ('p \<times> pystr) list" where
  "fix_writes tk client_session g =
     map (\<lambda>(file, m). (join tk (fg_op_dir g) (m @ lit ''.py''),
        render tk (join tk (TEMPLATES_PATH tk) (file @ lit ''.mustache'')) (fix_gen_context g)))
       (map (\<lambda>file. (file, fix_module g file)) fix_files @ [(lit ''app'', lit ''app'')]) @
     (if fg_generate_init_file g
      then [(fg_init_file g, render tk (join tk (TEMPLATES_PATH tk) (lit ''init.mustache''))
               (FixInitContext (fg_app_name g) (client_session (fg_definitions g))
                 (map (fix_module g) fix_files @ [lit ''app''])))]
      else [])"

lemma fix_generate_appends:
  "fix_generate tk cs g fs = (map fst (fix_writes tk cs g), appends (fix_writes tk cs g) fs)"
  by (simp add: fix_generate_def fix_writes_def fix_files_def fix_generate_module_def render_to_def Let_def)

lemma filter_key_distinct:
  "distinct (map fst ws) \<Longrightarrow> (p, t) \<in> set ws \<Longrightarrow> filter (\<lambda>w. fst w = p) ws = [(p, t)]"
proof (induction ws)
  case (Cons w ws)
  show ?case
  proof (cases "w = (p, t)")
    case True
    with Cons.prems(1) have "filter (\<lambda>w. fst w = p) ws = []" by (force simp: filter_empty_conv)
    with True show ?thesis by simp
  next
    case False
    with Cons.prems(2) have m: "(p, t) \<in> set ws" by auto
    then have "p \<in> fst ` set ws" by (force simp: image_iff)
    with Cons.prems(1) have "fst w \<noteq> p" by auto
    with Cons m show ?thesis by simp
  qed
qed simp

lemma appends_at:
  "distinct (map fst ws) \<Longrightarrow> (p, t) \<in> set ws \<Longrightarrow> text_of p (appends ws fs) = text_of p fs @ t"
  by (simp add: appends_text filter_key_distinct)

text \<open>Copying files whose copies are not themselves among them.\<close>

lemma copy_all_ok:
  assumes "\<forall>src \<in> set srcs. contents fs src \<noteq> None \<and> src \<notin> (\<lambda>s. join tk dir (basename tk s)) ` set srcs"
    and "inj_on (\<lambda>s. join tk dir (basename tk s)) (set srcs)"
  shows "\<exists>fs'. copy_all tk dir srcs fs = Inr fs' \<and>
    (\<forall>src \<in> set srcs. contents fs' (join tk dir (basename tk src)) = contents fs src) \<and>
    (\<forall>p. p \<notin> (\<lambda>s. join tk dir (basename tk s)) ` set srcs \<longrightarrow> contents fs' p = contents fs p)"
  using assms
proof (induction srcs arbitrary: fs)
  case (Cons src srcs)
  let ?dst = "\<lambda>s. join tk dir (basename tk s)"
  from Cons.prems(1) obtain t where t: "contents fs src = Some t" by auto
  let ?fs = "write_new (?dst src) t fs"
  have same: "contents ?fs s = contents fs s" if "s \<in> set srcs" for s
    using Cons.prems(1) that by (auto simp: write_new_def)
  have "\<forall>s \<in> set srcs. contents ?fs s \<noteq> None \<and> s \<notin> ?dst ` set srcs"
    using Cons.prems(1) same by auto
  moreover have "inj_on ?dst (set srcs)" using Cons.prems(2) by (auto simp: inj_on_def)
  ultimately obtain fs' where c: "copy_all tk dir srcs ?fs = Inr fs'"
    and d: "\<forall>s \<in> set srcs. contents fs' (?dst s) = contents ?fs s"
    and o: "\<forall>p. p \<notin> ?dst ` set srcs \<longrightarrow> contents fs' p = contents ?fs p"
    using Cons.IH by blast
  have "contents fs' (?dst src) = contents fs src"
  proof (cases "src \<in> set srcs")
    case True
    with d same show ?thesis by simp
  next
    case False
    with Cons.prems(2) have "?dst src \<notin> ?dst ` set srcs" by (auto simp: inj_on_def)
    with o t show ?thesis by (simp add: write_new_def)
  qed
  moreover have "contents fs' p = contents fs p" if "p \<notin> ?dst ` set (src # srcs)" for p
    using o that by (auto simp: write_new_def)
  ultimately show ?case
    using c d same t by (auto simp: copy_file_def)
qed simp

definition ans1_writes ::
  "('d, 'x, 'p) gen_tools \<Rightarrow> 'x \<Rightarrow> 'p Ans1Generator \<Rightarrow> ('p \<times> pystr) list" where
  "ans1_writes tk extra g =
     (ag_op_file g, render tk (ag_template g) (Asn1Context (ag_app_name g) (ag_pdu g) (ag_package_name g) extra)) #
     (if ag_generate_init_file g
      then [(join tk (ag_op_dir g) (lit ''__init__.py''),
             render tk (join tk (TEMPLATES_PATH tk) (lit ''init.mustache'')) (InitContext [ag_mod_name g]))]
      else [])"

lemma ans1_generate_appends:
  "ans1_generate tk extra g fs =
     rbind (copy_asn1_files tk g (appends (ans1_writes tk extra g) fs)) (\<lambda>fs3.
       Inr (map fst (ans1_writes tk extra g), fs3))"
  by (simp add: ans1_generate_def ans1_writes_def render_to_def Let_def)

lemma mkdir_contents [simp]: "contents (mkdir d fs) = contents fs"
  by (simp add: mkdir_def)

section \<open>Properties\<close>

text \<open>
  generating an application again. The files that a generator reports are the ones it writes,
  and no others change. But they are opened for appending: after \<open>n\<close> runs the module holds the
  generated code \<open>n\<close> times, after whatever it held before.
\<close>
theorem generate_accumulates:
  assumes "generate_init_file g \<longrightarrow> op_file g \<noteq> init_file g"
  shows "let fs' = ((\<lambda>fs. snd (generate tk extra g fs)) ^^ n) fs;
      code = render tk (template g) (SoupContext (definitions g) (impl g) (app_name g) extra)
    in fst (generate tk extra g fs) = op_file g # (if generate_init_file g then [init_file g] else []) \<and>
       text_of (op_file g) fs' = text_of (op_file g) fs @ concat (replicate n code) \<and>
       (\<forall>p. p \<notin> set (fst (generate tk extra g fs)) \<longrightarrow> contents fs' p = contents fs p)"
proof -
  let ?ws = "soup_writes tk extra g"
  let ?code = "render tk (template g) (SoupContext (definitions g) (impl g) (app_name g) extra)"
  have "filter (\<lambda>w. fst w = op_file g) ?ws = [(op_file g, ?code)]"
    using assms by (auto simp: soup_writes_def)
  then have "concat (map snd (filter (\<lambda>w. fst w = op_file g) (concat (replicate n ?ws)))) = concat (replicate n ?code)"
    by (induction n) simp_all
  moreover have "fst ` set (concat (replicate n ?ws)) \<subseteq> set (map fst ?ws)" by (induction n) auto
  moreover have "map fst ?ws = op_file g # (if generate_init_file g then [init_file g] else [])"
    by (simp add: soup_writes_def)
  ultimately show ?thesis
    unfolding Let_def generate_again by (auto simp: generate_appends appends_text appends_contents)
qed

text \<open>
  the package of a FIX application. When its six paths are different, a run writes the four
  modules of the application, \<open>app.py\<close> and the init file, each once, and the init file names exactly
  the modules that were written. Since the name of \<open>app.py\<close> has no prefix, the runs of two
  applications in one directory both go into it.
\<close>
theorem fix_package_complete:
  assumes "g = fst (fix_generator_init tk defs app dir prefix True fs0)"
    and "g' = fst (fix_generator_init tk defs' app' dir prefix' True fs1)"
    and "distinct (fst (fix_generate tk cs g fs))" and "distinct (fst (fix_generate tk cs g' fs))"
  shows "let modules = map (fix_module g) fix_files @ [lit ''app''];
      (files, fs') = fix_generate tk cs g fs;
      app_code = (\<lambda>g. render tk (join tk (TEMPLATES_PATH tk) (lit ''app.mustache'')) (fix_gen_context g))
    in files = map (\<lambda>m. join tk dir (m @ lit ''.py'')) modules @ [join tk dir (lit ''__init__.py'')] \<and>
       (\<forall>p. contents fs' p \<noteq> None \<longleftrightarrow> p \<in> set files \<or> contents fs p \<noteq> None) \<and>
       text_of (join tk dir (lit ''__init__.py'')) fs' = text_of (join tk dir (lit ''__init__.py'')) fs @
         render tk (join tk (TEMPLATES_PATH tk) (lit ''init.mustache'')) (FixInitContext app (cs defs) modules) \<and>
       text_of (join tk dir (lit ''app.py'')) (snd (fix_generate tk cs g' fs')) =
         text_of (join tk dir (lit ''app.py'')) fs @ app_code g @ app_code g'"
proof -
  have g: "fg_op_dir g = dir" "fg_op_dir g' = dir" "fg_generate_init_file g" "fg_generate_init_file g'"
    "fg_init_file g = join tk dir (lit ''__init__.py'')" "fg_app_name g = app" "fg_definitions g = defs"
    by (simp_all add: assms(1,2) fix_generator_init_def)
  have files: "map fst (fix_writes tk cs g) = map (\<lambda>m. join tk dir (m @ lit ''.py''))
      (map (fix_module g) fix_files @ [lit ''app'']) @ [join tk dir (lit ''__init__.py'')]"
    by (simp add: fix_writes_def g)
  have d: "distinct (map fst (fix_writes tk cs g))" "distinct (map fst (fix_writes tk cs g'))"
    using assms(3,4) by (simp_all add: fix_generate_appends)
  have py: "lit ''app'' @ lit ''.py'' = lit ''app.py''" "lit ''app'' @ lit ''.mustache'' = lit ''app.mustache''"
    by (simp_all add: lit_def)
  have app: "(join tk dir (lit ''app.py''), render tk (join tk (TEMPLATES_PATH tk) (lit ''app.mustache'')) (fix_gen_context h))
      \<in> set (fix_writes tk cs h)" if "fg_op_dir h = dir" for h
    using that by (simp add: fix_writes_def py)
  have init: "(join tk dir (lit ''__init__.py''), render tk (join tk (TEMPLATES_PATH tk) (lit ''init.mustache''))
      (FixInitContext app (cs defs) (map (fix_module g) fix_files @ [lit ''app'']))) \<in> set (fix_writes tk cs g)"
    by (simp add: fix_writes_def g)
  have "contents (appends (fix_writes tk cs g) fs) p \<noteq> None \<longleftrightarrow>
      p \<in> set (map fst (fix_writes tk cs g)) \<or> contents fs p \<noteq> None" for p
    by (simp add: appends_contents)
  then show ?thesis
    using files appends_at [OF d(1) init] appends_at [OF d(1) app [OF g(1)]] appends_at [OF d(2) app [OF g(2)]]
    by (simp only: fix_generate_appends Let_def prod.case fst_conv snd_conv append_assoc) simp
qed

text \<open>
  an ASN.1 application replaces its output directory. Everything in it is removed first, so the
  module holds only the new code however often it is generated. If the specifications lie outside
  of it, they are left as they are and copied; if they lie inside, they are lost before they are
  copied, and generating ends in \<open>FileNotFoundError\<close>.
\<close>
theorem ans1_sources:
  assumes "ans1_init tk listing asn1_dir app pdu dir tmpl prefix package False fs = Inr (g, fs1)"
    and "\<forall>n. below tk dir (join tk dir n) \<and> below tk dir (join tk (join tk dir (lit ''spec'')) n)"
    and "\<forall>src \<in> set (ag_asn1_files g). contents fs src \<noteq> None \<and> src \<noteq> ag_op_file g"
    and "inj_on (\<lambda>s. join tk (join tk dir (lit ''spec'')) (basename tk s)) (set (ag_asn1_files g))"
    and "\<forall>src \<in> set (ag_asn1_files g). ag_op_file g \<noteq> join tk (join tk dir (lit ''spec'')) (basename tk src)"
  shows "ag_asn1_files g = map (join tk asn1_dir) (filter (ends_with (lit ''.asn1'')) listing) \<and>
    (ag_asn1_files g \<noteq> [] \<and> (\<forall>src \<in> set (ag_asn1_files g). below tk dir src) \<longrightarrow>
       ans1_generate tk extra g fs1 = Inl FileNotFoundError \<and>
       (\<forall>src \<in> set (ag_asn1_files g). contents fs1 src = None)) \<and>
    ((\<forall>src \<in> set (ag_asn1_files g). \<not> below tk dir src) \<longrightarrow>
       (\<exists>fs2. ans1_generate tk extra g fs1 = Inr ([ag_op_file g], fs2) \<and>
             contents fs2 (ag_op_file g) =
               Some (render tk (ag_template g) (Asn1Context app pdu package extra)) \<and>
             (\<forall>src \<in> set (ag_asn1_files g). contents fs2 src = contents fs src \<and>
                contents fs2 (join tk (join tk dir (lit ''spec'')) (basename tk src)) = contents fs src)))"
proof -
  have g: "ag_op_dir g = dir" "\<not> ag_generate_init_file g" "ag_app_name g = app" "ag_pdu g = pdu"
    "ag_package_name g = package" "below tk dir (ag_op_file g)"
    "ag_asn1_files g = map (join tk asn1_dir) (filter (ends_with (lit ''.asn1'')) listing)"
    and fs1: "contents fs1 = (\<lambda>p. if below tk dir p then None else contents fs p)"
    using assms(1,2) by (auto simp: ans1_init_def rmtree_def Let_def split: if_splits)
  let ?code = "render tk (ag_template g) (Asn1Context app pdu package extra)"
  let ?spec = "join tk dir (lit ''spec'')" and ?fs = "append_to (ag_op_file g) ?code fs1"
  have w: "ans1_writes tk extra g = [(ag_op_file g, ?code)]" using g by (simp add: ans1_writes_def)
  have c: "contents ?fs p = (if p = ag_op_file g then Some ?code else if below tk dir p then None else contents fs p)" for p
    using g by (simp add: text_of_def fs1)
  have lost: "ans1_generate tk extra g fs1 = Inl FileNotFoundError"
    if "ag_asn1_files g \<noteq> []" "\<forall>src \<in> set (ag_asn1_files g). below tk dir src"
    using that assms(3) g(1)
    by (cases "ag_asn1_files g") (simp_all add: ans1_generate_appends w copy_asn1_files_def copy_file_def fs1)
  have kept: "\<exists>fs2. ans1_generate tk extra g fs1 = Inr ([ag_op_file g], fs2) \<and> contents fs2 (ag_op_file g) = Some ?code \<and>
      (\<forall>src \<in> set (ag_asn1_files g). contents fs2 src = contents fs src \<and>
         contents fs2 (join tk ?spec (basename tk src)) = contents fs src)"
    if out: "\<forall>src \<in> set (ag_asn1_files g). \<not> below tk dir src"
  proof -
    have src: "contents (mkdir ?spec ?fs) s = contents fs s \<and> s \<notin> (\<lambda>s. join tk ?spec (basename tk s)) ` set (ag_asn1_files g)"
      if "s \<in> set (ag_asn1_files g)" for s
      using that out assms(2,3) by (auto simp: fs1)
    have "\<forall>s \<in> set (ag_asn1_files g). contents (mkdir ?spec ?fs) s \<noteq> None \<and>
        s \<notin> (\<lambda>s. join tk ?spec (basename tk s)) ` set (ag_asn1_files g)"
      using src assms(3) by auto
    from copy_all_ok [OF this assms(4)] obtain fs2 where
      1: "copy_all tk ?spec (ag_asn1_files g) (mkdir ?spec ?fs) = Inr fs2"
      and 2: "\<forall>s \<in> set (ag_asn1_files g). contents fs2 (join tk ?spec (basename tk s)) = contents (mkdir ?spec ?fs) s"
      and 3: "\<forall>p. p \<notin> (\<lambda>s. join tk ?spec (basename tk s)) ` set (ag_asn1_files g) \<longrightarrow>
        contents fs2 p = contents (mkdir ?spec ?fs) p"
      by blast
    from 1 have "ans1_generate tk extra g fs1 = Inr ([ag_op_file g], fs2)"
      by (simp add: ans1_generate_appends w copy_asn1_files_def g(1))
    moreover have n: "ag_op_file g \<notin> (\<lambda>s. join tk ?spec (basename tk s)) ` set (ag_asn1_files g)"
      using assms(5) by blast
    have "contents fs2 (ag_op_file g) = Some ?code"
      unfolding 3 [rule_format, OF n] mkdir_contents c by simp
    moreover have "contents fs2 s = contents fs s" if "s \<in> set (ag_asn1_files g)" for s
      using 3 [rule_format, of s] src [OF that] by simp
    moreover have "contents fs2 (join tk ?spec (basename tk s)) = contents fs s" if "s \<in> set (ag_asn1_files g)" for s
      using 2 [rule_format, OF that] src [OF that] by simp
    ultimately show ?thesis by blast
  qed
  show ?thesis
  proof (intro conjI impI ballI)
    show "ag_asn1_files g = map (join tk asn1_dir) (filter (ends_with (lit ''.asn1'')) listing)" by (rule g(7))
  next
    assume "ag_asn1_files g \<noteq> [] \<and> (\<forall>src \<in> set (ag_asn1_files g). below tk dir src)"
    then show "ans1_generate tk extra g fs1 = Inl FileNotFoundError" using lost by blast
  next
    fix src
    assume "ag_asn1_files g \<noteq> [] \<and> (\<forall>src \<in> set (ag_asn1_files g). below tk dir src)" "src \<in> set (ag_asn1_files g)"
    then show "contents fs1 src = None" by (simp add: fs1)
  qed (rule kept)
qed

section \<open>Witnesses\<close>

text \<open>Paths are lists of names, a template gives its name and the text \<open>code\<close>.\<close>

definition plain_gen :: "(unit, unit, pystr list) gen_tools" where
  "plain_gen = \<lparr>join = (\<lambda>p n. p @ [n]), TEMPLATES_PATH = [lit ''templates''], render = (\<lambda>t _. last t @ lit '' code''),
     below = (\<lambda>d p. take (length d) p = d), basename = last\<rparr>"

definition no_files :: "pystr list files" where
  "no_files = \<lparr>contents = Map.empty, directories = []\<rparr>"

theorem generate_accumulates_witness:
  "let g = fst (generator_init plain_gen () (lit ''ouch'') (lit ''oe'') [lit ''out''] (lit ''m'') [] True no_files)
   in text_of [lit ''out'', lit ''ouch_oe.py''] (((\<lambda>fs. snd (generate plain_gen () g fs)) ^^ 2) no_files) =
        lit ''m.mustache codem.mustache code''"
proof -
  let ?g = "fst (generator_init plain_gen () (lit ''ouch'') (lit ''oe'') [lit ''out''] (lit ''m'') [] True no_files)"
  have f: "op_file ?g = [lit ''out'', lit ''ouch_oe.py'']" "init_file ?g = [lit ''out'', lit ''__init__.py'']"
    by (simp_all add: generator_init_def plain_gen_def with_prefix_def lit_def Let_def)
  then have "generate_init_file ?g \<longrightarrow> op_file ?g \<noteq> init_file ?g" by (simp add: lit_def)
  note a = generate_accumulates [OF this, where tk = plain_gen and extra = "()" and n = 2 and fs = no_files]
  have "template ?g = [lit ''templates'', lit ''m.mustache'']"
    by (simp add: generator_init_def plain_gen_def template_path_def ends_with_def lit_def Let_def)
  then have "concat (replicate 2 (render plain_gen (template ?g) x)) = lit ''m.mustache codem.mustache code''" for x
    by (simp add: plain_gen_def numeral_2_eq_2 lit_def)
  with a show ?thesis unfolding Let_def f by (simp add: no_files_def text_of_def)
qed

theorem fix_package_complete_witness:
  "let g = fst (fix_generator_init plain_gen () (lit ''oe'') [lit ''out''] [] True no_files);
       g' = fst (fix_generator_init plain_gen () (lit ''md'') [lit ''out''] [] True no_files);
       fs' = snd (fix_generate plain_gen (\<lambda>_. []) g no_files)
   in text_of [lit ''out'', lit ''app.py''] (snd (fix_generate plain_gen (\<lambda>_. []) g' fs')) =
        lit ''app.mustache codeapp.mustache code''"
proof -
  let ?g = "fst (fix_generator_init plain_gen () (lit ''oe'') [lit ''out''] [] True no_files)"
  let ?g' = "fst (fix_generator_init plain_gen () (lit ''md'') [lit ''out''] [] True no_files)"
  have d: "distinct (fst (fix_generate plain_gen (\<lambda>_. []) ?g no_files))"
    "distinct (fst (fix_generate plain_gen (\<lambda>_. []) ?g' no_files))"
    by code_simp+
  from fix_package_complete [OF refl refl d] show ?thesis
    by (simp add: Let_def case_prod_beta plain_gen_def no_files_def text_of_def lit_def)
qed

theorem ans1_sources_witness:
  "\<exists>g fs1. ans1_init plain_gen [lit ''a.asn1'', lit ''b.txt''] [lit ''out''] (lit ''app'') (lit ''Pdu'') [lit ''out'']
       (lit ''m'') [] [] False \<lparr>contents = [[lit ''out'', lit ''a.asn1''] \<mapsto> lit ''spec''], directories = [[lit ''out'']]\<rparr> =
     Inr (g, fs1) \<and> ans1_generate plain_gen () g fs1 = Inl FileNotFoundError \<and>
     contents fs1 [lit ''out'', lit ''a.asn1''] = None"
proof -
  let ?fs = "\<lparr>contents = [[lit ''out'', lit ''a.asn1''] \<mapsto> lit ''spec''], directories = [[lit ''out'']]\<rparr>"
  obtain g fs1 where i: "ans1_init plain_gen [lit ''a.asn1'', lit ''b.txt''] [lit ''out''] (lit ''app'') (lit ''Pdu'')
      [lit ''out''] (lit ''m'') [] [] False ?fs = Inr (g, fs1)"
    by (simp add: ans1_init_def path_exists_def Let_def)
  then have f: "ag_asn1_files g = [[lit ''out'', lit ''a.asn1'']]" "ag_op_file g = [lit ''out'', lit ''app.py'']"
    by (auto simp: ans1_init_def path_exists_def plain_gen_def ends_with_def with_prefix_def lit_def Let_def)
  have "\<forall>n. below plain_gen [lit ''out''] (join plain_gen [lit ''out''] n) \<and>
      below plain_gen [lit ''out''] (join plain_gen (join plain_gen [lit ''out''] (lit ''spec'')) n)"
    "\<forall>src \<in> set (ag_asn1_files g). contents ?fs src \<noteq> None \<and> src \<noteq> ag_op_file g"
    "inj_on (\<lambda>s. join plain_gen (join plain_gen [lit ''out''] (lit ''spec'')) (basename plain_gen s)) (set (ag_asn1_files g))"
    "\<forall>src \<in> set (ag_asn1_files g). ag_op_file g \<noteq> join plain_gen (join plain_gen [lit ''out''] (lit ''spec'')) (basename plain_gen src)"
    by (simp_all add: f plain_gen_def lit_def)
  from ans1_sources [OF i this, of "()"] i f show ?thesis by (auto simp: plain_gen_def)
qed

end
