(* ===== verification/FixCollections.thy ===== *)
theory FixCollections
  imports FixProps
begin

text \<open>
  FIX values as plain Python values (\<open>as_collection\<close> and its way back through \<open>from_value\<close>), their
  comparison (the \<open>__eq__\<close> of fields, segments, groups, containers and messages), and fields and
  containers as numbers and sequences (\<open>fix/core.py\<close>). Comparing a float with a number is a
  parameter, \<open>feq\<close>.
\<close>

section \<open>Collections\<close>

text \<open>\<open>as_collection\<close> of a field and of a container, of a segment, and of a message, whose keys are
  the values of the enumeration and not its members.\<close>

fun fix_as_collection :: "fixval \<Rightarrow> fix_arg" where
  "fix_as_collection (VField v) = AVal v"
| "fix_as_collection (VGroups gs) =
     AList (map (\<lambda>g. ADict (map (\<lambda>p. (KTag (fst p), fix_as_collection (snd p))) g)) gs)"

definition segment_as_collection :: "segment \<Rightarrow> fix_arg" where
  "segment_as_collection d = ADict (map (\<lambda>(k, v). (KTag k, fix_as_collection v)) d)"

fun segment_value :: "MessageSegments \<Rightarrow> string" where
  "segment_value HEADER = ''Header''"
| "segment_value BODY = ''Body''"
| "segment_value TRAILER = ''Trailer''"

datatype seg_key = Member MessageSegments | Text string

definition message_as_collection :: "fix_message \<Rightarrow> (seg_key \<times> seg_arg) list" where
  "message_as_collection m =
     map (\<lambda>s. (Text (segment_value s), Value (segment_as_collection (fst (segment_of m s))))) [HEADER, BODY, TRAILER]"

text \<open>\<open>Message.from_value\<close>: the constructor looks up the members of the enumeration.\<close>

definition message_from_value :: "field_defs \<Rightarrow> fix_class \<Rightarrow> (seg_key \<times> seg_arg) list \<Rightarrow> fix_message result" where
  "message_from_value defs c value = fix_message_init defs c (\<lambda>s. map_of value (Member s))"

section \<open>Comparison\<close>

text \<open>\<open>==\<close> of plain values: Python compares booleans and integers as numbers.\<close>

fun value_eq :: "(fix_value \<Rightarrow> fix_value \<Rightarrow> bool) \<Rightarrow> fix_value \<Rightarrow> fix_value \<Rightarrow> bool" where
  "value_eq feq (FStr s) (FStr t) = (s = t)"
| "value_eq feq (FStr s) _ = False"
| "value_eq feq _ (FStr t) = False"
| "value_eq feq (FInt i) (FInt j) = (i = j)"
| "value_eq feq (FInt i) (FBool b) = (i = of_bool b)"
| "value_eq feq (FBool a) (FInt j) = (of_bool a = j)"
| "value_eq feq (FBool a) (FBool b) = (a = b)"
| "value_eq feq v w = feq v w"

text \<open>\<open>isinstance(v, w.__class__)\<close>.\<close>

fun instance_of_class_of :: "fix_value \<Rightarrow> fix_value \<Rightarrow> bool" where
  "instance_of_class_of (FStr _) (FStr _) = True"
| "instance_of_class_of (FInt _) (FInt _) = True"
| "instance_of_class_of (FBool _) (FBool _) = True"
| "instance_of_class_of (FBool _) (FInt _) = True"
| "instance_of_class_of (FFloat _) (FFloat _) = True"
| "instance_of_class_of _ _ = False"

text \<open>\<open>Field.__eq__\<close>, with an instance of a field or with anything else.\<close>

definition field_eq ::
  "(fix_value \<Rightarrow> fix_value \<Rightarrow> bool) \<Rightarrow> fielddef \<Rightarrow> fix_value \<Rightarrow> fix_arg \<Rightarrow> bool" where
  "field_eq feq fd v other =
     (case other of
        AField fd' w \<Rightarrow> fd' = fd \<and> value_eq feq v w
      | AVal w \<Rightarrow> instance_of_class_of v w \<and> value_eq feq v w
      | _ \<Rightarrow> False)"

lemma list_all2_fundef_cong [fundef_cong]:
  "xs = xs' \<Longrightarrow> ys = ys' \<Longrightarrow> (\<And>x y. x \<in> set xs' \<Longrightarrow> y \<in> set ys' \<Longrightarrow> P x y = Q x y) \<Longrightarrow>
   list_all2 P xs ys = list_all2 Q xs' ys'"
  by (rule list.rel_cong)

text \<open>Two values of one entry: fields are of its class; containers compare their lists of groups,
  and groups their ordered dictionaries, in which the order counts.\<close>

fun fixval_eq :: "(fix_value \<Rightarrow> fix_value \<Rightarrow> bool) \<Rightarrow> fixval \<Rightarrow> fixval \<Rightarrow> bool" where
  "fixval_eq feq (VField v) (VField w) = value_eq feq v w"
| "fixval_eq feq (VGroups gs) (VGroups hs) =
     list_all2 (\<lambda>g h. list_all2 (\<lambda>p q. fst p = fst q \<and> fixval_eq feq (snd p) (snd q)) g h) gs hs"
| "fixval_eq feq _ _ = False"

definition dict_eq :: "(fix_value \<Rightarrow> fix_value \<Rightarrow> bool) \<Rightarrow> segment \<Rightarrow> segment \<Rightarrow> bool" where
  "dict_eq feq d e = list_all2 (\<lambda>p q. fst p = fst q \<and> fixval_eq feq (snd p) (snd q)) d e"

text \<open>\<open>DataSegment.__eq__\<close>, with the names of the classes, and \<open>Message.__eq__\<close>: plain attributes
  are not compared. The generated classes have no subclasses.\<close>

definition segment_eq ::
  "(fix_value \<Rightarrow> fix_value \<Rightarrow> bool) \<Rightarrow> string \<Rightarrow> segobj \<Rightarrow> string \<Rightarrow> segobj \<Rightarrow> bool" where
  "segment_eq feq cls d cls' e \<longleftrightarrow> cls' = cls \<and> dict_eq feq (fst d) (fst e)"

definition fix_message_eq :: "(fix_value \<Rightarrow> fix_value \<Rightarrow> bool) \<Rightarrow> fix_message \<Rightarrow> fix_message \<Rightarrow> bool" where
  "fix_message_eq feq m n \<longleftrightarrow> fm_class n = fm_class m \<and>
     list_all (\<lambda>s. segment_eq feq (fst (SegmentCls (fm_class m) s)) (segment_of m s)
       (fst (SegmentCls (fm_class n) s)) (segment_of n s)) [HEADER, BODY, TRAILER]"

section \<open>Numbers and sequences\<close>

text \<open>\<open>Field.__index__\<close> as \<open>operator.index\<close> takes it, \<open>Field.__len__\<close>, \<open>Field.default_value\<close>.\<close>

definition field_index :: "fix_value \<Rightarrow> int result" where
  "field_index v = (case v of FInt i \<Rightarrow> Inr i | FBool b \<Rightarrow> Inr (of_bool b) | _ \<Rightarrow> Inl TypeError)"

definition field_len :: "fix_value \<Rightarrow> int result" where
  "field_len v = (case v of FStr s \<Rightarrow> Inr (int (length s)) | _ \<Rightarrow> Inl TypeError)"

definition default_value :: "fielddef \<Rightarrow> fix_value" where
  "default_value fd = fix_default (f_type fd)"

text \<open>\<open>len\<close> of a segment and of a container, and indexing a container with a number; a group is
  replaced without a check of its class.\<close>

definition segment_len :: "segobj \<Rightarrow> int" where
  "segment_len d = int (length (fst d))"

definition container_len :: "segment list \<Rightarrow> int" where
  "container_len gs = int (length gs)"

definition container_position :: "segment list \<Rightarrow> int \<Rightarrow> nat result" where
  "container_position gs i =
     (if 0 \<le> i \<and> i < int (length gs) then Inr (nat i)
      else if i < 0 \<and> - int (length gs) \<le> i then Inr (nat (int (length gs) + i))
      else Inl IndexError)"

definition container_getitem :: "segment list \<Rightarrow> int \<Rightarrow> segment result" where
  "container_getitem gs i = rbind (container_position gs i) (\<lambda>k. Inr (gs ! k))"

definition container_setitem :: "segment list \<Rightarrow> int \<Rightarrow> segment \<Rightarrow> segment list result" where
  "container_setitem gs i g = rbind (container_position gs i) (\<lambda>k. Inr (gs[k := g]))"

section \<open>The way back\<close>

text \<open>What the classes let into a segment: known tags, each once, with values of their types.\<close>

fun proper_value :: "entry_def \<Rightarrow> fixval \<Rightarrow> bool" where
  "proper_value (EField fd) v \<longleftrightarrow> (case v of VField x \<Rightarrow> fix_isinstance (f_type fd) x | _ \<Rightarrow> False)"
| "proper_value (EGroup cname fd gname es) v \<longleftrightarrow>
     (case v of
        VGroups gs \<Rightarrow> list_all (\<lambda>g. distinct (map fst g) \<and> list_all (\<lambda>p.
          case find_entry es (fst p) of None \<Rightarrow> False | Some (d, req) \<Rightarrow> proper_value d (snd p)) g) gs
      | _ \<Rightarrow> False)"

definition proper_segment :: "entries \<Rightarrow> segment \<Rightarrow> bool" where
  "proper_segment es d \<longleftrightarrow> distinct (map fst d) \<and>
     list_all (\<lambda>p. case find_entry es (fst p) of None \<Rightarrow> False | Some (e, req) \<Rightarrow> proper_value e (snd p)) d"

lemma dict_set_fresh: "k \<notin> fst ` set d \<Longrightarrow> dict_set d k v = d @ [(k, v)]"
  by (induction d) auto

lemma set_items_collection:
  assumes "\<And>p. p \<in> set g \<Longrightarrow> \<exists>f. look (fst p) = Some f \<and> f (fix_as_collection (snd p)) = Inr (snd p)"
    and "distinct (map fst (d @ g))"
  shows "set_items defs look (map (\<lambda>p. (KTag (fst p), fix_as_collection (snd p))) g) d = Inr (d @ g)"
  using assms
proof (induction g arbitrary: d)
  case (Cons p g)
  from Cons.prems(1) [of p] obtain f where f: "look (fst p) = Some f" "f (fix_as_collection (snd p)) = Inr (snd p)"
    by auto
  have "dict_set d (fst p) (snd p) = d @ [p]"
    using Cons.prems(2) by (subst dict_set_fresh) auto
  with Cons.IH [of "d @ [p]"] Cons.prems f show ?case by simp
qed simp

lemma from_collection: "proper_value e v \<Longrightarrow> entry_from_value defs e (fix_as_collection v) = Inr v"
proof (induction e arbitrary: v rule: measure_induct_rule [of size])
  case (less e)
  show ?case
  proof (cases e)
    case (EField fd)
    with less.prems show ?thesis by (auto simp: field_from_value_def split: fixval.splits)
  next
    case (EGroup cname fd gname es)
    let ?look = "\<lambda>tag. case find_entry es tag of None \<Rightarrow> None | Some (d, req) \<Rightarrow> Some (\<lambda>b. entry_from_value defs d b)"
    from less.prems EGroup obtain gs where v: "v = VGroups gs"
      and gs: "\<And>g. g \<in> set gs \<Longrightarrow> distinct (map fst g) \<and> (\<forall>p \<in> set g. \<exists>d r. find_entry es (fst p) = Some (d, r) \<and> proper_value d (snd p))"
      by (fastforce simp: list_all_iff split: fixval.splits option.splits)
    have "set_items defs ?look (map (\<lambda>p. (KTag (fst p), fix_as_collection (snd p))) g) [] = Inr g" if g: "g \<in> set gs" for g
    proof (subst set_items_collection)
      fix p
      assume "p \<in> set g"
      with gs [OF g] obtain d r where d: "find_entry es (fst p) = Some (d, r)" "proper_value d (snd p)" by blast
      with less.IH [of d "snd p"] size_group_entry [OF d(1)]
      show "\<exists>f. ?look (fst p) = Some f \<and> f (fix_as_collection (snd p)) = Inr (snd p)"
        unfolding EGroup by simp
    qed (use gs [OF g] in simp_all)
    then have "map_result (\<lambda>x. rbind (segment_items gname x) (\<lambda>items. set_items defs ?look items []))
        (map (\<lambda>g. ADict (map (\<lambda>p. (KTag (fst p), fix_as_collection (snd p))) g)) gs) = Inr gs"
      by (induction gs) simp_all
    then show ?thesis by (simp add: EGroup v)
  qed
qed

lemma segment_from_collection:
  assumes "proper_segment es d"
  shows "segment_from_value defs cls es (segment_as_collection d) = Inr d"
proof -
  have "set_items defs (\<lambda>tag. map_option (\<lambda>p. entry_from_value defs (fst p)) (find_entry es tag))
      (map (\<lambda>p. (KTag (fst p), fix_as_collection (snd p))) d) [] = Inr d"
    using assms
    by (subst set_items_collection)
      (fastforce simp: proper_segment_def list_all_iff from_collection split: option.splits)+
  then show ?thesis
    by (simp add: segment_from_value_def segment_as_collection_def case_prod_beta')
qed

section \<open>How values come into segments\<close>

lemma seg_loop_values:
  assumes "\<And>t p b k v. look t = Some p \<Longrightarrow> p b = Inr (k, v) \<Longrightarrow> P t v"
    and "seg_loop look bs d n = Inr (m, d')" "distinct (map fst d)" "\<forall>(t, v) \<in> set d. P t v"
  shows "distinct (map fst d') \<and> (\<forall>(t, v) \<in> set d'. P t v)"
  using assms
proof (induction look bs d n rule: seg_loop.induct)
  case (1 look bs d n)
  show ?case
  proof (cases "d' = d")
    case False
    with "1.prems"(2) obtain t p k v where t: "bs \<noteq> []" "read_tag bs = Inr t" "t \<notin> fst ` set d" "look t = Some p"
      "p bs = Inr (k, v)" "length (py_from bs k) < length bs"
      and rec: "seg_loop look (py_from bs k) (d @ [(t, v)]) (n + k) = Inr (m, d')"
      by (subst (asm) seg_loop.simps) (auto simp: result_simps split: if_splits option.splits)
    from "1.prems"(1) [OF t(4,5)] "1.prems"(3,4) t(3)
    have "distinct (map fst (d @ [(t, v)]))" "\<forall>(t, v) \<in> set (d @ [(t, v)]). P t v" by auto
    from "1.IH" [OF t(1-5) refl t(6) "1.prems"(1) rec this] show ?thesis .
  qed (use "1.prems"(3,4) in simp)
qed

lemma groups_loop_values:
  assumes "\<And>b e g. p b = Inr (e, g) \<Longrightarrow> P g"
    and "groups_loop p k bs gs n = Inr (m, gs')" "\<forall>g \<in> set gs. P g"
  shows "\<forall>g \<in> set gs'. P g"
  using assms(2,3)
proof (induction k arbitrary: bs gs n)
  case (Suc k)
  show ?case
  proof (cases "bs = []")
    case False
    with Suc.prems(1) obtain e g where g: "p bs = Inr (e, g)"
      "groups_loop p k (py_from bs e) (gs @ [g]) (n + e) = Inr (m, gs')"
      by (auto simp: result_simps)
    with Suc.IH [OF g(2)] assms(1) [OF g(1)] Suc.prems(2) show ?thesis by simp
  qed (use Suc.prems in simp)
qed simp

lemma field_read_typed: "field_from_bytes fl fd bs = Inr (n, v) \<Longrightarrow> fix_isinstance (f_type fd) v"
  by (auto simp: field_from_bytes_def Let_def result_simps fix_unpack_def fix_isinstance_def
      split: fix_kind.splits if_splits option.splits)

lemma proper_group_iff:
  "proper_value (EGroup cname fd gname es) (VGroups gs) \<longleftrightarrow> (\<forall>g \<in> set gs. proper_segment es g)"
  by (simp add: proper_segment_def list_all_iff)

lemma proper_segmentI:
  "distinct (map fst d) \<Longrightarrow> \<forall>(t, v) \<in> set d. \<exists>e r. find_entry es t = Some (e, r) \<and> proper_value e v \<Longrightarrow>
   proper_segment es d"
  by (fastforce simp: proper_segment_def list_all_iff)

lemma read_proper: "entry_from_bytes fl e bs = Inr (n, v) \<Longrightarrow> proper_value e v"
proof (induction e arbitrary: bs n v rule: measure_induct_rule [of size])
  case (less e)
  show ?case
  proof (cases e)
    case (EField fd)
    with less.prems field_read_typed show ?thesis by (auto simp: result_simps)
  next
    case (EGroup cname fd gname es)
    let ?look = "\<lambda>tag. case find_entry es tag of None \<Rightarrow> None | Some (d, req) \<Rightarrow> Some (\<lambda>b. entry_from_bytes fl d b)"
    from less.prems EGroup obtain k bs' e' m gs where v: "v = VGroups gs"
      and loop: "groups_loop (\<lambda>b. seg_loop ?look b [] 0) k bs' [] e' = Inr (m, gs)"
      by (auto simp: result_simps split: if_splits)
    have "proper_segment es g" if g: "seg_loop ?look b [] 0 = Inr (e'', g)" for b e'' g
    proof -
      have "distinct (map fst g) \<and>
          (\<forall>(t, v) \<in> set g. \<exists>d r. find_entry es t = Some (d, r) \<and> proper_value d v)"
        using less.IH size_group_entry [of es _ _ _ cname fd gname]
        by (intro seg_loop_values [OF _ g]) (auto simp: EGroup split: option.splits)
      then show ?thesis by (intro proper_segmentI) simp_all
    qed
    from groups_loop_values [OF this loop] show ?thesis
      by (simp only: EGroup v proper_group_iff) simp
  qed
qed

lemma assigned_proper: "entry_from_value defs e a = Inr v \<Longrightarrow> typed_arg a \<Longrightarrow> proper_value e v"
proof (induction e arbitrary: a v rule: measure_induct_rule [of size])
  case (less e)
  show ?case
  proof (cases e)
    case (EField fd)
    with less.prems show ?thesis
      by (auto simp: field_from_value_def result_simps split: fix_arg.splits if_splits)
  next
    case (EGroup cname fd gname es)
    let ?look = "\<lambda>tag. case find_entry es tag of None \<Rightarrow> None | Some (d, req) \<Rightarrow> Some (\<lambda>b. entry_from_value defs d b)"
    from less.prems(1) EGroup obtain xs gs where xs: "iterate a = Inr xs" and v: "v = VGroups gs"
      and gs: "map_result (\<lambda>x. rbind (segment_items gname x) (\<lambda>items. set_items defs ?look items [])) xs = Inr gs"
      by (auto simp: result_simps)
    have xt: "list_all typed_arg xs" using iterate_typed [OF xs less.prems(2)] .
    have "proper_segment es g" if g: "g \<in> set gs" for g
    proof -
      from map_result_mem [OF gs g] obtain y items where y: "y \<in> set xs" "segment_items gname y = Inr items"
        "set_items defs ?look items [] = Inr g" by (auto simp: result_simps)
      have it: "list_all (\<lambda>p. typed_arg (snd p)) items"
        using segment_items_typed [OF y(2)] y(1) xt by (auto simp: list_all_iff)
      have "\<forall>(t, u) \<in> set g. \<exists>d r. find_entry es t = Some (d, r) \<and> proper_value d u"
        using less.IH size_group_entry [of es _ _ _ cname fd gname]
        by (intro set_items_values [OF _ y(3) it]) (auto simp: EGroup split: option.splits)
      with set_items_distinct [OF y(3)] show ?thesis by (intro proper_segmentI) simp_all
    qed
    then show ?thesis by (simp only: EGroup v proper_group_iff) simp
  qed
qed

text \<open>The dictionaries that come from the operations of a segment's class.\<close>

inductive segment_made :: "field_defs \<Rightarrow> (pystr \<Rightarrow> pystr option) \<Rightarrow> string \<Rightarrow> entries \<Rightarrow> segment \<Rightarrow> bool"
  for defs fl cls es where
  made_empty: "segment_made defs fl cls es []"
| made_read: "segment_from_bytes fl es bs = Inr (n, d) \<Longrightarrow> segment_made defs fl cls es d"
| made_from: "segment_from_value defs cls es a = Inr d \<Longrightarrow> typed_arg a \<Longrightarrow> segment_made defs fl cls es d"
| made_set: "segment_made defs fl cls es d \<Longrightarrow> segment_setitem defs es key a d = Inr d' \<Longrightarrow> typed_arg a \<Longrightarrow>
    segment_made defs fl cls es d'"

lemma proper_segmentD:
  "proper_segment es d \<Longrightarrow>
   distinct (map fst d) \<and> (\<forall>(t, v) \<in> set d. \<exists>e r. find_entry es t = Some (e, r) \<and> proper_value e v)"
  by (fastforce simp: proper_segment_def list_all_iff split: option.splits)

lemma made_proper: "segment_made defs fl cls es d \<Longrightarrow> proper_segment es d"
proof (induction rule: segment_made.induct)
  case made_empty
  show ?case by (simp add: proper_segment_def)
next
  case (made_read bs n d)
  let ?look = "\<lambda>tag. case find_entry es tag of None \<Rightarrow> None | Some (d, req) \<Rightarrow> Some (entry_from_bytes fl d)"
  have "distinct (map fst d) \<and> (\<forall>(t, v) \<in> set d. \<exists>e r. find_entry es t = Some (e, r) \<and> proper_value e v)"
    using made_read read_proper
    by (intro seg_loop_values [where look = ?look and bs = bs and d = "[]" and n = 0 and m = n])
      (auto simp: segment_from_bytes_def split: option.splits)
  then show ?case by (intro proper_segmentI) simp_all
next
  case (made_from a d)
  then obtain items where it: "segment_items cls a = Inr items"
    and d: "set_items defs (\<lambda>tag. map_option (\<lambda>p. entry_from_value defs (fst p)) (find_entry es tag)) items [] = Inr d"
    by (auto simp: segment_from_value_def result_simps)
  have "\<forall>(t, v) \<in> set d. \<exists>e r. find_entry es t = Some (e, r) \<and> proper_value e v"
    using assigned_proper segment_items_typed [OF it made_from(2)]
    by (intro set_items_values [OF _ d]) auto
  with set_items_distinct [OF d] show ?case by (intro proper_segmentI) simp_all
next
  case (made_set d key a d')
  then obtain tag e r v where v: "find_entry es tag = Some (e, r)" "entry_from_value defs e a = Inr v" "d' = dict_set d tag v"
    by (auto simp: segment_setitem_def result_simps split: option.splits)
  have "\<forall>p \<in> set d'. case p of (t, v) \<Rightarrow> \<exists>e r. find_entry es t = Some (e, r) \<and> proper_value e v"
    using proper_segmentD [OF made_set.IH] v assigned_proper [OF v(2) made_set.hyps(3)]
    by (auto dest: dict_set_mem)
  moreover have "distinct (map fst d')"
    using proper_segmentD [OF made_set.IH] v(3) by (simp add: dict_set_distinct)
  ultimately show ?case by (intro proper_segmentI) simp_all
qed

section \<open>Equality\<close>

lemma good_value_eq:
  assumes "\<And>t u. fl t = Some t \<Longrightarrow> fl u = Some u \<Longrightarrow> feq (FFloat t) (FFloat u) \<longleftrightarrow> t = u"
    and "good_fix fl ty v" "good_fix fl ty w"
  shows "value_eq feq v w \<longleftrightarrow> v = w"
  using assms by (cases v; cases w) (auto simp: good_fix_def split: fix_kind.splits)

lemma list_all2_same:
  "(\<And>x y. x \<in> set xs \<Longrightarrow> y \<in> set ys \<Longrightarrow> R x y \<longleftrightarrow> x = y) \<Longrightarrow> list_all2 R xs ys \<longleftrightarrow> xs = ys"
proof (induction xs arbitrary: ys)
  case (Cons x xs)
  then show ?case by (cases ys) auto
qed auto

lemma with_next_mem: "x \<in> set xs \<Longrightarrow> \<exists>n. (x, n) \<in> set (with_next h xs nt)"
proof -
  assume "x \<in> set xs"
  then have "x \<in> fst ` set (with_next h xs nt)" by (metis map_fst_with_next set_map)
  then show ?thesis by auto
qed

lemma good_itemsD:
  "good_items fl es d nt \<Longrightarrow> p \<in> set d \<Longrightarrow> \<exists>e r n. find_entry es (fst p) = Some (e, r) \<and> good_entry fl e (snd p) n"
  using with_next_mem [of p d fst nt]
  by (fastforce simp: good_items_def list_all_iff split: option.splits)

lemma good_groupsD:
  "good_entry fl (EGroup cname fd gname es) (VGroups gs) nt \<Longrightarrow> g \<in> set gs \<Longrightarrow> \<exists>n. good_items fl es g n"
  using with_next_mem [of g gs "fst \<circ> hd" nt]
  by (fastforce simp: good_items_def list_all_iff)

lemma good_items_eq:
  assumes "good_items fl es d n" "good_items fl es d' n'"
    and "\<And>t e r v w m m'. find_entry es t = Some (e, r) \<Longrightarrow> good_entry fl e v m \<Longrightarrow> good_entry fl e w m' \<Longrightarrow>
      fixval_eq feq v w \<longleftrightarrow> v = w"
  shows "dict_eq feq d d' \<longleftrightarrow> d = d'"
  unfolding dict_eq_def
proof (rule list_all2_same)
  fix p q
  assume pq: "p \<in> set d" "q \<in> set d'"
  from good_itemsD [OF assms(1) pq(1)] obtain e r m
    where p: "find_entry es (fst p) = Some (e, r)" "good_entry fl e (snd p) m" by blast
  from good_itemsD [OF assms(2) pq(2)] obtain e' r' m'
    where q: "find_entry es (fst q) = Some (e', r')" "good_entry fl e' (snd q) m'" by blast
  show "fst p = fst q \<and> fixval_eq feq (snd p) (snd q) \<longleftrightarrow> p = q"
    using assms(3) [OF p, of "snd q" m'] p q by (auto simp: prod_eq_iff)
qed

lemma good_entry_eq:
  assumes fl: "\<And>t u. fl t = Some t \<Longrightarrow> fl u = Some u \<Longrightarrow> feq (FFloat t) (FFloat u) \<longleftrightarrow> t = u"
  shows "good_entry fl e v nt \<Longrightarrow> good_entry fl e w nt' \<Longrightarrow> fixval_eq feq v w \<longleftrightarrow> v = w"
proof (induction e arbitrary: v w nt nt' rule: measure_induct_rule [of size])
  case (less e)
  show ?case
  proof (cases e)
    case (EField fd)
    with less.prems good_value_eq [OF fl, where ty = "f_type fd"] show ?thesis
      by (auto split: fixval.splits)
  next
    case (EGroup cname fd gname es)
    with less.prems obtain gs hs where v: "v = VGroups gs" and w: "w = VGroups hs"
      by (auto split: fixval.splits)
    have "dict_eq feq g h \<longleftrightarrow> g = h" if g: "g \<in> set gs" and h: "h \<in> set hs" for g h
    proof -
      obtain n where n: "good_items fl es g n"
        using good_groupsD [OF less.prems(1) [unfolded EGroup v] g] by blast
      obtain n' where n': "good_items fl es h n'"
        using good_groupsD [OF less.prems(2) [unfolded EGroup w] h] by blast
      show ?thesis
      proof (rule good_items_eq [OF n n'])
        fix t d r v w m m'
        assume d: "find_entry es t = Some (d, r)" "good_entry fl d v m" "good_entry fl d w m'"
        show "fixval_eq feq v w \<longleftrightarrow> v = w"
          by (rule less.IH [OF _ d(2,3)]) (use size_group_entry [OF d(1)] in \<open>simp add: EGroup\<close>)
      qed
    qed
    then show ?thesis by (simp add: v w dict_eq_def list_all2_same)
  qed
qed

lemma good_segment_eq:
  assumes fl: "\<And>t u. fl t = Some t \<Longrightarrow> fl u = Some u \<Longrightarrow> feq (FFloat t) (FFloat u) \<longleftrightarrow> t = u"
    and "good_segment fl es d nt" "good_segment fl es d' nt'"
  shows "dict_eq feq d d' \<longleftrightarrow> d = d'"
proof (rule good_items_eq)
  show "good_items fl es d nt" "good_items fl es d' nt'"
    using assms(2,3) by (simp_all add: good_segment_def)
qed (rule good_entry_eq [OF fl])

section \<open>Properties\<close>

text \<open>
  C27: collections. A segment - made by assignment, from a value or from bytes in any order - is
  rebuilt by \<open>from_value\<close> from what \<open>as_collection\<close> gives, repeating groups at every depth included;
  so is a message from the collections of its segments, under the members of \<open>MessageSegments\<close>. But
  \<open>Message.as_collection\<close> uses their texts as keys, and from that \<open>Message.from_value\<close> makes the
  empty message.
\<close>
theorem fix_collection_roundtrip:
  assumes "\<And>s. segment_made defs fl (fst (SegmentCls (fm_class m) s)) (seg_entries (fm_class m) s) (fst (segment_of m s))"
    and "\<And>s. snd (segment_of m s) = []"
  shows "segment_from_value defs (fst (SegmentCls (fm_class m) s)) (seg_entries (fm_class m) s)
      (segment_as_collection (fst (segment_of m s))) = Inr (fst (segment_of m s)) \<and>
    message_from_value defs (fm_class m)
      (map (\<lambda>s. (Member s, Value (segment_as_collection (fst (segment_of m s))))) [HEADER, BODY, TRAILER]) = Inr m \<and>
    message_from_value defs (fm_class m) (message_as_collection m) =
      Inr \<lparr>fm_class = fm_class m, fm_header = ([], []), fm_body = ([], []), fm_trailer = ([], [])\<rparr>"
proof (intro conjI)
  have rebuilt: "segment_from_value defs (fst (SegmentCls (fm_class m) s)) (seg_entries (fm_class m) s)
      (segment_as_collection (fst (segment_of m s))) = Inr (fst (segment_of m s))" for s
    by (rule segment_from_collection) (rule made_proper [OF assms(1)])
  then show "segment_from_value defs (fst (SegmentCls (fm_class m) s)) (seg_entries (fm_class m) s)
      (segment_as_collection (fst (segment_of m s))) = Inr (fst (segment_of m s))" .
  have pair: "fm_header m = (fst (segment_of m HEADER), [])" "fm_body m = (fst (segment_of m BODY), [])"
    "fm_trailer m = (fst (segment_of m TRAILER), [])"
    using assms(2) [of HEADER] assms(2) [of BODY] assms(2) [of TRAILER] by (simp_all add: prod_eq_iff)
  show "message_from_value defs (fm_class m)
      (map (\<lambda>s. (Member s, Value (segment_as_collection (fst (segment_of m s))))) [HEADER, BODY, TRAILER]) = Inr m"
    using rebuilt [of HEADER] rebuilt [of BODY] rebuilt [of TRAILER] pair
    by (cases m) (simp add: message_from_value_def fix_message_init_def init_segment_def)
  show "message_from_value defs (fm_class m) (message_as_collection m) =
      Inr \<lparr>fm_class = fm_class m, fm_header = ([], []), fm_body = ([], []), fm_trailer = ([], [])\<rparr>"
    by (simp add: message_from_value_def message_as_collection_def fix_message_init_def init_segment_def)
qed

theorem fix_collection_roundtrip_witness:
  "message_from_value sample_defs sample_class (message_as_collection sample_logon) =
     Inr \<lparr>fm_class = sample_class, fm_header = ([], []), fm_body = ([], []), fm_trailer = ([], [])\<rparr>"
proof -
  let ?made = "\<lambda>s. segment_made sample_defs no_floats (fst (SegmentCls sample_class s)) (seg_entries sample_class s)"
  let ?d = "\<lambda>s. fst (segment_of sample_logon s)" and ?es = "seg_entries sample_class"
  have "segment_from_bytes no_floats (?es HEADER) (projr (segment_to_bytes (?es HEADER) (?d HEADER))) = Inr (10, ?d HEADER)"
    "segment_from_bytes no_floats (?es BODY) (projr (segment_to_bytes (?es BODY) (?d BODY))) = Inr (33, ?d BODY)"
    "segment_from_bytes no_floats (?es TRAILER) (projr (segment_to_bytes (?es TRAILER) (?d TRAILER))) = Inr (0, ?d TRAILER)"
    by code_simp+
  note read = this [THEN made_read]
  have "?made s (?d s)" for s
    by (cases s) (simp_all only: read)
  moreover have "fm_class sample_logon = sample_class" "snd (segment_of sample_logon s) = []" for s
    by (cases s; simp add: sample_logon_def)+
  ultimately show ?thesis
    using fix_collection_roundtrip [of sample_defs no_floats sample_logon] by simp
qed

text \<open>
  C28: comparison. Two messages of one class whose values survive being sent (\<open>good_message\<close>, with the
  floats that compare like their texts: all but NaN and the negative zero) are equal for \<open>==\<close>
  exactly when they are written as the same bytes. Without that it fails: groups whose fields were
  assigned in another order are written alike and are not equal, and \<open>True\<close> in an integer field is
  equal to 1 and written otherwise.
\<close>
theorem fix_equal_iff_same_bytes:
  assumes "\<And>t u. fl t = Some t \<Longrightarrow> fl u = Some u \<Longrightarrow> feq (FFloat t) (FFloat u) \<longleftrightarrow> t = u"
    and "good_message fl m" "good_message fl n" "fm_class n = fm_class m"
  shows "(fix_message_eq feq m n \<longleftrightarrow> m = n) \<and> (fix_message_eq feq m n \<longleftrightarrow> fix_to_bytes m = fix_to_bytes n) \<and>
    (let g = [(447, VField (FStr (lit ''D''))), (448, VField (FStr (lit ''P1'')))]
     in entry_to_bytes sample_parties (VGroups [g]) = entry_to_bytes sample_parties (VGroups [rev g]) \<and>
        \<not> fixval_eq feq (VGroups [g]) (VGroups [rev g])) \<and>
    (let fd = FieldDef 34 ''MsgSeqNum'' FixInt
     in field_from_value fd (AVal (FBool True)) = Inr (FBool True) \<and>
        field_eq feq fd (FBool True) (AField fd (FInt 1)) \<and> field_to_bytes fd (FBool True) \<noteq> field_to_bytes fd (FInt 1))"
proof (intro conjI)
  have seg: "dict_eq feq (fst (segment_of m s)) (fst (segment_of n s)) \<longleftrightarrow> segment_of m s = segment_of n s" for s
    using good_segment_eq [OF assms(1), of fl] assms(2-4)
    by (cases s) (fastforce simp: good_message_def split: prod.splits)+
  have "m = n \<longleftrightarrow> (\<forall>s. segment_of m s = segment_of n s)"
  proof
    assume all: "\<forall>s. segment_of m s = segment_of n s"
    with assms(4) all [rule_format, of HEADER] all [rule_format, of BODY] all [rule_format, of TRAILER]
    show "m = n" by (intro fix_message.equality) simp_all
  qed simp
  also have "\<dots> \<longleftrightarrow> fix_message_eq feq m n"
  proof -
    have "(\<forall>s. P s) \<longleftrightarrow> P HEADER \<and> P BODY \<and> P TRAILER" for P :: "MessageSegments \<Rightarrow> bool"
      by (metis MessageSegments.exhaust)
    with assms(4) seg show ?thesis by (simp add: fix_message_eq_def segment_eq_def)
  qed
  finally show eq: "fix_message_eq feq m n \<longleftrightarrow> m = n" by blast
  obtain bs where bs: "fix_to_bytes m = Inr (int (length bs), bs)"
    "fix_from_bytes_as fl (fm_class m) bs = Inr (int (length bs), m)" by (rule message_carries [OF assms(2)])
  obtain cs where cs: "fix_to_bytes n = Inr (int (length cs), cs)"
    "fix_from_bytes_as fl (fm_class n) cs = Inr (int (length cs), n)" by (rule message_carries [OF assms(3)])
  show "fix_message_eq feq m n \<longleftrightarrow> fix_to_bytes m = fix_to_bytes n"
    unfolding eq using bs cs assms(4) by auto
qed (code_simp | simp add: Let_def)+

theorem fix_equal_iff_same_bytes_witness:
  "let n = sample_logon\<lparr>fm_header := ([(34, VField (FInt 2)), (49, VField (FStr (lit ''ME'')))], [])\<rparr>
   in \<not> fix_message_eq (=) sample_logon n \<and> fix_to_bytes sample_logon \<noteq> fix_to_bytes n"
proof -
  let ?n = "sample_logon\<lparr>fm_header := ([(34, VField (FInt 2)), (49, VField (FStr (lit ''ME'')))], [])\<rparr>"
  have good: "good_message no_floats ?n" by code_simp
  have "fm_class ?n = fm_class sample_logon" "sample_logon \<noteq> ?n" by (simp_all add: sample_logon_def)
  with fix_equal_iff_same_bytes [of no_floats "(=)" sample_logon ?n, OF _ sample_logon_good good] show ?thesis
    by (simp only: Let_def) blast
qed

text \<open>Indexing a container: what was stored is read back, through a negative index too.\<close>

lemma container_get_set:
  "container_setitem gs i g = Inr hs \<Longrightarrow> container_getitem hs i = Inr g \<and> container_len hs = container_len gs"
  by (auto simp: container_setitem_def container_getitem_def container_position_def container_len_def
      result_simps split: if_splits)

end
