(* ===== verification/Connecting.thy ===== *)
theory Connecting
  imports AppSession FixSession
begin

text \<open>
  Connecting: \<open>connect_async\<close> of \<open>soup/__init__.py\<close>, of the applications over it (\<open>ouch\<close>, \<open>itch\<close>, \<open>sqf\<close>,
  \<open>asn1_app\<close>) and of \<open>fix/__init__.py\<close>. What the event loop does is a parameter: the session that
  \<open>create_connection\<close> made and connected (none when it timed out), what happens to it while \<open>login\<close>
  waits, and the reply. After that the code runs to its end without an await.
\<close>

section \<open>SoupBinTCP\<close>

definition soup_login ::
  "SoupMessage \<Rightarrow> (soup_session \<Rightarrow> soup_session) \<Rightarrow> SoupMessage result \<Rightarrow> soup_session \<Rightarrow> soup_session result" where
  "soup_login msg meanwhile reply s =
     rbind (login_begin msg s) (\<lambda>s1.
       case login_resume reply (meanwhile s1) of
         (s2, None) \<Rightarrow> Inr s2
       | (s2, Some e) \<Rightarrow> Inl e)"

definition soup_connect_async ::
  "soup_session option \<Rightarrow> pystr \<Rightarrow> pystr \<Rightarrow> pystr \<Rightarrow> int \<Rightarrow> (soup_session \<Rightarrow> soup_session) \<Rightarrow>
     SoupMessage result \<Rightarrow> soup_session result" where
  "soup_connect_async created user passwd session_id sq meanwhile reply =
     (case created of
        None \<Rightarrow> Inl ConnectionError
      | Some s \<Rightarrow>
          (case soup_login (login_request user passwd session_id sq) meanwhile reply s of
             Inr s' \<Rightarrow> Inr s'
           | Inl e \<Rightarrow> Inl (if e = EndOfQueue then ConnectionRefusedError else e)))"

text \<open>The default of the parameter \<open>sequence\<close>.\<close>

definition soup_default_sequence :: int where "soup_default_sequence = 1"

section \<open>Applications\<close>

text \<open>The session is built by the caller's factory, if there is one, and by the application's own
  \<open>ClientSession\<close> otherwise.\<close>

definition ouch_default_sequence :: int where "ouch_default_sequence = 0"

definition ouch_connect_async ::
  "soup_session result \<Rightarrow> (soup_session \<Rightarrow> 'm app_session result) option \<Rightarrow> bool \<Rightarrow> nat option \<Rightarrow> 'm app_session result" where
  "ouch_connect_async connected session_factory on_msg on_close =
     rbind connected (\<lambda>soup.
       case session_factory of
         Some f \<Rightarrow> f soup
       | None \<Rightarrow> app_init on_msg on_close soup)"

definition itch_connect_async ::
  "soup_session result \<Rightarrow> (soup_session \<Rightarrow> 'm app_session result) option \<Rightarrow> bool \<Rightarrow> nat option \<Rightarrow> 'm app_session result" where
  "itch_connect_async connected session_factory on_msg on_close =
     rbind connected (\<lambda>soup.
       case session_factory of
         Some f \<Rightarrow> f soup
       | None \<Rightarrow> app_init on_msg on_close soup)"

definition sqf_connect_async ::
  "soup_session result \<Rightarrow> (soup_session \<Rightarrow> 'm app_session result) option \<Rightarrow> bool \<Rightarrow> nat option \<Rightarrow> 'm app_session result" where
  "sqf_connect_async connected session_factory on_msg on_close =
     rbind connected (\<lambda>soup.
       case session_factory of
         Some f \<Rightarrow> f soup
       | None \<Rightarrow> app_init on_msg on_close soup)"

definition asn1_connect_async_soup ::
  "soup_session result \<Rightarrow> (soup_session \<Rightarrow> 'm app_session result) \<Rightarrow> 'm app_session result" where
  "asn1_connect_async_soup connected session_factory = rbind connected session_factory"

section \<open>FIX\<close>

definition fix_connect_async ::
  "field_defs \<Rightarrow> fix_flavour \<Rightarrow> pystr \<Rightarrow> fix_session \<Rightarrow> fix_message \<Rightarrow> (fix_session \<Rightarrow> fix_session) \<Rightarrow>
     fix_message result \<Rightarrow> fix_session \<times> exn option" where
  "fix_connect_async defs fl now created login_msg meanwhile reply =
     (case fix_login_begin defs fl now login_msg created of
        (s1, m, Some e) \<Rightarrow> (s1, Some e)
      | (s1, m, None) \<Rightarrow> fix_login_resume m reply (meanwhile s1))"

section \<open>Lemmas\<close>

lemma ouch_connects: "itch_connect_async = ouch_connect_async" "sqf_connect_async = ouch_connect_async"
  by (simp_all add: fun_eq_iff itch_connect_async_def sqf_connect_async_def ouch_connect_async_def)

text \<open>The defaults of the applications ask for the end of the stream, that of \<open>soup\<close> for its start.\<close>

lemma default_requests:
  "login_request u p i soup_default_sequence = LoginRequest u p i (lit ''1'')"
  "login_request u p i ouch_default_sequence = LoginRequest u p i (lit ''0'')"
  by (simp_all add: login_request_def soup_default_sequence_def ouch_default_sequence_def show_int_def
      show_nat.simps lit_def)

lemma accepted_fields:
  assumes "login_resume (Inr (LoginAccepted i n)) s = (s', None)" "s_on_msg_coro s = None"
  shows "s_queue s' = s_queue s" "s_closed s' = s_closed s" "s_closing_task s' = s_closing_task s"
    "sequence s' = n - 1" "s_on_msg_coro s' = None"
  using assms by (auto simp: login_resume_def start_heartbeats_def session_start_dispatching_def
      new_monitor_def not_none_def result_simps Let_def)

lemma login_accepts:
  assumes "s_on_msg_coro s = None"
  shows "\<exists>s'. login_resume (Inr (LoginAccepted i n)) s = (s', None)"
  using assms by (simp add: login_resume_def start_heartbeats_def session_start_dispatching_def
      new_monitor_def not_none_def Let_def)

lemma app_init_ok:
  assumes "q_dispatcher_task (s_queue s) = None" "is_active s"
  shows "\<exists>a. app_init on_msg on_close s = Inr a \<and> is_dispatching (s_queue (app_soup a)) \<and>
    s_on_msg_coro (app_soup a) = Some app_on_msg \<and> s_on_close_coro (app_soup a) = Some app_on_close \<and>
    q_msg_queue (s_queue (app_soup a)) = q_msg_queue (s_queue s) \<and> sequence (app_soup a) = sequence s"
  using assms by (simp add: app_init_def set_handlers_def session_start_dispatching_def is_active_def
      is_dispatching_def start_dispatching_def create_dispatcher_def Let_def)

section \<open>Properties\<close>

text \<open>
  C25: the outcome of connecting an application. A connection that times out gives
  \<open>ConnectionError\<close>, and a login that is refused or cut short \<open>ConnectionRefusedError\<close>. If it is
  accepted, and the session still active, the application's session takes over both handlers, is
  dispatching, and every message that arrived in the meantime is still in the queue for it.
\<close>
theorem app_connects:
  assumes "s_on_msg_coro (meanwhile s1) = None" and "q_dispatcher_task (s_queue (meanwhile s1)) = None"
    and "is_active (meanwhile s1)" and "login_begin (login_request user passwd session_id sq) s = Inr s1"
  shows "let connect = (\<lambda>created reply. ouch_connect_async
        (soup_connect_async created user passwd session_id sq meanwhile reply) None on_msg on_close)
    in connect None reply = Inl ConnectionError \<and>
       (\<exists>a. connect (Some s) (Inr (LoginAccepted i n)) = Inr a \<and> is_dispatching (s_queue (app_soup a)) \<and>
          s_on_msg_coro (app_soup a) = Some app_on_msg \<and> s_on_close_coro (app_soup a) = Some app_on_close \<and>
          q_msg_queue (s_queue (app_soup a)) = q_msg_queue (s_queue (meanwhile s1)) \<and>
          sequence (app_soup a) = n - 1) \<and>
       connect (Some s) (Inr (LoginRejected r)) = Inl ConnectionRefusedError \<and>
       connect (Some s) (Inl EndOfQueue) = Inl ConnectionRefusedError"
proof -
  obtain s2 where s2: "login_resume (Inr (LoginAccepted i n)) (meanwhile s1) = (s2, None)"
    using login_accepts [OF assms(1)] by blast
  note f = accepted_fields [OF s2 assms(1)]
  have "q_dispatcher_task (s_queue s2) = None" "is_active s2"
    using f assms(2,3) by (simp_all add: is_active_def)
  from app_init_ok [OF this, of on_msg on_close] s2 f assms(4) show ?thesis
    by (simp add: ouch_connect_async_def soup_connect_async_def soup_login_def login_resume_def)
qed

theorem app_connects_witness:
  "\<exists>a. ouch_connect_async (soup_connect_async (Some ((client_new None None 10 10)\<lparr>s_transport := True, s_reader := Some new_reader\<rparr>))
       (lit ''u'') (lit ''p'') [] 0 (async_on_message (SequencedData [1])) (Inr (LoginAccepted (lit ''s'') 7))) None True None =
     Inr (a :: message app_session) \<and> q_msg_queue (s_queue (app_soup a)) = [SequencedData [1]]"
proof -
  let ?s = "(client_new None None 10 10)\<lparr>s_transport := True, s_reader := Some new_reader\<rparr>"
  let ?req = "login_request (lit ''u'') (lit ''p'') [] 0"
  have "length (show_int 0) \<le> 20" by (simp add: show_int_def show_nat.simps)
  then have "valid_soup ?req"
    by (simp add: login_request_def field_ok_def encodable_def) (simp add: lit_def unpadded_def is_space_def)
  then obtain bs where "soup_to_bytes ?req = Inr (length bs, bs)" using soup_decode_encode by blast
  then obtain s1 where l: "login_begin ?req ?s = Inr s1"
    by (simp add: login_begin_def send_msg_def login_request_def Let_def)
  let ?m = "async_on_message (SequencedData [1])" and ?s2 = "async_on_message (SequencedData [1]) s1"
  have "s_on_msg_coro ?s2 = None" "q_dispatcher_task (s_queue ?s2) = None" "is_active ?s2"
    "q_msg_queue (s_queue ?s2) = [SequencedData [1]]"
    using l by (auto simp: login_begin_def send_msg_def login_request_def result_simps async_on_message_def put_def
        client_new_def extend_soup_def session.defs soup_session.defs session_new_def mq_new_def mq_empty_def
        start_dispatching_def is_active_def Let_def split: if_splits)
  with app_connects [where meanwhile = ?m and on_msg = True and on_close = None and i = "lit ''s''" and n = 7,
      OF this(1-3) l]
  show ?thesis unfolding Let_def by auto
qed

end
