(* ===== verification/Asn1Session.thy ===== *)
theory Asn1Session
  imports Connecting
begin

text \<open>
  The session of an ASN.1 application (\<open>Asn1SoupClientSession\<close> in \<open>asn1_app/soup_session.py\<close>, and
  \<open>Asn1Message\<close> in \<open>asn1_app/core.py\<close>): a class of its own, written beside \<open>SoupAppClientSession\<close> of
  \<open>soup/soup_app.py\<close>. It is shown to do the same with the decoder of its specification; what differs
  is that data which cannot be decoded becomes an empty dictionary, where the other applications
  drop it.
\<close>

section \<open>Messages\<close>

text \<open>\<open>PduName\<close> and \<open>Spec\<close> of a message class: a subclass without both keywords keeps those of its
  base. The dictionary of a decoded message is its list of items.\<close>

record 'spec asn1_message =
  PduName :: string
  PduSpec :: "'spec asn1_spec"

type_synonym asn1_value = "(string \<times> pyval) list"
type_synonym 'spec asn1_decoder = "'spec \<Rightarrow> string \<Rightarrow> bytes \<Rightarrow> (asn1_value \<times> int) result"

definition asn1_message_init_subclass ::
  "'spec asn1_message option \<Rightarrow> 'spec asn1_spec option \<Rightarrow> string option \<Rightarrow> 'spec asn1_message option" where
  "asn1_message_init_subclass base spec pdu_name =
     (case (spec, pdu_name) of
        (Some s, Some n) \<Rightarrow> Some \<lparr>PduName = n, PduSpec = s\<rparr>
      | _ \<Rightarrow> base)"

text \<open>\<open>Asn1Message.from_bytes\<close>: without a specification there is no attribute to look up.\<close>

definition asn1_from_bytes :: "'spec asn1_decoder \<Rightarrow> 'spec asn1_message option \<Rightarrow> asn1_value unpacker" where
  "asn1_from_bytes decode_with_length cls bs =
     (case cls of
        None \<Rightarrow> Inl AttributeError
      | Some c \<Rightarrow> asn1_decode decode_with_length (PduSpec c) (PduName c) bs)"

section \<open>Sessions\<close>

text \<open>\<open>Ans1SoupSessionId.__str__\<close>.\<close>

definition asn1_session_id :: "pystr option \<Rightarrow> pystr" where
  "asn1_session_id soup_session_id =
     (case soup_session_id of Some i \<Rightarrow> lit ''asn1-'' @ i | None \<Rightarrow> lit ''asn1-nosoup'')"

record asn1_session =
  an_soup_session :: soup_session
  an_on_msg_coro :: bool
  an_on_close_coro :: "nat option"
  an_closed :: bool
  an_close_event :: "bool option"
  an_message_queue :: "asn1_value mqueue"
  an_calls :: "nat list"

text \<open>\<open>__init_subclass__\<close>: the class of the messages is a keyword that has to be there.\<close>

definition asn1_session_init_subclass :: "'c option \<Rightarrow> 'c result" where
  "asn1_session_init_subclass asn1_message =
     (case asn1_message of None \<Rightarrow> Inl AttributeError | Some c \<Rightarrow> Inr c)"

definition asn1_post_init :: "bool \<Rightarrow> nat option \<Rightarrow> soup_session \<Rightarrow> asn1_session result" where
  "asn1_post_init on_msg_coro on_close_coro soup =
     (let queue = mq_new on_msg_coro
      in case set_handlers (Some app_on_msg) (Some app_on_close) soup of
           (_, Some e) \<Rightarrow> Inl e
         | (soup1, None) \<Rightarrow>
             rbind (session_start_dispatching soup1) (\<lambda>soup2.
               Inr \<lparr>an_soup_session = soup2, an_on_msg_coro = on_msg_coro, an_on_close_coro = on_close_coro,
                    an_closed = False, an_close_event = None, an_message_queue = queue, an_calls = []\<rparr>))"

text \<open>A dictionary is true when it has an item.\<close>

definition asn1_receive_message :: "nat \<Rightarrow> asn1_session \<Rightarrow> asn1_session" where
  "asn1_receive_message r a = a\<lparr>an_message_queue := get (\<lambda>m. m \<noteq> []) r (an_message_queue a)\<rparr>"

definition asn1_close :: "asn1_session \<Rightarrow> asn1_session \<times> bool" where
  "asn1_close a =
     (if an_close_event a \<noteq> None \<or> an_closed a then (a, True)
      else (a\<lparr>an_close_event := Some False, an_soup_session := initiate_close False (an_soup_session a)\<rparr>, False))"

definition asn1_on_soup_message ::
  "asn1_value unpacker \<Rightarrow> SoupMessage \<Rightarrow> asn1_session \<Rightarrow> asn1_session \<times> exn option" where
  "asn1_on_soup_message dec message a =
     (case message of
        SequencedData bs \<Rightarrow>
          (case dec bs of
             Inl e \<Rightarrow> (a, Some e)
           | Inr r \<Rightarrow> (a\<lparr>an_message_queue := put (snd r) (an_message_queue a)\<rparr>, None))
      | _ \<Rightarrow> (a, None))"

definition asn1_on_soup_close :: "asn1_session \<Rightarrow> asn1_session" where
  "asn1_on_soup_close a =
     (let a1 = a\<lparr>an_message_queue := stop (an_message_queue a)\<rparr>;
          a2 = (case an_on_close_coro a1 of None \<Rightarrow> a1 | Some h \<Rightarrow> a1\<lparr>an_calls := an_calls a1 @ [h]\<rparr>);
          a3 = (if an_close_event a2 \<noteq> None then a2\<lparr>an_close_event := Some True\<rparr> else a2)
      in a3\<lparr>an_closed := True\<rparr>)"

section \<open>The session is an application session\<close>

definition as_app :: "asn1_session \<Rightarrow> asn1_value app_session" where
  "as_app a = \<lparr>app_soup = an_soup_session a, app_on_msg_coro = an_on_msg_coro a,
     app_on_close_coro = an_on_close_coro a, app_closed = an_closed a, app_close_event = an_close_event a,
     app_queue = an_message_queue a, app_calls = an_calls a\<rparr>"

named_theorems as_app_simps \<open>the operations of an ASN.1 session through \<open>as_app\<close>\<close>

lemma as_app_init: "app_init on_msg on_close soup = rbind (asn1_post_init on_msg on_close soup) (\<lambda>a. Inr (as_app a))"
  by (simp add: app_init_def asn1_post_init_def as_app_def rbind_assoc split: prod.split option.split)

lemma as_app_receive [as_app_simps]:
  "as_app (asn1_receive_message r a) = receive_message (\<lambda>m. m \<noteq> []) r (as_app a)"
  by (simp add: asn1_receive_message_def receive_message_def as_app_def)

lemma as_app_close [as_app_simps]:
  "app_close (as_app a) = (as_app (fst (asn1_close a)), snd (asn1_close a))"
  by (simp add: asn1_close_def app_close_def as_app_def)

lemma as_app_message [as_app_simps]:
  "on_soup_message dec m (as_app a) =
     (as_app (fst (asn1_on_soup_message dec m a)), snd (asn1_on_soup_message dec m a))"
  by (auto simp: asn1_on_soup_message_def on_soup_message_def as_app_def
      split: SoupMessage.split sum.split prod.split)

lemma as_app_soup_close [as_app_simps]: "as_app (asn1_on_soup_close a) = on_soup_close (as_app a)"
  by (auto simp: asn1_on_soup_close_def on_soup_close_def as_app_def Let_def split: option.split)

text \<open>Runs of a session: the user's calls and those of the soup session, with what each gives back:
  an exception, or whether it is over.\<close>

datatype session_event = Receive nat | Message SoupMessage | Close | SoupClosed

fun asn1_step :: "asn1_value unpacker \<Rightarrow> session_event \<Rightarrow> asn1_session \<Rightarrow> asn1_session \<times> bool result" where
  "asn1_step dec (Receive r) a = (asn1_receive_message r a, Inr True)"
| "asn1_step dec (Message m) a =
     (case asn1_on_soup_message dec m a of
        (a1, None) \<Rightarrow> (a1, Inr True) | (a1, Some e) \<Rightarrow> (a1, Inl e))"
| "asn1_step dec Close a = (case asn1_close a of (a1, over) \<Rightarrow> (a1, Inr over))"
| "asn1_step dec SoupClosed a = (asn1_on_soup_close a, Inr True)"

fun app_step :: "asn1_value unpacker \<Rightarrow> session_event \<Rightarrow> asn1_value app_session \<Rightarrow>
     asn1_value app_session \<times> bool result" where
  "app_step dec (Receive r) a = (receive_message (\<lambda>m. m \<noteq> []) r a, Inr True)"
| "app_step dec (Message m) a =
     (case on_soup_message dec m a of
        (a1, None) \<Rightarrow> (a1, Inr True) | (a1, Some e) \<Rightarrow> (a1, Inl e))"
| "app_step dec Close a = (case app_close a of (a1, over) \<Rightarrow> (a1, Inr over))"
| "app_step dec SoupClosed a = (on_soup_close a, Inr True)"

fun trace :: "('e \<Rightarrow> 's \<Rightarrow> 's \<times> 'r) \<Rightarrow> 'e list \<Rightarrow> 's \<Rightarrow> 's \<times> 'r list" where
  "trace step [] s = (s, [])"
| "trace step (e # es) s =
     (let (s1, r) = step e s; (s2, rs) = trace step es s1 in (s2, r # rs))"

lemma as_app_step: "app_step dec e (as_app a) = map_prod as_app id (asn1_step dec e a)"
  by (cases e) (auto simp: as_app_simps split: prod.split option.split)

lemma as_app_trace: "trace (app_step dec) es (as_app a) = map_prod as_app id (trace (asn1_step dec) es a)"
  by (induction es arbitrary: a) (simp_all add: as_app_step Let_def case_prod_beta')

section \<open>What is received\<close>

fun sequenced :: "SoupMessage list \<Rightarrow> bytes list" where
  "sequenced [] = []"
| "sequenced (SequencedData d # ms) = d # sequenced ms"
| "sequenced (_ # ms) = sequenced ms"

text \<open>The dictionary that arrives for some data: empty if it cannot be decoded.\<close>

definition decoded_or_empty :: "'spec asn1_decoder \<Rightarrow> 'spec asn1_message \<Rightarrow> bytes \<Rightarrow> asn1_value" where
  "decoded_or_empty decode_with_length c bs =
     (case decode_with_length (Spec (PduSpec c)) (PduName c) bs of Inl e \<Rightarrow> [] | Inr (m, n) \<Rightarrow> m)"

lemma decodes_all:
  assumes "\<And>spec pdu bs e. decode_with_length spec pdu bs = Inl e \<Longrightarrow> e = DecodeError"
  shows "\<exists>n. asn1_from_bytes decode_with_length (Some c) bs = Inr (n, decoded_or_empty decode_with_length c bs)"
  using assms [of "Spec (PduSpec c)" "PduName c" bs]
  by (cases "decode_with_length (Spec (PduSpec c)) (PduName c) bs")
    (auto simp: asn1_from_bytes_def asn1_decode_def decoded_or_empty_def)

lemma decoded_sequenced:
  assumes "\<And>bs. \<exists>n. dec bs = Inr (n, f bs)"
  shows "decoded dec ms = map f (sequenced ms)"
proof (induction ms rule: sequenced.induct)
  case (2 d ms)
  with assms [of d] show ?case by auto
qed simp_all

lemma as_app_messages:
  "as_app (fst (trace (asn1_step dec) (map Message ms) a)) = handle_all dec ms (as_app a)"
proof (induction ms arbitrary: a)
  case (Cons m ms)
  have "fst (asn1_step dec (Message m) a) = fst (asn1_on_soup_message dec m a)"
    by (simp split: prod.split option.split)
  with Cons [of "fst (asn1_step dec (Message m) a)"] show ?case
    by (simp add: handle_all_def Let_def case_prod_beta' as_app_message del: asn1_step.simps)
qed (simp add: handle_all_def)

section \<open>Properties\<close>

text \<open>
  the two session classes are equivalent. The ASN.1 session has code of its own for what
  \<open>SoupAppClientSession\<close> does; with the decoder of its specification it behaves like it: it can be
  made from the same soup sessions, and every run of calls, messages and closings leaves the same
  state behind and gives the same results and exceptions.
\<close>
theorem asn1_session_equivalent:
  "app_init on_msg on_close soup = rbind (asn1_post_init on_msg on_close soup) (\<lambda>a. Inr (as_app a)) \<and>
   trace (app_step (asn1_from_bytes dwl cls)) es (as_app a) =
     map_prod as_app id (trace (asn1_step (asn1_from_bytes dwl cls)) es a)"
  by (simp add: as_app_init as_app_trace)

text \<open>
  C19: undecodable ASN.1 data. \<open>Asn1Spec.decode\<close> turns a \<open>DecodeError\<close> into an empty dictionary, so of the
  sequenced messages none is dropped: each is accepted by the queue, decoded or empty. A handler
  gets the empty dictionary like any other. But a caller of \<open>receive_message\<close> takes it out of the
  queue, where it is lost because it is false, and goes on waiting.
\<close>
theorem asn1_undecodable:
  fixes dwl :: "'spec asn1_decoder"
  assumes "\<And>spec pdu bs e. dwl spec pdu bs = Inl e \<Longrightarrow> e = DecodeError"
    and "dwl (Spec (PduSpec c)) (PduName c) d = Inl DecodeError"
    and "q_msg_queue (an_message_queue a) = []" "q_buffer_msg_queue (an_message_queue a) = None"
  shows "let dec = asn1_from_bytes dwl (Some c); q = an_message_queue a;
      (a1, r1) = asn1_on_soup_message dec (SequencedData d) a; q1 = an_message_queue a1;
      q2 = an_message_queue (asn1_receive_message r a1); q3 = dispatcher_takes k q1
    in q_accepted (an_message_queue (fst (trace (asn1_step dec) (map Message ms) a))) =
         q_accepted q @ map (decoded_or_empty dwl c) (sequenced ms) \<and>
       r1 = None \<and> q_msg_queue q1 = [[]] \<and>
       (q_dispatcher_task q = None \<longrightarrow> q_msg_queue q2 = [] \<and> q_results q2 = q_results q \<and>
          q_readings q2 = q_readings q @ [(r, Waiting (q_generation q))]) \<and>
       (map_of (q_dispatchers q) k = Some Idle \<longrightarrow> q_dispatched q3 = q_dispatched q @ [[]])"
proof -
  let ?dec = "asn1_from_bytes dwl (Some c)"
  have run: "q_accepted (an_message_queue (fst (trace (asn1_step ?dec) (map Message ms) a))) =
      q_accepted (an_message_queue a) @ map (decoded_or_empty dwl c) (sequenced ms)"
    using arg_cong [OF as_app_messages [of ?dec ms a], of "\<lambda>x. q_accepted (app_queue x)"]
      decoded_sequenced [of ?dec "decoded_or_empty dwl c" ms, OF decodes_all [OF assms(1)]]
    by (simp add: handle_all_accepted as_app_def)
  have "asn1_on_soup_message ?dec (SequencedData d) a =
      (a\<lparr>an_message_queue := put [] (an_message_queue a)\<rparr>, None)"
    using assms(2) by (simp add: asn1_on_soup_message_def asn1_from_bytes_def asn1_decode_def)
  with run assms(3,4) show ?thesis
    by (simp add: Let_def put_def asn1_receive_message_def get_def get_nowait_def pop_def blocking_read_def
        dispatcher_takes_def split: option.split)
qed

definition sample_asn1 :: "unit asn1_message" where
  "sample_asn1 = \<lparr>PduName = ''Pdu'', PduSpec = \<lparr>SpecName = ''app'', SpecPkgDir = ''app'', Spec = ()\<rparr>\<rparr>"

definition sample_decoder :: "unit asn1_decoder" where
  "sample_decoder spec pdu bs = (if bs = [] then Inl DecodeError else Inr ([(''byte'', VInt (uint (hd bs)))], 1))"

definition sample_asn1_session :: asn1_session where
  "sample_asn1_session = \<lparr>an_soup_session = client_new None None 10 10, an_on_msg_coro = False,
     an_on_close_coro = None, an_closed = False, an_close_event = None, an_message_queue = mq_new False, an_calls = []\<rparr>"

theorem asn1_undecodable_witness:
  "let a1 = fst (asn1_on_soup_message (asn1_from_bytes sample_decoder (Some sample_asn1)) (SequencedData []) sample_asn1_session)
   in q_msg_queue (an_message_queue a1) = [[]] \<and>
      q_readings (an_message_queue (asn1_receive_message 0 a1)) = [(0, Waiting 0)]"
proof -
  have only: "e = DecodeError" if "sample_decoder s p bs = Inl e" for s p bs e
    using that by (simp add: sample_decoder_def split: if_splits)
  have q: "an_message_queue sample_asn1_session = mq_empty"
    by (simp add: sample_asn1_session_def mq_new_def start_dispatching_def mq_empty_def)
  have "sample_decoder (Spec (PduSpec sample_asn1)) (PduName sample_asn1) [] = Inl DecodeError"
    by (simp add: sample_decoder_def)
  from asn1_undecodable [where dwl = sample_decoder and a = sample_asn1_session and r = 0 and k = 0 and ms = "[]", OF only this]
  show ?thesis
    by (simp add: q mq_empty_def Let_def case_prod_beta')
qed

end
