(* ===== verification/Channel.thy ===== *)
theory Channel
  imports AppSession
begin

text \<open>
  A connection with both its ends: a SoupBinTCP server session (\<open>SoupServerSession\<close>) and the session
  of an application over a client session (\<open>SoupAppClientSession\<close> over \<open>SoupClientSession\<close>), with the
  bytes on their way between them. TCP keeps the order of the bytes and delivers them in any
  chunks; a transport that was closed writes no more. A run of the connection is any interleaving
  of calls, timers, arriving bytes, and turns of the readers and dispatchers of both ends. The
  locale \<open>receiving_session\<close> is the contract of an end that receives: it extends \<open>framing\<close> and
  \<open>session_class\<close>, and both ends interpret it.
\<close>

section \<open>What is written\<close>

text \<open>What a transport carries of what the session does to it: the bytes written before it is closed.\<close>

fun carried :: "sent list \<Rightarrow> bytes" where
  "carried [] = []"
| "carried (Wrote bs # xs) = bs @ carried xs"
| "carried (TransportClosed # xs) = []"
| "carried (CalledOnClose h # xs) = carried xs"

lemma carried_append:
  "carried (xs @ ys) = carried xs @ (if TransportClosed \<in> set xs then [] else carried ys)"
  by (induction xs rule: carried.induct) auto

text \<open>Nothing is written, or the bytes \<open>bs\<close>.\<close>

definition emits :: "bytes \<Rightarrow> ('m, 'x) session_scheme \<Rightarrow> ('m, 'x) session_scheme \<Rightarrow> bool" where
  "emits bs s s' \<longleftrightarrow> (\<exists>xs. s_sent s' = s_sent s @ xs \<and> (carried xs = [] \<or> carried xs = bs))"

lemma emits_same: "s_sent s' = s_sent s \<Longrightarrow> emits bs s s'"
  by (simp add: emits_def)

lemma emits_then: "emits bs s s' \<Longrightarrow> s_sent s'' = s_sent s' \<Longrightarrow> emits bs s s''"
  by (simp add: emits_def)

lemma emits_from: "emits bs s s' \<Longrightarrow> s_sent s = s_sent s0 \<Longrightarrow> emits bs s0 s'"
  by (simp add: emits_def)

lemma emits_close: "emits bs s s' \<Longrightarrow> emits bs s (close_enter d s')"
proof -
  assume "emits bs s s'"
  then obtain xs where "s_sent s' = s_sent s @ xs" "carried xs = [] \<or> carried xs = bs" by (auto simp: emits_def)
  moreover have "carried (xs @ (if s_transport s' then [TransportClosed] else [])) = carried xs"
    by (simp add: carried_append)
  ultimately show ?thesis by (auto simp: emits_def close_enter_def)
qed

lemma close_emits: "s_sent s' = s_sent s \<Longrightarrow> emits bs s (close_enter d s')"
  by (intro emits_close emits_same)

lemma initiate_close_fields:
  "s_sent (initiate_close d s) = s_sent s" "s_reader (initiate_close d s) = s_reader s"
  "s_queue (initiate_close d s) = s_queue s" "s_phase (initiate_close d s) = s_phase s"
  by (simp_all add: initiate_close_def)

section \<open>A receiving end\<close>

text \<open>What a reader has delivered is an initial part of what arrived, and all of it is accounted for
  while the reader is alive.\<close>

definition sound :: "'m framer \<Rightarrow> bytes \<Rightarrow> 'm reader \<Rightarrow> bool" where
  "sound nx inp r \<longleftrightarrow> (alive r \<longrightarrow> faithful nx (\<lambda>_. True) inp r) \<and>
     (\<forall>w. \<exists>rest. stream nx (\<lambda>_. True) (inp @ w) = delivered r @ rest)"

text \<open>A session whose reader got the bytes \<open>inp\<close>, and in which what was delivered has been taken by a
  dispatcher or is in the queue. There is no draining.\<close>

definition undrained :: "('m, 'x) session_scheme \<Rightarrow> bool" where
  "undrained s \<longleftrightarrow> s_phase s \<in> {NotClosing, StopMonitors False, StopQueue, StopReader, CallOnClose, CloseDone} \<and>
     s_closing_task s \<noteq> Some True \<and> q_buffer_msg_queue (s_queue s) = None"

definition receives :: "'m framer \<Rightarrow> bytes \<Rightarrow> 'm reader \<Rightarrow> 'm mqueue \<Rightarrow> bool" where
  "receives nx inp r q \<longleftrightarrow> sound nx inp r \<and> drain_buffer r = None \<and> delivered r = q_taken q @ q_msg_queue q"

definition endpoint :: "'m framer \<Rightarrow> bytes \<Rightarrow> ('m, 'x) session_scheme \<Rightarrow> bool" where
  "endpoint nx inp s \<longleftrightarrow> undrained s \<and> (\<exists>r. s_reader s = Some r \<and> receives nx inp r (s_queue s))"

text \<open>The events of a session that neither make a new reader nor drain.\<close>

fun plain_event :: "'m sevent \<Rightarrow> bool" where
  "plain_event ReaderTurn = True"
| "plain_event LocalInterval = True"
| "plain_event RemoteInterval = True"
| "plain_event (InitiateClose drain) = (\<not> drain)"
| "plain_event (Close drain) = (\<not> drain)"
| "plain_event ClosingTask = True"
| "plain_event CloseStep = True"
| "plain_event _ = False"

lemma faithful_prefix: "faithful nx ok inp r \<Longrightarrow> \<exists>rest. stream nx ok (inp @ w) = delivered r @ rest"
  unfolding faithful_def by (metis append_Nil2)

lemma faithful_sound: "faithful nx (\<lambda>_. True) inp r \<Longrightarrow> sound nx inp r"
  by (simp add: sound_def faithful_prefix)

lemma sound_stop: "sound nx inp r \<Longrightarrow> sound nx inp (reader_stop r)"
  by (simp add: sound_def)

lemma put_all:
  "q_buffer_msg_queue q = None \<Longrightarrow>
   q_msg_queue (fold put ms q) = q_msg_queue q @ ms \<and> q_taken (fold put ms q) = q_taken q \<and>
   q_buffer_msg_queue (fold put ms q) = None"
  by (induction ms arbitrary: q) (simp_all add: put_def)

lemma puts_dispatchers: "q_dispatchers (fold put ms q) = q_dispatchers q"
  by (induction ms arbitrary: q) (simp_all add: put_def split: option.split)

lemma stop_keeps:
  "q_msg_queue (stop q) = q_msg_queue q" "q_taken (stop q) = q_taken q"
  "q_buffer_msg_queue (stop q) = q_buffer_msg_queue q"
  using same_store_stop [of q] by (simp_all add: same_store_def)

lemma tick_delivers: "\<exists>ms. delivered (process_tick d ok r) = delivered r @ ms"
  by (auto simp: process_tick_def process_1_def Let_def split: rtask.split sum.split option.split)

lemma tick_drain_buffer: "drain_buffer (process_tick d ok r) = drain_buffer r"
  by (auto simp: process_tick_def process_1_def reader_stop_def Let_def split: rtask.split sum.split option.split)

lemma tick_dead: "\<not> alive r \<Longrightarrow> delivered (process_tick d ok r) = delivered r \<and> \<not> alive (process_tick d ok r)"
  by (auto simp: process_tick_def alive_def)

locale receiving_session = framing deserialize nx + session_class deserialize on_message send_heartbeat
  for deserialize :: "'m deserializer" and nx :: "'m framer"
    and on_message :: "'m \<Rightarrow> ('m, 'x) session_scheme \<Rightarrow> ('m, 'x) session_scheme"
    and send_heartbeat :: "('m, 'x) session_scheme \<Rightarrow> ('m, 'x) session_scheme" +
  fixes heartbeat :: bytes
  assumes on_message_queue: "s_queue (on_message m s) = put m (s_queue s)"
    and on_message_task: "s_closing_task (on_message m s) = s_closing_task s"
    and heartbeat_queue: "s_queue (send_heartbeat s) = s_queue s"
    and heartbeat_task: "s_closing_task (send_heartbeat s) = s_closing_task s"
    and on_message_sent: "s_sent (on_message m s) = s_sent s"
    and heartbeat_sent: "emits heartbeat s (send_heartbeat s)"
begin

lemma sound_tick: "sound nx inp r \<Longrightarrow> sound nx inp (process_tick deserialize (\<lambda>_. True) r)"
proof (cases "alive r")
  case True
  assume "sound nx inp r"
  with True show ?thesis by (intro faithful_sound faithful_tick) (simp add: sound_def)
next
  case False
  assume "sound nx inp r"
  with tick_dead [OF False] show ?thesis by (simp add: sound_def)
qed

lemma sound_data: "sound nx inp r \<Longrightarrow> sound nx (inp @ bs) (on_data bs r)"
proof -
  assume s: "sound nx inp r"
  have "alive (on_data bs r) = alive r" "delivered (on_data bs r) = delivered r"
    by (auto simp: on_data_def alive_def split: option.split)
  with s faithful_data [of "\<lambda>_. True" inp r bs] show ?thesis by (auto simp: sound_def)
qed

lemma messages_queue:
  "s_queue (fold on_message ms s) = fold put ms (s_queue s)"
  "s_closing_task (fold on_message ms s) = s_closing_task s"
  by (induction ms arbitrary: s) (simp_all add: on_message_queue on_message_task)

lemma endpoint_turn:
  assumes "endpoint nx inp s"
  shows "endpoint nx inp (sstep ReaderTurn s)"
proof -
  from assms obtain r where r: "s_reader s = Some r" "receives nx inp r (s_queue s)" and u: "undrained s"
    by (auto simp: endpoint_def)
  let ?r = "process_tick deserialize (\<lambda>_. True) r"
  obtain ms where ms: "delivered ?r = delivered r @ ms" using tick_delivers by blast
  let ?s = "fold on_message ms (s\<lparr>s_reader := Some ?r\<rparr>)"
  have q: "s_queue ?s = fold put ms (s_queue s)" "s_closing_task ?s = s_closing_task s"
    by (simp_all add: messages_queue)
  have st: "s_phase ?s = s_phase s" "s_reader ?s = Some ?r"
    using on_messages_parts(1,2) [of ms "s\<lparr>s_reader := Some ?r\<rparr>"] by (simp_all add: stage_def)
  have "receives nx inp ?r (s_queue ?s)"
    using r(2) u put_all [of "s_queue s" ms] unfolding q
    by (simp add: receives_def undrained_def sound_tick tick_drain_buffer ms)
  moreover have "undrained ?s"
    using u put_all [of "s_queue s" ms] q st by (simp add: undrained_def)
  ultimately have "endpoint nx inp ?s" "endpoint nx inp (close_enter False ?s)"
    using st by (auto simp: endpoint_def undrained_def close_enter_def)
  then show ?thesis
    using r(1) ms by (simp add: reader_turn_def Let_def)
qed

lemma endpoint_step:
  assumes "endpoint nx inp s" "plain_event e"
  shows "endpoint nx inp (sstep e s)"
proof (cases e)
  case ReaderTurn
  with endpoint_turn [OF assms(1)] show ?thesis by simp
next
  case LocalInterval
  have "endpoint nx inp (send_heartbeat s')" if "endpoint nx inp s'" for s'
    using that heartbeat_parts(1,2) [of s']
    by (simp add: endpoint_def undrained_def stage_def heartbeat_queue heartbeat_task)
  with assms(1) LocalInterval show ?thesis
    by (auto simp: local_interval_def Let_def endpoint_def undrained_def split: option.split)
next
  case CloseStep
  with assms(1) show ?thesis
    by (auto simp: close_step_def endpoint_def undrained_def receives_def sound_stop stop_keeps)
qed (use assms in \<open>auto simp: endpoint_def undrained_def remote_interval_def initiate_close_def close_enter_def
      closing_task_begins_def Let_def split: option.split\<close>)

lemma step_taken:
  assumes "undrained s" "plain_event e"
  shows "q_taken (s_queue (sstep e s)) = q_taken (s_queue s)"
proof (cases e)
  case ReaderTurn
  with assms(1) put_all [of "s_queue s"] show ?thesis
    by (auto simp: reader_turn_def messages_queue undrained_def Let_def split: option.split)
next
  case CloseStep
  with assms(1) show ?thesis
    by (auto simp: close_step_def undrained_def stop_keeps Let_def)
qed (use assms in \<open>auto simp: local_interval_def remote_interval_def initiate_close_def closing_task_begins_def
      heartbeat_queue Let_def split: option.split\<close>)

lemma endpoint_data:
  assumes "endpoint nx inp s"
  shows "endpoint nx (inp @ bs) (or_same s (data_received bs s))"
proof -
  have "drain_buffer (on_data bs r) = drain_buffer r" "delivered (on_data bs r) = delivered r"
    if "drain_buffer r = None" for r :: "'m reader"
    using that by (auto simp: on_data_def)
  with assms sound_data show ?thesis
    by (auto simp: endpoint_def undrained_def receives_def data_received_def or_same_def Let_def)
qed

lemma messages_sent: "s_sent (fold on_message ms s) = s_sent s"
  by (induction ms arbitrary: s) (simp_all add: on_message_sent)

lemma step_emits: "plain_event e \<Longrightarrow> emits heartbeat s (sstep e s)"
proof (cases e)
  case LocalInterval
  then show ?thesis
    by (auto simp: local_interval_def Let_def emits_same intro: emits_from [OF heartbeat_sent] split: option.split)
next
  case CloseStep
  then show ?thesis
    by (auto simp: close_step_def emits_def Let_def split: phase.split option.split sum.split)
qed (auto simp: reader_turn_def remote_interval_def closing_task_begins_def Let_def messages_sent initiate_close_fields
    intro: close_emits emits_same split: option.split)

lemma turns_reader:
  "s_reader (fold sstep (replicate k ReaderTurn) s) =
     map_option (reader_run deserialize (\<lambda>_. True) (replicate k Tick)) (s_reader s)"
proof (induction k arbitrary: s)
  case 0
  show ?case by (simp add: reader_run_def option.map_ident)
next
  case (Suc k)
  have "s_reader (sstep ReaderTurn s) = map_option (process_tick deserialize (\<lambda>_. True)) (s_reader s)"
    using step_reader [of ReaderTurn s] by (simp add: reader_effect_def)
  with Suc [of "sstep ReaderTurn s"] show ?case
    by (simp add: option.map_comp comp_def)
qed

text \<open>With as many turns as there are bytes unread, all of them are in the queue.\<close>

lemma turns_queue_all:
  assumes "endpoint nx inp s" "s_reader s = Some r" "alive r" "length (rview r) \<le> k"
  shows "let s' = fold sstep (replicate k ReaderTurn) s
    in endpoint nx inp s' \<and> q_taken (s_queue s') @ q_msg_queue (s_queue s') = stream nx (\<lambda>_. True) inp"
proof -
  have ep: "endpoint nx inp (fold sstep (replicate k ReaderTurn) s)"
    using assms(1) by (induction k arbitrary: s) (simp_all add: endpoint_turn del: session_step.simps)
  moreover have "s_reader (fold sstep (replicate k ReaderTurn) s) =
      Some (reader_run deserialize (\<lambda>_. True) (replicate k Tick) r)"
    using turns_reader [of k s] unfolding assms(2) option.map .
  moreover have "delivered (reader_run deserialize (\<lambda>_. True) (replicate k Tick) r) = stream nx (\<lambda>_. True) inp"
    using assms by (intro ticks_deliver_all) (auto simp: endpoint_def receives_def sound_def)
  ultimately show ?thesis by (auto simp: Let_def endpoint_def receives_def)
qed

lemma turns_dispatchers:
  "q_dispatchers (s_queue (fold sstep (replicate k ReaderTurn) s)) = q_dispatchers (s_queue s)"
proof (induction k arbitrary: s)
  case (Suc k)
  have "q_dispatchers (s_queue (sstep ReaderTurn s)) = q_dispatchers (s_queue s)"
    by (auto simp: reader_turn_def Let_def messages_queue puts_dispatchers split: option.split)
  with Suc show ?case by simp
qed simp

end

text \<open>Both ends of a SoupBinTCP connection are such sessions.\<close>

lemma or_same_send_queue:
  "s_queue (or_same s (send_msg m s)) = s_queue s" "s_closing_task (or_same s (send_msg m s)) = s_closing_task s"
  by (cases "send_msg m s"; auto simp: or_same_def send_msg_def Let_def result_simps split: if_splits)+

lemma send_sent: "send_msg m s = Inr s' \<Longrightarrow> s_sent s' = s_sent s @ [Wrote (soup_bytes m)]"
  by (auto simp: send_msg_def soup_bytes_def Let_def result_simps split: if_splits)

lemma send_emits: "emits (soup_bytes m) s (or_same s (send_msg m s))"
  by (cases "send_msg m s") (auto simp: or_same_def emits_def send_sent)

lemma send_close_emits: "emits (soup_bytes m) s (or_same s (rbind (send_msg m s) (\<lambda>s1. Inr (initiate_close d s1))))"
  by (cases "send_msg m s") (auto simp: or_same_def emits_def send_sent initiate_close_fields)

interpretation client_end: receiving_session soup_deserialize soup_next client_on_message client_send_heartbeat
  "soup_bytes ClientHeartbeat"
  by unfold_locales (simp_all add: send_emits client_on_message_def async_on_message_def client_send_heartbeat_def or_same_send_queue)

interpretation server_end: receiving_session soup_deserialize soup_next async_on_message server_send_heartbeat
  "soup_bytes ServerHeartbeat"
  by unfold_locales (simp_all add: send_emits async_on_message_def server_send_heartbeat_def or_same_send_queue)

section \<open>The connection\<close>

text \<open>The two ends, the bytes that are on their way down to the client and up to the server, and
  logs of the messages written into each direction.\<close>

record 'm world =
  w_server :: soup_session
  w_down :: bytes
  w_down_log :: "SoupMessage list"
  w_app :: "'m app_session"
  w_up :: bytes
  w_up_log :: "SoupMessage list"

abbreviation w_client :: "'m world \<Rightarrow> soup_session" where
  "w_client w \<equiv> app_soup (w_app w)"

definition new_bytes :: "sent list \<Rightarrow> sent list \<Rightarrow> bytes" where
  "new_bytes old new = drop (length (carried old)) (carried new)"

text \<open>Something that an end does; what it writes, if it writes, is the messages \<open>ms\<close>.\<close>

definition server_does ::
  "SoupMessage list \<Rightarrow> (soup_session \<Rightarrow> soup_session) \<Rightarrow> 'm world \<Rightarrow> 'm world" where
  "server_does ms f w =
     (let s = w_server w; new = new_bytes (s_sent s) (s_sent (f s))
      in w\<lparr>w_server := f s, w_down := w_down w @ new,
           w_down_log := w_down_log w @ (if new = [] then [] else ms)\<rparr>)"

definition client_does ::
  "SoupMessage list \<Rightarrow> ('m app_session \<Rightarrow> 'm app_session) \<Rightarrow> 'm world \<Rightarrow> 'm world" where
  "client_does ms f w =
     (let a = w_app w; new = new_bytes (s_sent (app_soup a)) (s_sent (app_soup (f a)))
      in w\<lparr>w_app := f a, w_up := w_up w @ new,
           w_up_log := w_up_log w @ (if new = [] then [] else ms)\<rparr>)"

text \<open>The dispatcher of the client session takes a message, which the application's
  \<open>_on_soup_message\<close> handles.\<close>

definition app_dispatch :: "'m unpacker \<Rightarrow> nat \<Rightarrow> 'm app_session \<Rightarrow> 'm app_session" where
  "app_dispatch dec d a =
     (let s = app_soup a; q = s_queue s
      in case (map_of (q_dispatchers q) d, q_msg_queue q) of
           (Some Idle, m # ms) \<Rightarrow>
             (case on_soup_message dec m (a\<lparr>app_soup := s\<lparr>s_queue := dispatcher_takes d q\<rparr>\<rparr>) of
                (a1, e) \<Rightarrow>
                  let s1 = app_soup a1
                  in a1\<lparr>app_soup := s1\<lparr>s_queue := handler_ends d (if e = None then Returns else Raises) (s_queue s1)\<rparr>\<rparr>)
         | _ \<Rightarrow> a)"

text \<open>An event of the client session; when closing calls \<open>on_close_coro\<close>, that is \<open>_on_soup_close\<close>.\<close>

definition app_soup_event :: "SoupMessage sevent \<Rightarrow> 'm app_session \<Rightarrow> 'm app_session" where
  "app_soup_event e a =
     (let s = app_soup a; s1 = session_step soup_deserialize client_on_message client_send_heartbeat e s;
          a1 = a\<lparr>app_soup := s1\<rparr>
      in if s_phase s = CallOnClose \<and> e = CloseStep \<and> s_on_close_coro s = Some app_on_close
         then on_soup_close a1 else a1)"

text \<open>What the connection is used for: the application with its codec, and the server's \<open>on_login\<close>.\<close>

record 'm application =
  ap_protocol :: protocol
  ap_decode :: "'m unpacker"
  ap_encode :: "'m packer"
  ap_truth :: "'m \<Rightarrow> bool"
  ap_on_login :: "SoupMessage \<Rightarrow> SoupMessage"

datatype 'm world_event =
    ServerSends bytes | ServerDebugs pystr | ServerEnds | ServerDoes "SoupMessage sevent"
  | ServerGets nat | ServerDispatches nat
  | AppSends 'm | ClientLogsOut | AppCloses | ClientDoes "SoupMessage sevent" | ClientGets nat
  | AppDispatches nat | AppQueue "'m mevent"

fun world_step :: "'m application \<Rightarrow> 'm world_event \<Rightarrow> 'm world \<Rightarrow> 'm world" where
  "world_step ap (ServerSends d) w = server_does [SequencedData d] (\<lambda>s. or_same s (send_seq_msg d s)) w"
| "world_step ap (ServerDebugs t) w = server_does [Debug t] (\<lambda>s. or_same s (send_debug t s)) w"
| "world_step ap ServerEnds w = server_does [EndOfSession] (\<lambda>s. or_same s (end_session s)) w"
| "world_step ap (ServerDoes e) w =
     server_does [ServerHeartbeat] (session_step soup_deserialize async_on_message server_send_heartbeat e) w"
| "world_step ap (ServerGets n) w =
     w\<lparr>w_server := or_same (w_server w) (data_received (take n (w_up w)) (w_server w)), w_up := drop n (w_up w)\<rparr>"
| "world_step ap (ServerDispatches d) w =
     server_does [ap_on_login ap (hd (q_msg_queue (s_queue (w_server w))))] (server_dispatch (ap_on_login ap) d) w"
| "world_step ap (AppSends m) w =
     (case ap_encode ap m of
        Inl e \<Rightarrow> w
      | Inr (_, bs) \<Rightarrow>
          client_does [UnSequencedData bs] (\<lambda>a. or_same a (send_message (ap_protocol ap) (ap_encode ap) m a)) w)"
| "world_step ap ClientLogsOut w =
     client_does [LogoutRequest] (\<lambda>a. a\<lparr>app_soup := or_same (app_soup a) (logout (app_soup a))\<rparr>) w"
| "world_step ap AppCloses w = client_does [] (\<lambda>a. fst (app_close a)) w"
| "world_step ap (ClientDoes e) w = client_does [ClientHeartbeat] (app_soup_event e) w"
| "world_step ap (ClientGets n) w =
     w\<lparr>w_app := (w_app w)\<lparr>app_soup := or_same (w_client w) (data_received (take n (w_down w)) (w_client w))\<rparr>,
       w_down := drop n (w_down w)\<rparr>"
| "world_step ap (AppDispatches d) w = client_does [] (app_dispatch (ap_decode ap) d) w"
| "world_step ap (AppQueue e) w =
     w\<lparr>w_app := (w_app w)\<lparr>app_queue := mq_step (ap_truth ap) e (app_queue (w_app w))\<rparr>\<rparr>"

text \<open>The runs considered: payloads and texts that fit into a message, no draining, and only the
  session puts into the queue of the application.\<close>

fun allowed :: "'m application \<Rightarrow> 'm world_event \<Rightarrow> bool" where
  "allowed ap (ServerSends d) = valid_soup (SequencedData d)"
| "allowed ap (ServerDebugs t) = valid_soup (Debug t)"
| "allowed ap (ServerDoes e) = plain_event e"
| "allowed ap (ServerDispatches d) = (\<forall>m. valid_soup (ap_on_login ap m))"
| "allowed ap (AppSends m) = (case ap_encode ap m of Inl e \<Rightarrow> True | Inr (_, bs) \<Rightarrow> valid_soup (UnSequencedData bs))"
| "allowed ap (ClientDoes e) = plain_event e"
| "allowed ap (AppQueue e) = (\<nexists>m. e = Put m)"
| "allowed ap _ = True"

section \<open>The invariant\<close>

text \<open>What is on its way, and what arrived before: \<open>inp\<close>.\<close>

definition link :: "bytes \<Rightarrow> SoupMessage list \<Rightarrow> sent list \<Rightarrow> bytes \<Rightarrow> bool" where
  "link wire log sent inp \<longleftrightarrow>
     carried sent = inp @ wire \<and> carried sent = soup_encode_all log \<and> list_all valid_soup log"

lemma link_writes:
  assumes "link wire log (s_sent s) inp" "emits (soup_encode_all ms) s s'" "list_all valid_soup ms"
  shows "link (wire @ new_bytes (s_sent s) (s_sent s'))
    (log @ (if new_bytes (s_sent s) (s_sent s') = [] then [] else ms)) (s_sent s') inp"
proof -
  from assms(2) obtain xs where xs: "s_sent s' = s_sent s @ xs" "carried xs = [] \<or> carried xs = soup_encode_all ms"
    by (auto simp: emits_def)
  have new: "carried (s_sent s') = carried (s_sent s) @ new_bytes (s_sent s) (s_sent s')"
    by (simp add: new_bytes_def xs carried_append)
  have "new_bytes (s_sent s) (s_sent s') = [] \<or> new_bytes (s_sent s) (s_sent s') = soup_encode_all ms"
    using xs(2) by (auto simp: new_bytes_def xs(1) carried_append)
  with assms(1,3) new show ?thesis
    by (auto simp: link_def soup_encode_all_def)
qed

text \<open>Both directions are consistent: what an end has received is an initial part of what the other
  has written, and the rest is on its way.\<close>

definition connected :: "'m world \<Rightarrow> bool" where
  "connected w \<longleftrightarrow>
     (\<exists>inp. link (w_down w) (w_down_log w) (s_sent (w_server w)) inp \<and> endpoint soup_next inp (w_client w)) \<and>
     (\<exists>inp. link (w_up w) (w_up_log w) (s_sent (w_client w)) inp \<and> endpoint soup_next inp (w_server w))"

text \<open>The bytes of the unsequenced messages.\<close>

fun payloads :: "SoupMessage list \<Rightarrow> bytes list" where
  "payloads [] = []"
| "payloads (UnSequencedData d # ms) = d # payloads ms"
| "payloads (_ # ms) = payloads ms"

definition numbered :: "SoupMessage list \<Rightarrow> int" where
  "numbered ms = int (length (filter is_sequenced ms))"

definition held :: "soup_session \<Rightarrow> SoupMessage list" where
  "held s = q_taken (s_queue s) @ q_msg_queue (s_queue s)"

lemma endpoint_same:
  "endpoint nx inp s \<Longrightarrow> s_reader s' = s_reader s \<Longrightarrow> undrained s' \<Longrightarrow> held s' = held s \<Longrightarrow> endpoint nx inp s'"
  by (auto simp: endpoint_def receives_def held_def)

section \<open>What the operations do\<close>

text \<open>\<open>calm\<close>: nothing is received, taken or counted.\<close>

definition calm :: "soup_session \<Rightarrow> soup_session \<Rightarrow> bool" where
  "calm s s' \<longleftrightarrow> s_reader s' = s_reader s \<and> (undrained s \<longrightarrow> undrained s') \<and> s_queue s' = s_queue s \<and>
     unsequenced s' = unsequenced s"

lemma calm_endpoint: "calm s s' \<Longrightarrow> endpoint nx inp s \<Longrightarrow> endpoint nx inp s'"
  by (rule endpoint_same) (auto simp: calm_def endpoint_def held_def)

lemma send_calm: "send_msg m s = Inr s' \<Longrightarrow> calm s s'"
  by (auto simp: calm_def send_msg_def undrained_def Let_def result_simps split: if_splits)

lemma calm_initiate_close: "calm s s' \<Longrightarrow> calm s (initiate_close False s')"
  by (auto simp: calm_def initiate_close_def undrained_def)

lemma calm_send: "calm s (or_same s (send_msg m s))"
  by (cases "send_msg m s") (simp_all add: or_same_def send_calm, simp add: calm_def)

lemma calm_send_close: "calm s (or_same s (rbind (send_msg m s) (\<lambda>s1. Inr (initiate_close False s1))))"
  by (cases "send_msg m s") (simp_all add: or_same_def calm_initiate_close send_calm, simp add: calm_def)

lemma calm_close_enter: "calm s s' \<Longrightarrow> calm s (close_enter False s')"
  by (auto simp: calm_def close_enter_def undrained_def)

lemma calm_trans: "calm s s' \<Longrightarrow> calm s' s'' \<Longrightarrow> calm s s''"
  by (simp add: calm_def)

lemma calm_login_state:
  "calm s ((sid_update m s)\<lparr>logged_in := b\<rparr>) \<and> s_sent ((sid_update m s)\<lparr>logged_in := b\<rparr>) = s_sent s"
  "calm s (sid_update m s) \<and> s_sent (sid_update m s) = s_sent s"
  by (cases m; simp add: calm_def undrained_def)+

lemma heartbeats_calm: "start_heartbeats a b s = Inr s' \<Longrightarrow> calm s s' \<and> s_sent s' = s_sent s"
  by (auto simp: start_heartbeats_def result_simps calm_def undrained_def)

lemma handle_login_effect:
  "calm s (fst (handle_login on_login m s)) \<and> emits (soup_bytes (on_login m)) s (fst (handle_login on_login m s))"
proof (cases "send_msg (on_login m) s")
  case (Inl e)
  then show ?thesis by (simp add: handle_login_def calm_def emits_same)
next
  case (Inr s1)
  then have s1: "calm s s1" "emits (soup_bytes (on_login m)) s s1"
    using calm_send [of s "on_login m"] send_emits [of "on_login m" s] by (simp_all add: or_same_def)
  let ?s2 = "(sid_update (on_login m) s1)\<lparr>logged_in := True\<rparr>"
  let ?ok = "\<lambda>t. calm s t \<and> emits (soup_bytes (on_login m)) s t"
  have s2: "?ok t" if "t = ?s2 \<or> start_heartbeats a b ?s2 = Inr t" for t a b
  proof -
    have "calm s1 t \<and> s_sent t = s_sent s1"
      using that calm_login_state(1) [where s = s1 and m = "on_login m" and b = True] heartbeats_calm [of a b ?s2 t]
      by (elim disjE) (auto intro: calm_trans)
    with s1 show ?thesis by (auto intro: calm_trans emits_then)
  qed
  show ?thesis
  proof (cases "logged_in s")
    case True
    then show ?thesis by (simp add: handle_login_def calm_def emits_same)
  next
    case False
    have "fst (handle_login on_login m s) = close_enter False s1 \<or>
        (\<exists>t a b. (t = ?s2 \<or> start_heartbeats a b ?s2 = Inr t) \<and> fst (handle_login on_login m s) = t)"
      using False Inr by (cases "on_login m") (auto simp: handle_login_def Let_def split: sum.split)
    moreover have "?ok (close_enter False s1)" using s1 by (simp add: calm_close_enter emits_close)
    ultimately show ?thesis using s2 by metis
  qed
qed

lemma server_on_msg_effect:
  assumes "s' = fst (server_on_msg on_login m s)"
  shows "s_reader s' = s_reader s \<and> (undrained s \<longrightarrow> undrained s') \<and> s_queue s' = s_queue s \<and>
    unsequenced s' = unsequenced s @ payloads [m] \<and> emits (soup_bytes (on_login m)) s s'"
proof (cases m)
  case (LoginRequest u p i q)
  let ?s = "sid_update m s"
  from handle_login_effect [of ?s on_login m] calm_login_state(2) [where s = s and m = m]
  have "calm s (fst (handle_login on_login m ?s)) \<and> emits (soup_bytes (on_login m)) s (fst (handle_login on_login m ?s))"
    by (auto intro: calm_trans emits_from)
  with LoginRequest assms show ?thesis by (simp add: calm_def)
next
  case LogoutRequest
  have "calm s (close_enter False s)" by (rule calm_close_enter) (simp add: calm_def)
  with LogoutRequest assms close_emits [of s s] show ?thesis by (simp add: calm_def)
qed (use assms in \<open>simp_all add: emits_same undrained_def\<close>)

lemma takes_effect:
  assumes "map_of (q_dispatchers q) d = Some Idle" "q_msg_queue q = m # ms"
  shows "q_taken (dispatcher_takes d q) = q_taken q @ [m]" "q_msg_queue (dispatcher_takes d q) = ms"
    "q_buffer_msg_queue (dispatcher_takes d q) = q_buffer_msg_queue q"
  using assms by (simp_all add: dispatcher_takes_def pop_def)

lemma handler_ends_effect:
  "q_taken (handler_ends d oc q) = q_taken q" "q_msg_queue (handler_ends d oc q) = q_msg_queue q"
  "q_buffer_msg_queue (handler_ends d oc q) = q_buffer_msg_queue q"
  using same_store_tasks(6) [of q d oc] by (simp_all add: same_store_def)

text \<open>What the dispatching of a server and of a client amounts to: the messages \<open>ys\<close> are handled.\<close>

lemma server_dispatch_effect:
  assumes "endpoint nx inp s"
  shows "endpoint nx inp (server_dispatch on_login d s) \<and> held (server_dispatch on_login d s) = held s \<and>
    emits (soup_bytes (on_login (hd (q_msg_queue (s_queue s))))) s (server_dispatch on_login d s) \<and>
    (\<exists>ys. q_taken (s_queue (server_dispatch on_login d s)) = q_taken (s_queue s) @ ys \<and>
       unsequenced (server_dispatch on_login d s) = unsequenced s @ payloads ys)"
proof (cases "map_of (q_dispatchers (s_queue s)) d = Some Idle \<and> q_msg_queue (s_queue s) \<noteq> []")
  case False
  then have "server_dispatch on_login d s = s"
    by (auto simp: server_dispatch_def split: option.split dispatcher.split list.split)
  with assms show ?thesis by (auto simp: emits_same intro!: exI [of _ "[]"])
next
  case True
  then obtain m ms where q: "map_of (q_dispatchers (s_queue s)) d = Some Idle" "q_msg_queue (s_queue s) = m # ms"
    by (auto simp: neq_Nil_conv)
  note t = takes_effect [OF q]
  let ?s = "s\<lparr>s_queue := dispatcher_takes d (s_queue s)\<rparr>"
  obtain s1 e where s1: "server_on_msg on_login m ?s = (s1, e)" by (cases "server_on_msg on_login m ?s")
  let ?q = "handler_ends d (if e = None then Returns else Raises) (s_queue s1)"
  have eff: "s_reader s1 = s_reader s" "undrained ?s \<longrightarrow> undrained s1"
    "s_queue s1 = dispatcher_takes d (s_queue s)" "unsequenced s1 = unsequenced s @ payloads [m]"
    "emits (soup_bytes (on_login m)) s s1"
    using server_on_msg_effect [of s1 on_login m ?s] s1 by (auto intro: emits_from)
  have r: "server_dispatch on_login d s = s1\<lparr>s_queue := ?q\<rparr>"
    using q s1 by (simp add: server_dispatch_def)
  have "undrained s" using assms by (simp add: endpoint_def)
  with eff(2,3) t(3) have "undrained (s1\<lparr>s_queue := ?q\<rparr>)"
    by (simp add: undrained_def handler_ends_effect)
  moreover have h: "held (s1\<lparr>s_queue := ?q\<rparr>) = held s"
    using eff(3) t q by (simp add: held_def handler_ends_effect)
  ultimately have "endpoint nx inp (s1\<lparr>s_queue := ?q\<rparr>)"
    using eff(1) by (intro endpoint_same [OF assms]) simp_all
  with h eff t q show ?thesis
    unfolding r by (auto simp: handler_ends_effect intro: emits_then intro!: exI [of _ "[m]"])
qed

lemma app_dispatch_effect:
  fixes a :: "'m app_session"
  assumes "endpoint nx inp (app_soup a)"
  shows "endpoint nx inp (app_soup (app_dispatch dec d a)) \<and>
    s_sent (app_soup (app_dispatch dec d a)) = s_sent (app_soup a) \<and>
    held (app_soup (app_dispatch dec d a)) = held (app_soup a) \<and>
    sequence (app_soup (app_dispatch dec d a)) = sequence (app_soup a) \<and>
    (\<exists>xs. q_taken (s_queue (app_soup (app_dispatch dec d a))) = q_taken (s_queue (app_soup a)) @ xs \<and>
       q_accepted (app_queue (app_dispatch dec d a)) = q_accepted (app_queue a) @ decoded dec xs)"
proof (cases "map_of (q_dispatchers (s_queue (app_soup a))) d = Some Idle \<and> q_msg_queue (s_queue (app_soup a)) \<noteq> []")
  case False
  then have "app_dispatch dec d a = a"
    by (auto simp: app_dispatch_def Let_def split: option.split dispatcher.split list.split)
  with assms show ?thesis by (auto intro!: exI [of _ "[]"])
next
  case True
  let ?q = "s_queue (app_soup a)"
  from True obtain m ms where q: "map_of (q_dispatchers ?q) d = Some Idle" "q_msg_queue ?q = m # ms"
    by (auto simp: neq_Nil_conv)
  note t = takes_effect [OF q]
  let ?a = "a\<lparr>app_soup := (app_soup a)\<lparr>s_queue := dispatcher_takes d ?q\<rparr>\<rparr>"
  obtain a1 e where a1: "on_soup_message dec m ?a = (a1, e)" by (cases "on_soup_message dec m ?a")
  have eff: "app_soup a1 = app_soup ?a" "q_accepted (app_queue a1) = q_accepted (app_queue a) @ decoded dec [m]"
    using handle_all_soup [of dec "[m]" ?a] handle_all_accepted [of dec "[m]" ?a] a1
    by (simp_all add: handle_all_def)
  let ?s = "(app_soup a)\<lparr>s_queue := handler_ends d (if e = None then Returns else Raises) (dispatcher_takes d ?q)\<rparr>"
  have r: "app_soup (app_dispatch dec d a) = ?s" "app_queue (app_dispatch dec d a) = app_queue a1"
    using q a1 eff(1) by (simp_all add: app_dispatch_def Let_def)
  have "undrained ?s" using assms t(3) by (simp add: endpoint_def undrained_def handler_ends_effect)
  moreover have h: "held ?s = held (app_soup a)" using t q by (simp add: held_def handler_ends_effect)
  ultimately have "endpoint nx inp ?s" by (intro endpoint_same [OF assms]) simp_all
  with h t(1) eff(2) show ?thesis
    unfolding r by (auto simp: handler_ends_effect intro!: exI [of _ "[m]"])
qed

section \<open>Every step keeps the connection consistent\<close>

definition app_progress :: "'m unpacker \<Rightarrow> 'm app_session \<Rightarrow> 'm app_session \<Rightarrow> bool" where
  "app_progress dec a a' \<longleftrightarrow>
     (\<exists>xs. q_taken (s_queue (app_soup a')) = q_taken (s_queue (app_soup a)) @ xs \<and>
        q_accepted (app_queue a') = q_accepted (app_queue a) @ decoded dec xs) \<and>
     (\<exists>ds. held (app_soup a') = held (app_soup a) @ ds \<and>
        sequence (app_soup a') = sequence (app_soup a) + numbered ds)"

definition server_progress :: "soup_session \<Rightarrow> soup_session \<Rightarrow> bool" where
  "server_progress s s' \<longleftrightarrow>
     (\<exists>ys. q_taken (s_queue s') = q_taken (s_queue s) @ ys \<and> unsequenced s' = unsequenced s @ payloads ys)"

lemma decoded_append: "decoded dec (xs @ ys) = decoded dec xs @ decoded dec ys"
  by (induction dec xs rule: decoded.induct) (auto split: sum.split)

lemma payloads_append: "payloads (xs @ ys) = payloads xs @ payloads ys"
  by (induction xs rule: payloads.induct) simp_all

lemma numbered_append: "numbered (xs @ ys) = numbered xs + numbered ys"
  by (simp add: numbered_def)

lemma app_progress_trans: "app_progress dec a b \<Longrightarrow> app_progress dec b c \<Longrightarrow> app_progress dec a c"
  by (force simp: app_progress_def decoded_append numbered_append)

lemma server_progress_trans: "server_progress s t \<Longrightarrow> server_progress t u \<Longrightarrow> server_progress s u"
  by (force simp: server_progress_def payloads_append)

lemma app_progress_same:
  "q_accepted (app_queue a') = q_accepted (app_queue a) \<Longrightarrow> s_queue (app_soup a') = s_queue (app_soup a) \<Longrightarrow>
   sequence (app_soup a') = sequence (app_soup a) \<Longrightarrow> app_progress dec a a'"
  by (auto simp: app_progress_def held_def numbered_def intro!: exI [of _ "[]"])

lemma server_progress_same:
  "q_taken (s_queue s') = q_taken (s_queue s) \<Longrightarrow> unsequenced s' = unsequenced s \<Longrightarrow> server_progress s s'"
  by (auto simp: server_progress_def intro!: exI [of _ "[]"])

lemma server_event_progress:
  assumes "undrained s" "plain_event e"
  shows "server_progress s (session_step soup_deserialize async_on_message server_send_heartbeat e s)"
proof (rule server_progress_same)
  have msgs: "unsequenced (fold async_on_message ms t) = unsequenced t" for ms and t :: soup_session
    by (induction ms arbitrary: t) (simp_all add: async_on_message_def)
  have beat: "unsequenced (server_send_heartbeat t) = unsequenced t" for t
    using calm_send [of t ServerHeartbeat] by (simp add: server_send_heartbeat_def calm_def)
  show "unsequenced (session_step soup_deserialize async_on_message server_send_heartbeat e s) = unsequenced s"
  proof (cases e)
    case CloseStep
    then show ?thesis
      by (auto simp: close_step_def Let_def split: phase.split option.split sum.split)
  qed (use assms(2) in \<open>auto simp: reader_turn_def local_interval_def remote_interval_def initiate_close_def
      close_enter_def closing_task_begins_def Let_def msgs beat split: option.split\<close>)
  show "q_taken (s_queue (session_step soup_deserialize async_on_message server_send_heartbeat e s)) = q_taken (s_queue s)"
    by (rule server_end.step_taken [OF assms])
qed

lemma client_event_progress:
  assumes "undrained s" "plain_event e"
  shows "\<exists>ds. held (session_step soup_deserialize client_on_message client_send_heartbeat e s) = held s @ ds \<and>
    sequence (session_step soup_deserialize client_on_message client_send_heartbeat e s) = sequence s + numbered ds"
proof (cases e)
  case ReaderTurn
  show ?thesis
  proof (cases "s_reader s")
    case None
    with ReaderTurn show ?thesis by (simp add: reader_turn_def numbered_def)
  next
    case (Some r)
    let ?r = "process_tick soup_deserialize (\<lambda>_. True) r"
    let ?ms = "drop (length (delivered r)) (delivered ?r)" and ?s = "s\<lparr>s_reader := Some ?r\<rparr>"
    have "s_queue (fold client_on_message ?ms ?s) = fold put ?ms (s_queue s)"
      by (simp add: client_end.messages_queue)
    then have "held (fold client_on_message ?ms ?s) = held s @ ?ms"
      using put_all [of "s_queue s" ?ms] assms(1) by (simp add: held_def undrained_def)
    moreover have "sequence (fold client_on_message ?ms ?s) = sequence s + numbered ?ms"
      using client_on_messages [of ?ms ?s] by (simp add: numbered_def)
    moreover have "held (close_enter False t) = held t" "sequence (close_enter False t) = sequence t" for t
      by (simp_all add: close_enter_def held_def)
    ultimately show ?thesis using ReaderTurn Some by (auto simp: reader_turn_def Let_def)
  qed
next
  case LocalInterval
  have "held (client_send_heartbeat t) = held t \<and> sequence (client_send_heartbeat t) = sequence t" for t
    by (cases "send_msg ClientHeartbeat t")
      (auto simp: client_send_heartbeat_def or_same_def held_def send_msg_def Let_def result_simps split: if_splits)
  with LocalInterval show ?thesis
    by (auto simp: local_interval_def Let_def held_def numbered_def split: option.split)
next
  case CloseStep
  with assms(1) show ?thesis
    by (auto simp: close_step_def Let_def undrained_def held_def stop_keeps numbered_def)
qed (use assms in \<open>auto simp: remote_interval_def initiate_close_def close_enter_def closing_task_begins_def
      held_def numbered_def Let_def split: option.split intro!: exI [of _ "[]"]\<close>)

text \<open>What a step of an end has to respect, and that the connection is then consistent.\<close>

definition server_respects :: "SoupMessage list \<Rightarrow> soup_session \<Rightarrow> soup_session \<Rightarrow> bool" where
  "server_respects ms s s' \<longleftrightarrow> emits (soup_encode_all ms) s s' \<and> server_progress s s' \<and>
     (\<forall>inp. endpoint soup_next inp s \<longrightarrow> endpoint soup_next inp s')"

definition client_respects :: "'m unpacker \<Rightarrow> SoupMessage list \<Rightarrow> 'm app_session \<Rightarrow> 'm app_session \<Rightarrow> bool" where
  "client_respects dec ms a a' \<longleftrightarrow> emits (soup_encode_all ms) (app_soup a) (app_soup a') \<and> app_progress dec a a' \<and>
     (\<forall>inp. endpoint soup_next inp (app_soup a) \<longrightarrow> endpoint soup_next inp (app_soup a'))"

definition world_progress :: "'m unpacker \<Rightarrow> 'm world \<Rightarrow> 'm world \<Rightarrow> bool" where
  "world_progress dec w w' \<longleftrightarrow> connected w' \<and> app_progress dec (w_app w) (w_app w') \<and>
     server_progress (w_server w) (w_server w')"

lemma progress_refl: "app_progress dec a a" "server_progress s s"
  by (simp_all add: app_progress_same server_progress_same)

lemma server_step_progress:
  assumes "connected w" "list_all valid_soup ms" "server_respects ms (w_server w) (f (w_server w))"
  shows "world_progress dec w (server_does ms f w)"
proof -
  from assms(1) obtain i j where
    i: "link (w_down w) (w_down_log w) (s_sent (w_server w)) i" "endpoint soup_next i (w_client w)" and
    j: "link (w_up w) (w_up_log w) (s_sent (w_client w)) j" "endpoint soup_next j (w_server w)"
    by (auto simp: connected_def)
  from link_writes [OF i(1) _ assms(2), of "f (w_server w)"] assms(3) i(2) j
  show ?thesis
    by (auto simp: world_progress_def connected_def server_does_def server_respects_def Let_def progress_refl)
qed

lemma client_does_connected:
  assumes "connected w" "list_all valid_soup ms"
    and "emits (soup_encode_all ms) (w_client w) (app_soup (f (w_app w)))"
    and "\<And>inp. endpoint soup_next inp (w_client w) \<Longrightarrow> endpoint soup_next inp (app_soup (f (w_app w)))"
  shows "connected (client_does ms f w)"
proof -
  from assms(1) obtain i j where
    i: "link (w_down w) (w_down_log w) (s_sent (w_server w)) i" "endpoint soup_next i (w_client w)" and
    j: "link (w_up w) (w_up_log w) (s_sent (w_client w)) j" "endpoint soup_next j (w_server w)"
    by (auto simp: connected_def)
  from link_writes [OF j(1) assms(3,2)] assms(4) [OF i(2)] j(2) i show ?thesis
    by (auto simp: connected_def client_does_def Let_def)
qed

lemma client_step_progress:
  assumes "connected w" "list_all valid_soup ms" "client_respects dec ms (w_app w) (f (w_app w))"
  shows "world_progress dec w (client_does ms f w)"
  using client_does_connected [OF assms(1,2)] assms(3)
  by (simp add: world_progress_def client_respects_def progress_refl) (simp add: client_does_def Let_def progress_refl)

lemma link_gets: "link wire log sent inp \<Longrightarrow> link (drop n wire) log sent (inp @ take n wire)"
  by (auto simp: link_def)

lemma data_sent: "s_sent (or_same s (data_received bs s)) = s_sent s"
  "s_queue (or_same s (data_received bs s)) = s_queue s"
  "sequence (or_same s (data_received bs s)) = sequence s"
  "unsequenced (or_same s (data_received bs s)) = unsequenced s" for s :: soup_session
  by (auto simp: or_same_def data_received_def Let_def split: sum.split option.split)

lemma server_gets_progress:
  assumes "connected w"
  shows "world_progress dec w (world_step ap (ServerGets n) w)"
proof -
  from assms obtain i j where
    i: "link (w_down w) (w_down_log w) (s_sent (w_server w)) i" "endpoint soup_next i (w_client w)" and
    j: "link (w_up w) (w_up_log w) (s_sent (w_client w)) j" "endpoint soup_next j (w_server w)"
    by (auto simp: connected_def)
  from link_gets [OF j(1), of n] server_end.endpoint_data [OF j(2), of "take n (w_up w)"] i show ?thesis
    by (auto simp: world_progress_def connected_def data_sent progress_refl server_progress_same)
qed

lemma client_gets_progress:
  assumes "connected w"
  shows "world_progress dec w (world_step ap (ClientGets n) w)"
proof -
  from assms obtain i j where
    i: "link (w_down w) (w_down_log w) (s_sent (w_server w)) i" "endpoint soup_next i (w_client w)" and
    j: "link (w_up w) (w_up_log w) (s_sent (w_client w)) j" "endpoint soup_next j (w_server w)"
    by (auto simp: connected_def)
  from link_gets [OF i(1), of n] client_end.endpoint_data [OF i(2), of "take n (w_down w)"] j show ?thesis
    by (auto simp: world_progress_def connected_def data_sent progress_refl app_progress_same)
qed

lemma put_accepts_only:
  "\<nexists>m. e = Put m \<Longrightarrow> q_accepted (mq_step tr e q) = q_accepted q"
proof (cases e)
  case (Get r)
  with get_store [of q tr r] show ?thesis by (auto simp: same_store_def pop_def)
next
  case ReadingRuns
  with taking_steps(1) [of q] show ?thesis by (auto simp: same_store_def pop_def)
next
  case (Takes d)
  with taking_steps(2) [of q d] show ?thesis by (auto simp: same_store_def pop_def)
qed (use task_steps [of q] in
    \<open>auto simp: get_nowait_def pop_def or_unchanged_def buffer_enter_def same_store_def queue_simps
      split: option.splits list.splits\<close>)

lemma calm_server: "calm s s' \<Longrightarrow> emits (soup_encode_all ms) s s' \<Longrightarrow> server_respects ms s s'"
  using calm_endpoint by (auto simp: server_respects_def calm_def server_progress_same)

lemma calm_client:
  "calm (app_soup a) (app_soup a') \<Longrightarrow> emits (soup_encode_all ms) (app_soup a) (app_soup a') \<Longrightarrow>
   sequence (app_soup a') = sequence (app_soup a) \<Longrightarrow> app_queue a' = app_queue a \<Longrightarrow> client_respects dec ms a a'"
  using calm_endpoint by (auto simp: client_respects_def calm_def app_progress_same)

lemma soup_encode_one [simp]: "soup_encode_all [m] = soup_bytes m"
  by (simp add: soup_encode_all_def)

lemma send_sequence: "\<not> is_sequenced m \<Longrightarrow> send_msg m s = Inr s' \<Longrightarrow> sequence s' = sequence s"
  by (auto simp: send_msg_def Let_def result_simps split: if_splits)

lemma app_sends_respects:
  assumes "ap_encode ap m = Inr (n, bs)"
  shows "client_respects dec [UnSequencedData bs] a (or_same a (send_message p (ap_encode ap) m a))"
proof (cases "send_msg (UnSequencedData bs) (app_soup a)")
  case (Inl e)
  with assms have "or_same a (send_message p (ap_encode ap) m a) = a"
    by (cases p) (simp_all add: send_message_def send_unseq_data_def or_same_def)
  then show ?thesis by (intro calm_client) (simp_all add: calm_def emits_same)
next
  case (Inr s)
  then have "or_same a (send_message p (ap_encode ap) m a) = a \<or>
      or_same a (send_message p (ap_encode ap) m a) = a\<lparr>app_soup := s\<rparr>"
    using assms by (cases p) (simp_all add: send_message_def send_unseq_data_def or_same_def)
  moreover have "calm (app_soup a) s" "emits (soup_bytes (UnSequencedData bs)) (app_soup a) s"
    using calm_send [of "app_soup a" "UnSequencedData bs"] send_emits [of "UnSequencedData bs" "app_soup a"] Inr
    by (simp_all add: or_same_def)
  ultimately show ?thesis
    using send_sequence [OF _ Inr] by (elim disjE; intro calm_client) (simp_all add: calm_def emits_same)
qed

lemma logout_respects:
  "client_respects dec [LogoutRequest] a (a\<lparr>app_soup := or_same (app_soup a) (logout (app_soup a))\<rparr>)"
proof -
  have "sequence (or_same s (logout s)) = sequence s" for s
    using send_sequence [of LogoutRequest s]
    by (cases "send_msg LogoutRequest s") (simp_all add: logout_def or_same_def initiate_close_def)
  with calm_send_close [of "app_soup a" LogoutRequest] send_close_emits [of LogoutRequest "app_soup a"] show ?thesis
    by (intro calm_client) (simp_all add: logout_def)
qed

lemma close_respects: "client_respects dec [] a (fst (app_close a))"
proof -
  have "calm (app_soup a) (app_soup a)" by (simp add: calm_def)
  from calm_initiate_close [OF this] this show ?thesis
    by (intro calm_client) (auto simp: app_close_def emits_same initiate_close_fields initiate_close_def)
qed

lemma app_event_respects:
  assumes "plain_event e" "undrained (app_soup a)"
  shows "client_respects dec [ClientHeartbeat] a (app_soup_event e a)"
proof -
  let ?s = "session_step soup_deserialize client_on_message client_send_heartbeat e (app_soup a)"
  have s: "app_soup (app_soup_event e a) = ?s"
    by (simp add: app_soup_event_def Let_def on_soup_close_def)
  have "q_accepted (stop q) = q_accepted q" for q :: "'a mqueue"
    using same_store_stop [of q] by (simp add: same_store_def)
  then have q: "q_accepted (app_queue (app_soup_event e a)) = q_accepted (app_queue a)"
    by (simp add: app_soup_event_def Let_def on_soup_close_def)
  have "app_progress dec a (app_soup_event e a)"
    using client_end.step_taken [OF assms(2,1)] client_event_progress [OF assms(2,1)]
    by (auto simp: app_progress_def s q intro!: exI [of _ "[]"])
  with client_end.step_emits [OF assms(1)] client_end.endpoint_step [OF _ assms(1)] show ?thesis
    by (simp add: client_respects_def s)
qed

lemma server_event_respects:
  assumes "plain_event e" "undrained s"
  shows "server_respects [ServerHeartbeat] s (session_step soup_deserialize async_on_message server_send_heartbeat e s)"
  using server_end.step_emits [OF assms(1)] server_end.endpoint_step [OF _ assms(1)]
    server_event_progress [OF assms(2,1)]
  by (simp add: server_respects_def)

lemma connected_undrained: "connected w \<Longrightarrow> undrained (w_client w) \<and> undrained (w_server w)"
  by (auto simp: connected_def endpoint_def)

lemma server_dispatch_respects:
  assumes "connected w"
  shows "server_respects [on_login (hd (q_msg_queue (s_queue (w_server w))))] (w_server w)
    (server_dispatch on_login d (w_server w))"
proof -
  from assms obtain inp where "endpoint soup_next inp (w_server w)" by (auto simp: connected_def)
  note this [THEN server_dispatch_effect, of on_login d]
  with server_dispatch_effect [where s = "w_server w" and nx = soup_next and on_login = on_login and d = d] show ?thesis
    by (auto simp: server_respects_def server_progress_def)
qed

lemma app_dispatch_respects:
  assumes "connected w"
  shows "client_respects dec [] (w_app w) (app_dispatch dec d (w_app w))"
proof -
  from assms obtain inp where "endpoint soup_next inp (w_client w)" by (auto simp: connected_def)
  note this [THEN app_dispatch_effect, of dec d]
  with app_dispatch_effect [where a = "w_app w" and nx = soup_next and dec = dec and d = d] show ?thesis
    by (auto simp: client_respects_def app_progress_def emits_same numbered_def)
qed

lemma world_step_progress:
  assumes "connected w" "allowed ap e"
  shows "world_progress (ap_decode ap) w (world_step ap e w)"
proof (cases e)
  case (ServerSends d)
  with assms calm_send send_emits show ?thesis
    by (auto simp: send_seq_msg_def intro!: server_step_progress calm_server)
next
  case (ServerDebugs t)
  with assms calm_send send_emits show ?thesis
    by (auto simp: send_debug_def intro!: server_step_progress calm_server)
next
  case ServerEnds
  with assms calm_send_close send_close_emits show ?thesis
    by (auto simp: end_session_def intro!: server_step_progress calm_server)
next
  case (ServerDoes x)
  with assms connected_undrained [OF assms(1)] show ?thesis
    by (auto intro!: server_step_progress server_event_respects)
next
  case (ServerGets n)
  with server_gets_progress [OF assms(1)] show ?thesis by blast
next
  case (ServerDispatches d)
  with assms server_dispatch_respects [OF assms(1)] show ?thesis
    by (auto intro!: server_step_progress)
next
  case (AppSends m)
  show ?thesis
  proof (cases "ap_encode ap m")
    case (Inl x)
    with assms(1) AppSends show ?thesis by (simp add: world_progress_def progress_refl)
  next
    case (Inr r)
    obtain n bs where "r = (n, bs)" by (cases r)
    with Inr AppSends assms app_sends_respects [of ap m n bs] show ?thesis
      by (auto intro!: client_step_progress)
  qed
next
  case ClientLogsOut
  with assms(1) logout_respects show ?thesis by (auto intro!: client_step_progress)
next
  case AppCloses
  with assms(1) close_respects show ?thesis by (auto intro!: client_step_progress)
next
  case (ClientDoes x)
  with assms connected_undrained [OF assms(1)] show ?thesis
    by (auto intro!: client_step_progress app_event_respects)
next
  case (ClientGets n)
  with client_gets_progress [OF assms(1)] show ?thesis by blast
next
  case (AppDispatches d)
  with assms app_dispatch_respects [OF assms(1)] show ?thesis by (auto intro!: client_step_progress)
next
  case (AppQueue x)
  with assms put_accepts_only [of x "ap_truth ap"] show ?thesis
    by (simp add: world_progress_def progress_refl app_progress_same connected_def)
qed

lemma world_progress_trans:
  "world_progress dec w v \<Longrightarrow> world_progress dec v u \<Longrightarrow> world_progress dec w u"
  by (auto simp: world_progress_def intro: app_progress_trans server_progress_trans)

lemma world_run_progress:
  "connected w \<Longrightarrow> list_all (allowed ap) es \<Longrightarrow> world_progress (ap_decode ap) w (fold (world_step ap) es w)"
proof (induction es arbitrary: w)
  case Nil
  then show ?case by (simp add: world_progress_def progress_refl)
next
  case (Cons e es)
  then have e: "world_progress (ap_decode ap) w (world_step ap e w)" by (simp add: world_step_progress)
  then have "connected (world_step ap e w)" by (simp add: world_progress_def)
  with Cons have "world_progress (ap_decode ap) (world_step ap e w) (fold (world_step ap) es (world_step ap e w))" by simp
  from world_progress_trans [OF e this] show ?case by simp
qed

end
