(* ===== verification/EndToEnd.thy ===== *)
theory EndToEnd
  imports Channel
begin

text \<open>
  The life of a connection between a SoupBinTCP server and an application: both sessions are made and
  connected, the client logs in, the application's session takes over, and from then on anything may
  happen in any order (\<open>Channel\<close>). What was written by one end is what the other end gets, in order
  and each message once; everything arrives if the ends go on; and what is lost when the server ends
  the session.
\<close>

section \<open>Setting up\<close>

text \<open>Two new sessions, connected: \<open>connection_made\<close> on both sides. There is no application yet.\<close>

definition fresh_world :: "nat \<Rightarrow> nat \<Rightarrow> 'm world" where
  "fresh_world client_hb server_hb =
     (let s = server_new client_hb server_hb; c = client_new None None client_hb server_hb
      in \<lparr>w_server = or_same s (connection_made s), w_down = [], w_down_log = [],
          w_app = \<lparr>app_soup = or_same c (connection_made c), app_on_msg_coro = False, app_on_close_coro = None,
            app_closed = False, app_close_event = None, app_queue = mq_new False, app_calls = []\<rparr>,
          w_up = [], w_up_log = []\<rparr>)"

text \<open>\<open>login\<close> up to its await, and from there on with the first message in the queue (it goes on waiting
  if there is none); then the application's session is made.\<close>

definition logs_in :: "SoupMessage \<Rightarrow> 'm world \<Rightarrow> 'm world" where
  "logs_in m = client_does [m] (\<lambda>a. a\<lparr>app_soup := or_same (app_soup a) (login_begin m (app_soup a))\<rparr>)"

definition reply_read :: "'m world \<Rightarrow> 'm world" where
  "reply_read w =
     (case get_nowait (s_queue (w_client w)) of
        Inr (q, Some m) \<Rightarrow>
          client_does [] (\<lambda>a. a\<lparr>app_soup := fst (login_resume (Inr m) ((app_soup a)\<lparr>s_queue := q\<rparr>))\<rparr>) w
      | _ \<Rightarrow> w)"

definition app_starts :: "bool \<Rightarrow> nat option \<Rightarrow> 'm world \<Rightarrow> 'm world" where
  "app_starts on_msg on_close w =
     (case app_init on_msg on_close (w_client w) of
        Inl e \<Rightarrow> w
      | Inr a \<Rightarrow> w\<lparr>w_app := a\<rparr>)"

lemma endpoint_fresh:
  assumes "undrained s" "s_reader s = Some new_reader" "q_taken (s_queue s) = []" "q_msg_queue (s_queue s) = []"
  shows "endpoint soup_next [] s"
proof -
  have "sound soup_next [] new_reader" by (intro faithful_sound soup.faithful_new)
  with assms show ?thesis by (simp add: endpoint_def receives_def new_reader_def)
qed

lemma fresh_ends:
  "connection_made (server_new a b) = Inr s \<Longrightarrow> endpoint soup_next [] s \<and> s_sent s = [] \<and> unsequenced s = [] \<and> held s = []"
  "connection_made (client_new None None a b) = Inr c \<Longrightarrow> endpoint soup_next [] c \<and> s_sent c = [] \<and> held c = []"
  by (auto simp: connection_made_def server_new_def client_new_def extend_soup_def session_new_def session.defs
      soup_session.defs mq_new_def mq_empty_def start_dispatching_def create_dispatcher_def
      session_start_dispatching_def undrained_def held_def Let_def result_simps intro!: endpoint_fresh)

lemma fresh_made: "\<exists>s. connection_made (server_new a b) = Inr s" "\<exists>c. connection_made (client_new None None a b) = Inr c"
  by (simp_all add: connection_made_def server_new_def client_new_def extend_soup_def session_new_def session.defs
      soup_session.defs mq_new_def mq_empty_def start_dispatching_def create_dispatcher_def
      session_start_dispatching_def Let_def)

lemma fresh_connected:
  "connected (fresh_world a b)" "held (w_server (fresh_world a b)) = []" "unsequenced (w_server (fresh_world a b)) = []"
proof -
  obtain s c where s: "connection_made (server_new a b) = Inr s" and c: "connection_made (client_new None None a b) = Inr c"
    using fresh_made by blast
  from fresh_ends(1) [OF s] fresh_ends(2) [OF c] s c
  show "connected (fresh_world a b)" "held (w_server (fresh_world a b)) = []" "unsequenced (w_server (fresh_world a b)) = []"
    by (auto simp: connected_def fresh_world_def link_def or_same_def Let_def intro!: exI [of _ "[]"])
qed

lemma same_held: "same_store q q' \<Longrightarrow> q_taken q' @ q_msg_queue q' = q_taken q @ q_msg_queue q \<and>
   q_buffer_msg_queue q' = q_buffer_msg_queue q"
  by (simp add: same_store_def)

lemma session_start_store:
  "session_start_dispatching s = Inr s' \<Longrightarrow> same_store (s_queue s) (s_queue s') \<and> s_reader s' = s_reader s \<and>
     s_phase s' = s_phase s \<and> s_closing_task s' = s_closing_task s \<and> s_sent s' = s_sent s" for s :: soup_session
  using same_store_start [of "s_queue s" True]
  by (auto simp: session_start_dispatching_def result_simps or_unchanged_def same_store_refl split: if_splits)

lemma endpoint_store:
  fixes s s' :: soup_session
  assumes "endpoint nx inp s" "same_store (s_queue s) (s_queue s')" "s_reader s' = s_reader s"
    "s_phase s' = s_phase s" "s_closing_task s' = s_closing_task s"
  shows "endpoint nx inp s'"
  using assms by (intro endpoint_same [OF assms(1)]) (auto simp: same_store_def held_def endpoint_def undrained_def)

lemma login_resume_effect:
  fixes s :: soup_session
  assumes "endpoint nx inp s"
  shows "endpoint nx inp (fst (login_resume (Inr m) s)) \<and> emits [] s (fst (login_resume (Inr m) s))"
proof (cases "\<exists>i n. m = LoginAccepted i n")
  case False
  then have "fst (login_resume (Inr m) s) = close_enter False s"
    by (cases m) (simp_all add: login_resume_def)
  moreover have "endpoint nx inp (close_enter False s)"
    using assms by (intro endpoint_same [OF assms]) (auto simp: endpoint_def undrained_def close_enter_def held_def)
  ultimately show ?thesis by (simp add: close_emits)
next
  case True
  then obtain i n where m: "m = LoginAccepted i n" by blast
  let ?s = "(sid_update m s)\<lparr>sequence := n - 1\<rparr>"
  have s: "endpoint nx inp ?s" "s_sent ?s = s_sent s"
    using assms by (simp_all add: m endpoint_def undrained_def)
  show ?thesis
  proof (cases "rbind (start_heartbeats (Some (client_heartbeat_interval ?s)) (Some (server_heartbeat_interval ?s)) ?s)
      session_start_dispatching")
    case (Inl e)
    with m s show ?thesis by (simp add: login_resume_def Let_def emits_same)
  next
    case (Inr s2)
    then obtain s1 where s1: "start_heartbeats (Some (client_heartbeat_interval ?s)) (Some (server_heartbeat_interval ?s)) ?s = Inr s1"
      and s2: "session_start_dispatching s1 = Inr s2" by (auto simp: result_simps)
    have "endpoint nx inp s1 \<and> s_sent s1 = s_sent s"
      using s s1 by (auto simp: start_heartbeats_def result_simps endpoint_def undrained_def)
    with endpoint_store [of nx inp s1 s2] session_start_store [OF s2] have "endpoint nx inp s2 \<and> s_sent s2 = s_sent s"
      by simp
    moreover have "login_resume (Inr m) s = (s2, None)"
      using m Inr by (simp add: login_resume_def Let_def)
    ultimately show ?thesis by (simp add: emits_same)
  qed
qed

lemma logs_in_connected:
  assumes "connected w" "valid_soup m"
  shows "connected (logs_in m w)"
  unfolding logs_in_def
proof (rule client_does_connected [OF assms(1)])
  let ?s = "w_client w"
  have u: "calm ?s (sid_update m ?s)" "s_sent (sid_update m ?s) = s_sent ?s"
    using calm_login_state(2) [where s = ?s and m = m] by simp_all
  have *: "calm ?s (or_same ?s (login_begin m ?s)) \<and> emits (soup_bytes m) ?s (or_same ?s (login_begin m ?s))"
  proof (cases "login_begin m ?s")
    case (Inl e)
    then show ?thesis by (simp add: or_same_def calm_def emits_same)
  next
    case (Inr s1)
    then have "calm (sid_update m ?s) s1" "emits (soup_bytes m) (sid_update m ?s) s1"
      using calm_send [of "sid_update m ?s" m] send_emits [of m "sid_update m ?s"]
      by (simp_all add: login_begin_def or_same_def)
    with Inr u show ?thesis by (auto simp: or_same_def intro: calm_trans emits_from)
  qed
  then show "emits (soup_encode_all [m]) ?s (app_soup ((\<lambda>a. a\<lparr>app_soup := or_same (app_soup a) (login_begin m (app_soup a))\<rparr>) (w_app w)))"
    by simp
  show "endpoint soup_next inp (app_soup ((\<lambda>a. a\<lparr>app_soup := or_same (app_soup a) (login_begin m (app_soup a))\<rparr>) (w_app w)))"
    if "endpoint soup_next inp ?s" for inp
    using * that by (auto intro: calm_endpoint)
qed (simp add: assms)

lemma reply_read_connected:
  assumes "connected w"
  shows "connected (reply_read w)"
proof (cases "\<exists>q m. get_nowait (s_queue (w_client w)) = Inr (q, Some m)")
  case False
  then show ?thesis using assms by (auto simp: reply_read_def split: sum.split option.split)
next
  case True
  then obtain q m where g: "get_nowait (s_queue (w_client w)) = Inr (q, Some m)" by blast
  let ?s = "(w_client w)\<lparr>s_queue := q\<rparr>"
  have q: "q_taken q @ q_msg_queue q = q_taken (s_queue (w_client w)) @ q_msg_queue (s_queue (w_client w))"
    "q_buffer_msg_queue q = q_buffer_msg_queue (s_queue (w_client w))"
    using g by (auto simp: get_nowait_def pop_def split: if_splits list.splits)
  have s: "endpoint soup_next inp ?s" if "endpoint soup_next inp (w_client w)" for inp
    using that q by (intro endpoint_same [OF that]) (auto simp: endpoint_def undrained_def held_def)
  have "emits [] (w_client w) (fst (login_resume (Inr m) ?s))"
    using assms s login_resume_effect [of soup_next _ ?s m] emits_from [of "[]" ?s _ "w_client w"]
    by (auto simp: connected_def)
  then have "connected (client_does [] (\<lambda>a. a\<lparr>app_soup := fst (login_resume (Inr m) ((app_soup a)\<lparr>s_queue := q\<rparr>))\<rparr>) w)"
    using assms s login_resume_effect by (intro client_does_connected) auto
  then show ?thesis by (simp add: reply_read_def g)
qed

lemma app_init_effect:
  assumes "app_init on_msg on_close s = Inr a"
  shows "same_store (s_queue s) (s_queue (app_soup a))" "s_reader (app_soup a) = s_reader s" "s_phase (app_soup a) = s_phase s"
    "s_closing_task (app_soup a) = s_closing_task s" "s_sent (app_soup a) = s_sent s" "q_accepted (app_queue a) = []"
proof -
  from assms obtain s1 s2 where s1: "set_handlers (Some app_on_msg) (Some app_on_close) s = (s1, None)"
    and s2: "session_start_dispatching s1 = Inr s2" and a: "app_soup a = s2" "app_queue a = mq_new on_msg"
    by (auto simp: app_init_def result_simps split: prod.splits option.splits)
  have "s_queue s1 = s_queue s" "s_reader s1 = s_reader s" "s_phase s1 = s_phase s" "s_closing_task s1 = s_closing_task s"
    "s_sent s1 = s_sent s"
    using s1 by (auto simp: set_handlers_def Let_def split: if_splits)
  with session_start_store [OF s2] a mq_new_store(1)
  show "same_store (s_queue s) (s_queue (app_soup a))" "s_reader (app_soup a) = s_reader s" "s_phase (app_soup a) = s_phase s"
    "s_closing_task (app_soup a) = s_closing_task s" "s_sent (app_soup a) = s_sent s" "q_accepted (app_queue a) = []"
    by simp_all
qed

lemma app_starts_connected:
  assumes "connected w"
  shows "connected (app_starts on_msg on_close w)"
proof (cases "app_init on_msg on_close (w_client w) :: 'a app_session result")
  case (Inr a)
  note e = app_init_effect [OF Inr]
  have "endpoint soup_next inp (app_soup a)" if "endpoint soup_next inp (w_client w)" for inp
    by (rule endpoint_store [OF that e(1-4)])
  with assms e(5) Inr show ?thesis by (auto simp: app_starts_def connected_def)
qed (use assms in \<open>simp add: app_starts_def\<close>)

section \<open>A whole life\<close>

definition life ::
  "nat \<Rightarrow> nat \<Rightarrow> SoupMessage \<Rightarrow> bool \<Rightarrow> nat option \<Rightarrow> 'm application \<Rightarrow> 'm world_event list \<Rightarrow> 'm world" where
  "life client_hb server_hb m on_msg on_close ap es =
     app_starts on_msg on_close (reply_read (fold (world_step ap) es (logs_in m (fresh_world client_hb server_hb))))"

lemma before_server:
  "w_server (logs_in m w) = w_server w" "w_server (reply_read w) = w_server w"
  "w_server (app_starts on_msg on_close w) = w_server w"
  by (auto simp: logs_in_def reply_read_def app_starts_def client_does_def Let_def split: sum.split option.split)

lemma life_connected:
  fixes ap :: "'m application"
  assumes "valid_soup m" "list_all (allowed ap) es"
  shows "connected (life a b m on_msg on_close ap es)"
    "unsequenced (w_server (life a b m on_msg on_close ap es)) =
       payloads (q_taken (s_queue (w_server (life a b m on_msg on_close ap es))))"
proof -
  let ?w = "logs_in m (fresh_world a b) :: 'm world"
  have "connected ?w" using assms(1) by (intro logs_in_connected fresh_connected)
  from world_run_progress [OF this assms(2)]
  have p: "world_progress (ap_decode ap) ?w (fold (world_step ap) es ?w)" .
  then show "connected (life a b m on_msg on_close ap es)"
    unfolding life_def world_progress_def by (intro app_starts_connected reply_read_connected) blast
  have "q_taken (s_queue (w_server ?w)) = []" "unsequenced (w_server ?w) = []"
    by (simp_all add: before_server fresh_connected(3) fresh_connected(2) [simplified held_def append_is_Nil_conv])
  with p show "unsequenced (w_server (life a b m on_msg on_close ap es)) =
       payloads (q_taken (s_queue (w_server (life a b m on_msg on_close ap es))))"
    by (auto simp: life_def before_server world_progress_def server_progress_def)
qed

lemma life_accepted:
  fixes ap :: "'m application" and app :: "'m app_session"
  assumes "app_init on_msg on_close
      (w_client (reply_read (fold (world_step ap) es (logs_in m (fresh_world a b))))) = Inr app"
  shows "q_accepted (app_queue (w_app (life a b m on_msg on_close ap es))) = []"
  using app_init_effect(6) [OF assms] assms by (simp add: life_def app_starts_def)

lemma link_arrives:
  assumes "link wire log sent inp" "endpoint soup_next inp s"
  shows "\<exists>rest. visible log = held s @ rest"
proof -
  from assms(1) have "stream soup_next (\<lambda>_. True) (inp @ wire) = visible log"
    by (metis link_def soup_stream_encoded)
  moreover from assms(2) have "\<forall>w. \<exists>rest. stream soup_next (\<lambda>_. True) (inp @ w) = held s @ rest"
    by (auto simp: endpoint_def receives_def sound_def held_def)
  ultimately show ?thesis by metis
qed

lemma connected_arrives:
  assumes "connected w"
  shows "\<exists>rest. visible (w_down_log w) = held (w_client w) @ rest" "\<exists>rest. visible (w_up_log w) = held (w_server w) @ rest"
  using assms link_arrives by (auto simp: connected_def)

text \<open>A connection to evaluate: an application whose messages are the payloads themselves, a login, and
  a few events after it.\<close>

definition raw_application :: "bytes application" where
  "raw_application =
     \<lparr>ap_protocol = Ouch, ap_decode = (\<lambda>d. Inr (int (length d), d)), ap_encode = (\<lambda>d. Inr (int (length d), d)),
      ap_truth = (\<lambda>_. True), ap_on_login = (\<lambda>_. LoginAccepted [100] 5)\<rparr>"

definition sample_login :: SoupMessage where
  "sample_login = LoginRequest [117] [112] [100] [49]"

definition login_run :: "bytes world_event list" where
  "login_run = [ServerGets 100, ServerDoes ReaderTurn, ServerDispatches 0, ClientGets 100, ClientDoes ReaderTurn]"

definition data_run :: "bytes world_event list" where
  "data_run =
     [ServerSends [1, 2], ServerDoes LocalInterval, ServerSends [3], AppSends [9], ClientGets 4, ClientDoes ReaderTurn,
      ClientGets 100, ClientDoes ReaderTurn, AppDispatches 0]"

abbreviation sample_world :: "bytes world" where
  "sample_world \<equiv> fold (world_step raw_application) data_run
     (life 1 1 sample_login True (Some 7) raw_application login_run)"

lemma sample_allowed:
  "valid_soup sample_login" "list_all (allowed raw_application) login_run" "list_all (allowed raw_application) data_run"
  "\<forall>m. valid_soup (ap_on_login raw_application m)"
proof -
  have "valid_soup (LoginAccepted [100] 5)" by code_simp
  then show "list_all (allowed raw_application) login_run" "\<forall>m. valid_soup (ap_on_login raw_application m)"
    by (simp_all add: login_run_def raw_application_def)
  show "valid_soup sample_login" by code_simp
  show "list_all (allowed raw_application) data_run"
    by (simp add: data_run_def raw_application_def)
qed

lemma sample_app:
  "\<exists>app :: bytes app_session. app_init True (Some 7)
      (w_client (reply_read (fold (world_step raw_application) login_run (logs_in sample_login (fresh_world 1 1))))) = Inr app"
proof -
  have "\<not> isl (app_init True (Some 7)
      (w_client (reply_read (fold (world_step raw_application) login_run (logs_in sample_login (fresh_world 1 1))))) ::
      bytes app_session result)" by code_simp
  then show ?thesis by (cases "app_init True (Some 7)
      (w_client (reply_read (fold (world_step raw_application) login_run (logs_in sample_login (fresh_world 1 1))))) ::
      bytes app_session result") auto
qed

lemma sample_evaluated:
  "let w = sample_world; c = s_queue (w_client w); s = s_queue (w_server w)
   in (case s_reader (w_client w) of None \<Rightarrow> False
         | Some r \<Rightarrow> alive r \<and> length (rview r) + length (w_down w) \<le> 9) \<and>
      (case s_reader (w_server w) of None \<Rightarrow> False
         | Some r \<Rightarrow> alive r \<and> length (rview r) + length (w_up w) \<le> 9) \<and>
      map_of (q_dispatchers c) 0 = Some Idle \<and> map_of (q_dispatchers s) 0 = Some Idle \<and>
      length (w_down_log w) \<le> 9 \<and> length (w_up_log w) \<le> 9 \<and>
      visible (w_down_log w) = [LoginAccepted [100] 5, SequencedData [1, 2], SequencedData [3]] \<and>
      q_taken c = [LoginAccepted [100] 5, SequencedData [1, 2]] \<and>
      q_accepted (app_queue (w_app w)) = [[1, 2]] \<and> payloads (visible (w_up_log w)) = [[9]]"
  by code_simp

text \<open>
  C1: From making both sessions on, through the login and whatever happens after it - calls of
  both ends, heartbeats, closing, bytes arriving in any pieces, readers and dispatchers taking turns
  in any order - what an end has got is an initial part of what the other end has written, each message
  once and in order; the application gets the decoded payloads of exactly the messages its session
  has handled since it started; the sequence number counts the sequenced messages; and the server has
  handled the payloads of the unsequenced messages it took, no others. Payloads fit into a message, no
  close drains, and the application's session is made before the connection closes.
\<close>
theorem everything_in_order:
  fixes ap :: "'m application" and app :: "'m app_session"
  assumes "valid_soup m" "list_all (allowed ap) es0" "list_all (allowed ap) es"
    and "app_init on_msg on_close
      (w_client (reply_read (fold (world_step ap) es0 (logs_in m (fresh_world a b))))) = Inr app"
  shows "let w1 = life a b m on_msg on_close ap es0; w = fold (world_step ap) es w1;
             c = s_queue (w_client w); s = s_queue (w_server w)
    in (\<exists>rest. visible (w_down_log w) = q_taken c @ q_msg_queue c @ rest) \<and>
       (\<exists>xs. q_taken c = q_taken (s_queue (w_client w1)) @ xs \<and>
          q_accepted (app_queue (w_app w)) = decoded (ap_decode ap) xs) \<and>
       sequence (w_client w) - sequence (w_client w1) = numbered (held (w_client w)) - numbered (held (w_client w1)) \<and>
       (\<exists>rest. visible (w_up_log w) = q_taken s @ q_msg_queue s @ rest) \<and>
       unsequenced (w_server w) = payloads (q_taken s)"
proof -
  let ?w1 = "life a b m on_msg on_close ap es0"
  let ?w = "fold (world_step ap) es ?w1"
  note w1 = life_connected [OF assms(1,2), of a b on_msg on_close]
  have p: "connected ?w" "app_progress (ap_decode ap) (w_app ?w1) (w_app ?w)" "server_progress (w_server ?w1) (w_server ?w)"
    using world_run_progress [OF w1(1) assms(3)] by (simp_all add: world_progress_def)
  from p(2) life_accepted [OF assms(4)]
  have "\<exists>xs. q_taken (s_queue (w_client ?w)) = q_taken (s_queue (w_client ?w1)) @ xs \<and>
      q_accepted (app_queue (w_app ?w)) = decoded (ap_decode ap) xs" by (auto simp: app_progress_def)
  moreover from p(2) have "sequence (w_client ?w) - sequence (w_client ?w1) =
      numbered (held (w_client ?w)) - numbered (held (w_client ?w1))"
    by (auto simp: app_progress_def numbered_append)
  moreover from p(3) w1(2) have "unsequenced (w_server ?w) = payloads (q_taken (s_queue (w_server ?w)))"
    by (auto simp: server_progress_def payloads_append)
  ultimately show ?thesis
    using connected_arrives [OF p(1)] by (simp add: Let_def held_def)
qed

theorem everything_in_order_witness:
  "q_accepted (app_queue (w_app sample_world)) = [[1, 2]] \<and>
   (\<exists>rest. visible (w_down_log sample_world) =
      q_taken (s_queue (w_client sample_world)) @ q_msg_queue (s_queue (w_client sample_world)) @ rest) \<and>
   unsequenced (w_server sample_world) = payloads (q_taken (s_queue (w_server sample_world)))"
proof -
  obtain app :: "bytes app_session" where app: "app_init True (Some 7)
      (w_client (reply_read (fold (world_step raw_application) login_run (logs_in sample_login (fresh_world 1 1))))) = Inr app"
    using sample_app by blast
  have "q_accepted (app_queue (w_app sample_world)) = [[1, 2]]"
    using sample_evaluated unfolding Let_def by blast
  with everything_in_order [OF sample_allowed(1-3) app] show ?thesis by (auto simp: Let_def)
qed

section \<open>Everything arrives\<close>

lemma data_reader:
  assumes "receives nx inp r q" "reader_wf r"
  shows "alive (on_data bs r) = alive r" "length (rview (on_data bs r)) = length (rview r) + length bs"
proof -
  show "alive (on_data bs r) = alive r" using assms(1) by (simp add: on_data_def alive_def receives_def)
  have "reader_wf (on_data bs r)" "available (on_data bs r) = available r + int (length bs)"
    using assms by (auto simp: on_data_def receives_def reader_wf_def available_def)
  with length_rview [OF assms(2)] length_rview [of "on_data bs r"]
  show "length (rview (on_data bs r)) = length (rview r) + length bs" by simp
qed

lemma take_and_end:
  assumes "map_of (q_dispatchers q) d = Some Idle" "q_msg_queue q = m # ms" "oc \<noteq> IsCancelled"
  shows "map_of (q_dispatchers (handler_ends d oc (dispatcher_takes d q))) d = Some Idle \<and>
    q_msg_queue (handler_ends d oc (dispatcher_takes d q)) = ms"
proof -
  have "dispatcher_takes d q = (pop m ms q)\<lparr>q_dispatchers := dict_set (q_dispatchers q) d (Handling m),
      q_dispatched := q_dispatched q @ [m]\<rparr>"
    using assms(1,2) by (simp add: dispatcher_takes_def)
  then show ?thesis using assms(3) by (simp add: handler_ends_def pop_def)
qed

text \<open>A dispatcher that is waiting takes the next message and waits again.\<close>

lemma app_dispatch_next:
  assumes "map_of (q_dispatchers (s_queue (app_soup a))) d = Some Idle"
  shows "map_of (q_dispatchers (s_queue (app_soup (app_dispatch dec d a)))) d = Some Idle \<and>
    q_msg_queue (s_queue (app_soup (app_dispatch dec d a))) = tl (q_msg_queue (s_queue (app_soup a)))"
proof (cases "q_msg_queue (s_queue (app_soup a))")
  case Nil
  with assms show ?thesis by (simp add: app_dispatch_def)
next
  case (Cons m ms)
  let ?q = "s_queue (app_soup a)"
  let ?a = "a\<lparr>app_soup := (app_soup a)\<lparr>s_queue := dispatcher_takes d ?q\<rparr>\<rparr>"
  obtain a1 e where a1: "on_soup_message dec m ?a = (a1, e)" by (cases "on_soup_message dec m ?a")
  have "app_soup a1 = app_soup ?a"
    using handle_all_soup [of dec "[m]" ?a] a1 by (simp add: handle_all_def)
  then have "s_queue (app_soup (app_dispatch dec d a)) =
      handler_ends d (if e = None then Returns else Raises) (dispatcher_takes d ?q)"
    using assms Cons a1 by (simp add: app_dispatch_def Let_def)
  with take_and_end [OF assms Cons] Cons show ?thesis by simp
qed

lemma server_dispatch_next:
  assumes "map_of (q_dispatchers (s_queue s)) d = Some Idle"
  shows "map_of (q_dispatchers (s_queue (server_dispatch on_login d s))) d = Some Idle \<and>
    q_msg_queue (s_queue (server_dispatch on_login d s)) = tl (q_msg_queue (s_queue s))"
proof (cases "q_msg_queue (s_queue s)")
  case Nil
  with assms show ?thesis by (simp add: server_dispatch_def)
next
  case (Cons m ms)
  let ?s = "s\<lparr>s_queue := dispatcher_takes d (s_queue s)\<rparr>"
  obtain s1 e where s1: "server_on_msg on_login m ?s = (s1, e)" by (cases "server_on_msg on_login m ?s")
  then have "s_queue s1 = dispatcher_takes d (s_queue s)"
    using server_on_msg_effect [of s1 on_login m ?s] by simp
  then have "s_queue (server_dispatch on_login d s) =
      handler_ends d (if e = None then Returns else Raises) (dispatcher_takes d (s_queue s))"
    using assms Cons s1 by (simp add: server_dispatch_def)
  with take_and_end [OF assms Cons] Cons show ?thesis by simp
qed

lemma dispatches_drain:
  assumes "P a" "\<And>a. P a \<Longrightarrow> P (f a) \<and> queue (f a) = tl (queue a)" "length (queue a) \<le> j"
  shows "P ((f ^^ j) a) \<and> queue ((f ^^ j) a) = []"
  using assms(1,3)
proof (induction j arbitrary: a)
  case (Suc j)
  with assms(2) [of a] Suc.IH [of "f a"] show ?case by (simp add: funpow_swap1)
qed simp

lemma app_drain:
  assumes "endpoint nx inp (app_soup a)" "map_of (q_dispatchers (s_queue (app_soup a))) d = Some Idle"
    "length (held (app_soup a)) \<le> j"
  shows "q_msg_queue (s_queue (app_soup ((app_dispatch dec d ^^ j) a))) = [] \<and>
    q_taken (s_queue (app_soup ((app_dispatch dec d ^^ j) a))) = held (app_soup a)"
proof -
  define P where "P b \<longleftrightarrow> endpoint nx inp (app_soup b) \<and> map_of (q_dispatchers (s_queue (app_soup b))) d = Some Idle \<and>
    held (app_soup b) = held (app_soup a)" for b :: "'a app_session"
  have "P (app_dispatch dec d b) \<and>
      q_msg_queue (s_queue (app_soup (app_dispatch dec d b))) = tl (q_msg_queue (s_queue (app_soup b)))" if "P b" for b
    using that app_dispatch_effect [of nx inp b dec d] app_dispatch_next [of b d dec] by (simp add: P_def)
  from dispatches_drain [of P a "app_dispatch dec d" "\<lambda>a. q_msg_queue (s_queue (app_soup a))" j, OF _ this] assms
  show ?thesis by (auto simp: P_def held_def)
qed

lemma server_drain:
  assumes "endpoint nx inp s" "map_of (q_dispatchers (s_queue s)) d = Some Idle" "length (held s) \<le> j"
  shows "q_msg_queue (s_queue ((server_dispatch on_login d ^^ j) s)) = [] \<and>
    q_taken (s_queue ((server_dispatch on_login d ^^ j) s)) = held s"
proof -
  define P where "P t \<longleftrightarrow> endpoint nx inp t \<and> map_of (q_dispatchers (s_queue t)) d = Some Idle \<and> held t = held s" for t
  have "P (server_dispatch on_login d t) \<and>
      q_msg_queue (s_queue (server_dispatch on_login d t)) = tl (q_msg_queue (s_queue t))" if "P t" for t
    using that server_dispatch_effect [of nx inp t on_login d] server_dispatch_next [of t d on_login] by (simp add: P_def)
  from dispatches_drain [of P s "server_dispatch on_login d" "\<lambda>s. q_msg_queue (s_queue s)" j, OF _ this] assms
  show ?thesis by (auto simp: P_def held_def)
qed

text \<open>What the turns of the reader and of the dispatcher leave of the rest of the connection.\<close>

lemma client_turns:
  "w_client (fold (world_step ap) (replicate k (ClientDoes ReaderTurn)) w) =
     fold (session_step soup_deserialize client_on_message client_send_heartbeat) (replicate k ReaderTurn) (w_client w) \<and>
   w_down_log (fold (world_step ap) (replicate k (ClientDoes ReaderTurn)) w) = w_down_log w"
  by (induction k arbitrary: w) (simp_all add: client_does_def app_soup_event_def Let_def)

lemma server_turns:
  "w_server (fold (world_step ap) (replicate k (ServerDoes ReaderTurn)) w) =
     fold (session_step soup_deserialize async_on_message server_send_heartbeat) (replicate k ReaderTurn) (w_server w) \<and>
   w_up_log (fold (world_step ap) (replicate k (ServerDoes ReaderTurn)) w) = w_up_log w"
  by (induction k arbitrary: w) (simp_all add: server_does_def Let_def)

lemma client_dispatches:
  "w_app (fold (world_step ap) (replicate j (AppDispatches d)) w) = (app_dispatch (ap_decode ap) d ^^ j) (w_app w) \<and>
   w_down_log (fold (world_step ap) (replicate j (AppDispatches d)) w) = w_down_log w"
  by (induction j arbitrary: w) (simp_all add: client_does_def Let_def funpow_swap1)

lemma server_dispatches:
  "w_server (fold (world_step ap) (replicate j (ServerDispatches d)) w) =
     (server_dispatch (ap_on_login ap) d ^^ j) (w_server w)"
  by (induction j arbitrary: w) (simp_all add: server_does_def Let_def funpow_swap1)

context receiving_session
begin

lemma arrive_and_turn:
  assumes "endpoint nx inp s" "s_reader s = Some r" "alive r" "length (rview r) + length bs \<le> k"
  shows "let s' = fold sstep (replicate k ReaderTurn) (or_same s (data_received bs s))
    in endpoint nx (inp @ bs) s' \<and> q_taken (s_queue s') @ q_msg_queue (s_queue s') = stream nx (\<lambda>_. True) (inp @ bs) \<and>
       q_dispatchers (s_queue s') = q_dispatchers (s_queue s)"
proof -
  let ?s = "or_same s (data_received bs s)"
  have "receives nx inp r (s_queue s)" "reader_wf r"
    using assms(1-3) by (auto simp: endpoint_def receives_def sound_def faithful_def)
  note r = data_reader [OF this, of bs]
  have s: "s_reader ?s = Some (on_data bs r)" "s_queue ?s = s_queue s"
    using assms(2) by (simp_all add: data_received_def or_same_def Let_def)
  from turns_queue_all [OF endpoint_data [OF assms(1)] s(1)] r assms(3,4) show ?thesis
    by (simp add: Let_def turns_dispatchers s(2) del: fold_replicate)
qed

end

lemma visible_length: "length (visible ms) \<le> length ms"
  by (induction ms) simp_all

text \<open>
  C2: Whatever happened to the connection before, the server's messages arrive: if the client's
  reader is still running and a dispatcher waits for messages, then after the bytes on their way have
  arrived, as many iterations of the reader as there are bytes and as many of the dispatcher as there
  are messages, the queue is empty, the session has taken exactly what the server wrote up to the end
  of the session, without the heartbeats, and the application has got what it had not got before.
\<close>
theorem everything_arrives:
  fixes w :: "'m world"
  assumes "valid_soup m" "list_all (allowed ap) es0" "list_all (allowed ap) es"
    and "w = fold (world_step ap) es (life a b m on_msg on_close ap es0)"
    and "s_reader (w_client w) = Some r" "alive r" "map_of (q_dispatchers (s_queue (w_client w))) d = Some Idle"
    and "length (rview r) + length (w_down w) \<le> k" "length (w_down_log w) \<le> j"
  shows "let w' = fold (world_step ap)
        (ClientGets (length (w_down w)) # replicate k (ClientDoes ReaderTurn) @ replicate j (AppDispatches d)) w
    in q_msg_queue (s_queue (w_client w')) = [] \<and> q_taken (s_queue (w_client w')) = visible (w_down_log w) \<and>
       (\<exists>xs. visible (w_down_log w) = q_taken (s_queue (w_client w)) @ xs \<and>
          q_accepted (app_queue (w_app w')) = q_accepted (app_queue (w_app w)) @ decoded (ap_decode ap) xs)"
proof -
  let ?es = "ClientGets (length (w_down w)) # replicate k (ClientDoes ReaderTurn) @ replicate j (AppDispatches d)"
  let ?v = "fold (world_step ap) (replicate k (ClientDoes ReaderTurn)) (world_step ap (ClientGets (length (w_down w))) w)"
  let ?w = "fold (world_step ap) ?es w"
  have c: "connected w"
    using world_run_progress [OF life_connected(1) [OF assms(1,2)] assms(3)] by (simp add: assms(4) world_progress_def)
  then obtain i where i: "link (w_down w) (w_down_log w) (s_sent (w_server w)) i" "endpoint soup_next i (w_client w)"
    by (auto simp: connected_def)
  then have log: "stream soup_next (\<lambda>_. True) (i @ w_down w) = visible (w_down_log w)"
    by (metis link_def soup_stream_encoded)
  have v: "endpoint soup_next (i @ w_down w) (w_client ?v)" "held (w_client ?v) = visible (w_down_log w)"
    "map_of (q_dispatchers (s_queue (w_client ?v))) d = Some Idle"
    using client_end.arrive_and_turn [OF i(2) assms(5,6,8)] log assms(7)
    by (simp_all add: client_turns Let_def held_def del: fold_replicate)
  have "w_app ?w = (app_dispatch (ap_decode ap) d ^^ j) (w_app ?v)"
    by (simp add: client_dispatches del: fold_replicate)
  with app_drain [OF v(1,3)] v(2) visible_length [of "w_down_log w"] assms(9)
  have gone: "q_msg_queue (s_queue (w_client ?w)) = []" "q_taken (s_queue (w_client ?w)) = visible (w_down_log w)"
    by simp_all
  have "world_progress (ap_decode ap) w ?w"
    by (rule world_run_progress [OF c]) (auto simp: list_all_iff set_replicate_conv_if)
  with gone obtain xs where "visible (w_down_log w) = q_taken (s_queue (w_client w)) @ xs"
    "q_accepted (app_queue (w_app ?w)) = q_accepted (app_queue (w_app w)) @ decoded (ap_decode ap) xs"
    unfolding world_progress_def app_progress_def by metis
  with gone show ?thesis unfolding Let_def by blast
qed

theorem everything_arrives_witness:
  "let w' = fold (world_step raw_application)
      (ClientGets (length (w_down sample_world)) # replicate 9 (ClientDoes ReaderTurn) @ replicate 9 (AppDispatches 0))
      sample_world
   in q_taken (s_queue (w_client w')) = [LoginAccepted [100] 5, SequencedData [1, 2], SequencedData [3]] \<and>
      q_accepted (app_queue (w_app w')) = [[1, 2], [3]]"
proof -
  have "case s_reader (w_client sample_world) of None \<Rightarrow> False
      | Some r \<Rightarrow> alive r \<and> length (rview r) + length (w_down sample_world) \<le> 9"
    using sample_evaluated unfolding Let_def by blast
  then obtain r where r: "s_reader (w_client sample_world) = Some r" "alive r"
    "length (rview r) + length (w_down sample_world) \<le> 9" by (auto split: option.splits)
  have d: "map_of (q_dispatchers (s_queue (w_client sample_world))) 0 = Some Idle" "length (w_down_log sample_world) \<le> 9"
    "visible (w_down_log sample_world) = [LoginAccepted [100] 5, SequencedData [1, 2], SequencedData [3]]"
    "q_taken (s_queue (w_client sample_world)) = [LoginAccepted [100] 5, SequencedData [1, 2]]"
    "q_accepted (app_queue (w_app sample_world)) = [[1, 2]]"
    using sample_evaluated unfolding Let_def by blast+
  have dec: "decoded (ap_decode raw_application) [SequencedData [3]] = [[3]]" by (simp add: raw_application_def)
  from everything_arrives [OF sample_allowed(1-3) refl r(1,2) d(1) r(3) d(2)] obtain xs where
    xs: "visible (w_down_log sample_world) = q_taken (s_queue (w_client sample_world)) @ xs" and
    w': "let w' = fold (world_step raw_application)
        (ClientGets (length (w_down sample_world)) # replicate 9 (ClientDoes ReaderTurn) @ replicate 9 (AppDispatches 0))
        sample_world
      in q_taken (s_queue (w_client w')) = visible (w_down_log sample_world) \<and>
        q_accepted (app_queue (w_app w')) =
          q_accepted (app_queue (w_app sample_world)) @ decoded (ap_decode raw_application) xs"
    unfolding Let_def by blast
  from xs have "xs = [SequencedData [3]]" unfolding d(3,4) by simp
  with w' show ?thesis unfolding Let_def d(3,5) by (simp only: dec append.simps)
qed

text \<open>
  C3: In the other direction: what the client wrote arrives at the server, and the server has
  handled the payloads of all unsequenced messages of what the client wrote before it logged out.
\<close>
theorem everything_arrives_up:
  fixes w :: "'m world"
  assumes "valid_soup m" "list_all (allowed ap) es0" "list_all (allowed ap) es"
    and "w = fold (world_step ap) es (life a b m on_msg on_close ap es0)" "\<forall>m. valid_soup (ap_on_login ap m)"
    and "s_reader (w_server w) = Some r" "alive r" "map_of (q_dispatchers (s_queue (w_server w))) d = Some Idle"
    and "length (rview r) + length (w_up w) \<le> k" "length (w_up_log w) \<le> j"
  shows "let w' = fold (world_step ap)
        (ServerGets (length (w_up w)) # replicate k (ServerDoes ReaderTurn) @ replicate j (ServerDispatches d)) w
    in q_msg_queue (s_queue (w_server w')) = [] \<and> unsequenced (w_server w') = payloads (visible (w_up_log w))"
proof -
  let ?es = "ServerGets (length (w_up w)) # replicate k (ServerDoes ReaderTurn) @ replicate j (ServerDispatches d)"
  let ?v = "fold (world_step ap) (replicate k (ServerDoes ReaderTurn)) (world_step ap (ServerGets (length (w_up w))) w)"
  let ?w = "fold (world_step ap) ?es w"
  note w1 = life_connected [OF assms(1,2), of a b on_msg on_close]
  have c: "connected w" "unsequenced (w_server w) = payloads (q_taken (s_queue (w_server w)))"
    using world_run_progress [OF w1(1) assms(3)] w1(2)
    by (auto simp: assms(4) world_progress_def server_progress_def payloads_append)
  then obtain i where i: "link (w_up w) (w_up_log w) (s_sent (w_client w)) i" "endpoint soup_next i (w_server w)"
    by (auto simp: connected_def)
  then have log: "stream soup_next (\<lambda>_. True) (i @ w_up w) = visible (w_up_log w)"
    by (metis link_def soup_stream_encoded)
  have v: "endpoint soup_next (i @ w_up w) (w_server ?v)" "held (w_server ?v) = visible (w_up_log w)"
    "map_of (q_dispatchers (s_queue (w_server ?v))) d = Some Idle"
    using server_end.arrive_and_turn [OF i(2) assms(6,7,9)] log assms(8)
    by (simp_all add: server_turns Let_def held_def del: fold_replicate)
  have "w_server ?w = (server_dispatch (ap_on_login ap) d ^^ j) (w_server ?v)"
    by (simp add: server_dispatches del: fold_replicate)
  with server_drain [OF v(1,3)] v(2) visible_length [of "w_up_log w"] assms(10)
  have gone: "q_msg_queue (s_queue (w_server ?w)) = []" "q_taken (s_queue (w_server ?w)) = visible (w_up_log w)"
    by simp_all
  have "world_progress (ap_decode ap) w ?w"
    using assms(5) by (intro world_run_progress [OF c(1)]) (auto simp: list_all_iff set_replicate_conv_if)
  with gone c(2) have "unsequenced (w_server ?w) = payloads (visible (w_up_log w))"
    by (auto simp: world_progress_def server_progress_def payloads_append)
  with gone show ?thesis unfolding Let_def by blast
qed

theorem everything_arrives_up_witness:
  "let w' = fold (world_step raw_application)
      (ServerGets (length (w_up sample_world)) # replicate 9 (ServerDoes ReaderTurn) @ replicate 9 (ServerDispatches 0))
      sample_world
   in unsequenced (w_server w') = [[9]]"
proof -
  have "case s_reader (w_server sample_world) of None \<Rightarrow> False
      | Some r \<Rightarrow> alive r \<and> length (rview r) + length (w_up sample_world) \<le> 9"
    using sample_evaluated unfolding Let_def by blast
  then obtain r where r: "s_reader (w_server sample_world) = Some r" "alive r"
    "length (rview r) + length (w_up sample_world) \<le> 9" by (auto split: option.splits)
  have d: "map_of (q_dispatchers (s_queue (w_server sample_world))) 0 = Some Idle" "length (w_up_log sample_world) \<le> 9"
    "payloads (visible (w_up_log sample_world)) = [[9]]"
    using sample_evaluated unfolding Let_def by blast+
  from everything_arrives_up [OF sample_allowed(1-3) refl sample_allowed(4) r(1,2) d(1) r(3) d(2)] show ?thesis
    unfolding Let_def d(3) by blast
qed

section \<open>The end of a session\<close>

text \<open>What the server wrote before it ended the session arrives at the queue of the application, and may
  be lost there: here the application is busy with the first message when the end is read. Closing
  stops its queue, which cancels the handler; the second message is never handled.\<close>

definition ending_run :: "bytes world_event list" where
  "ending_run =
     [ServerSends [1], ServerSends [2], ServerEnds, ClientGets 100, ClientDoes ReaderTurn, AppDispatches 0,
      AppQueue (Takes 0), ClientDoes ReaderTurn, AppDispatches 0, ClientDoes ReaderTurn] @
     replicate 4 (ClientDoes CloseStep) @ [AppQueue (HandlerEnds 0 Returns), AppQueue (Takes 0)]"

lemma ending_cuts_off:
  "let a = w_app (fold (world_step raw_application) ending_run
      (life 1 1 sample_login True (Some 7) raw_application login_run))
   in q_accepted (app_queue a) = [[1], [2]] \<and> q_dispatched (app_queue a) = [[1]] \<and> app_closed a \<and> app_calls a = [7]"
  by code_simp

end
