(* ===== verification/Draining.thy ===== *)
theory Draining
  imports EndToEnd
begin

text \<open>
  A graceful close (\<open>close(drain=True)\<close>, what \<open>connection_lost\<close> does): the reader goes on until it has read
  all it has, the dispatcher until its queue is empty, and only then are both stopped. This
  completes, and nothing that has arrived is lost, if no logout is among what is unread and the
  handlers return; with a logout it hangs (\<open>graceful_close_hangs\<close> in \<open>SoupSession\<close>).
\<close>

section \<open>The reader\<close>

lemma tick_message:
  assumes "reader_wf r" "alive r" "rview r = soup_bytes m @ v" "valid_soup m" "\<not> is_logout m"
  shows "let r' = process_tick soup_deserialize (\<lambda>_. True) r
    in reader_wf r' \<and> alive r' \<and> rview r' = v \<and> delivered r' = delivered r @ (if is_heartbeat m then [] else [m]) \<and>
       drain_mode r' = drain_mode r \<and> close_calls r' = close_calls r"
proof -
  have nx: "soup_next (rview r) = Some (Msg m False (is_heartbeat m), length (soup_bytes m))"
    using assms(3-5) by (simp add: soup_next_encoded)
  from soup.nx_progress [OF this] have n: "0 < length (soup_bytes m)" by simp
  from nx soup.process_1_cases [OF assms(1), of "\<lambda>_. True"] obtain r1 where
    r1: "rview r1 = v" "reader_wf r1" "rtask r1 = rtask r" "stopped r1 = stopped r" "drain_mode r1 = drain_mode r"
      "close_calls r1 = close_calls r" "delivered r1 = delivered r @ (if is_heartbeat m then [] else [m])"
    and p: "process_1 soup_deserialize (\<lambda>_. True) r = r1"
    using assms(3) by auto
  have "available r1 < available r"
    using r1(1) assms(3) n by (simp flip: length_rview [OF assms(1)] length_rview [OF r1(2)])
  moreover have "0 < available r"
    using assms(3) n unread [OF assms(1)] by auto
  ultimately have "process_tick soup_deserialize (\<lambda>_. True) r = r1"
    using assms(2) p r1(3) by (simp add: process_tick_def alive_def Let_def)
  with r1 assms(2) show ?thesis by (simp add: alive_def)
qed

lemma tick_rest:
  assumes "reader_wf r" "alive r" "soup_next (rview r) = None"
  shows "process_tick soup_deserialize (\<lambda>_. True) r =
    (if drain_mode r = Some False then r\<lparr>drain_mode := Some True\<rparr> else r)"
proof -
  have "process_1 soup_deserialize (\<lambda>_. True) r = r"
    using soup.process_1_cases [OF assms(1), of "\<lambda>_. True"] assms(3) by simp
  with assms(2) show ?thesis by (simp add: process_tick_def alive_def Let_def)
qed

lemma ticks_rest:
  assumes "reader_wf r" "alive r" "soup_next (rview r) = None" "drain_mode r = Some True"
  shows "reader_run soup_deserialize (\<lambda>_. True) (replicate k Tick) r = r"
proof (induction k)
  case (Suc k)
  from tick_rest [OF assms(1-3)] assms(4) have "process_tick soup_deserialize (\<lambda>_. True) r = r" by simp
  with Suc show ?case by (simp del: fold_replicate)
qed simp

lemma ticks_drain:
  assumes "reader_wf r" "alive r" "rview r = soup_encode_all ms @ v" "list_all valid_soup ms"
    "list_all (\<lambda>m. \<not> is_logout m) ms" "soup_next v = None" "drain_mode r = Some False" "length ms < k"
  shows "let r' = reader_run soup_deserialize (\<lambda>_. True) (replicate k Tick) r
    in drain_mode r' = Some True \<and> delivered r' = delivered r @ visible ms"
  using assms
proof (induction ms arbitrary: r k)
  case Nil
  then obtain k' where k: "k = Suc k'" by (cases k) auto
  let ?r = "r\<lparr>drain_mode := Some True\<rparr>"
  have "process_tick soup_deserialize (\<lambda>_. True) r = ?r"
    using Nil tick_rest [of r] by simp
  moreover have "reader_run soup_deserialize (\<lambda>_. True) (replicate k' Tick) ?r = ?r"
    using Nil by (intro ticks_rest) (simp_all add: reader_wf_def alive_def)
  ultimately show ?case unfolding k by simp
next
  case (Cons m ms)
  then obtain k' where k: "k = Suc k'" "length ms < k'" by (cases k) auto
  let ?r = "process_tick soup_deserialize (\<lambda>_. True) r"
  have t: "reader_wf ?r" "alive ?r" "rview ?r = soup_encode_all ms @ v" "drain_mode ?r = Some False"
    "delivered ?r = delivered r @ (if is_heartbeat m then [] else [m])"
    using tick_message [of r m "soup_encode_all ms @ v"] Cons.prems by (simp_all add: Let_def)
  from Cons.IH [OF t(1-3) _ _ _ t(4) k(2)] Cons.prems t(5) show ?case
    unfolding k(1) by (simp add: Let_def)
qed

section \<open>The session\<close>

text \<open>A session in the phase \<open>ph\<close> of a draining close.\<close>

definition draining :: "phase \<Rightarrow> soup_session \<Rightarrow> bool" where
  "draining ph s \<longleftrightarrow> s_closed s \<and> s_phase s = ph \<and>
     (q_buffer_msg_queue (s_queue s) = None \<longleftrightarrow> ph = ReaderDrain)"

definition handed :: "soup_session \<Rightarrow> SoupMessage list" where
  "handed s = q_dispatched (s_queue s)"

lemma puts_fields:
  "q_buffer_msg_queue q = None \<Longrightarrow> q_msg_queue (fold put ms q) = q_msg_queue q @ ms \<and>
   q_dispatched (fold put ms q) = q_dispatched q \<and> q_buffer_msg_queue (fold put ms q) = None \<and>
   q_closed (fold put ms q) = q_closed q"
  by (induction ms arbitrary: q) (simp_all add: put_def)

abbreviation client_session_step :: "SoupMessage sevent \<Rightarrow> soup_session \<Rightarrow> soup_session" where
  "client_session_step \<equiv> session_step soup_deserialize client_on_message client_send_heartbeat"

lemma messages_fields:
  "s_closed (fold client_on_message ms s) = s_closed s" "s_phase (fold client_on_message ms s) = s_phase s"
  "s_reader (fold client_on_message ms s) = s_reader s" "s_on_close_coro (fold client_on_message ms s) = s_on_close_coro s"
  by (induction ms arbitrary: s) (simp_all add: client_on_message_def async_on_message_def)

text \<open>Turns of the reader: what it delivers, \<open>ms\<close>, is queued, and nothing else changes.\<close>

definition turned :: "soup_session \<Rightarrow> SoupMessage list \<Rightarrow> soup_session \<Rightarrow> bool" where
  "turned s ms s' \<longleftrightarrow> draining ReaderDrain s' \<and> q_msg_queue (s_queue s') = q_msg_queue (s_queue s) @ ms \<and>
     handed s' = handed s \<and> q_dispatchers (s_queue s') = q_dispatchers (s_queue s) \<and>
     s_on_close_coro s' = s_on_close_coro s \<and> s_sent s' = s_sent s"

lemma turned_trans: "turned s ms t \<Longrightarrow> turned t ms' u \<Longrightarrow> turned s (ms @ ms') u"
  by (simp add: turned_def)

lemma drain_turn:
  assumes "draining ReaderDrain s" "s_reader s = Some r"
  obtains ms where "turned s ms (client_session_step ReaderTurn s)"
    "s_reader (client_session_step ReaderTurn s) = Some (process_tick soup_deserialize (\<lambda>_. True) r)"
    "delivered (process_tick soup_deserialize (\<lambda>_. True) r) = delivered r @ ms"
proof -
  obtain ms where ms: "delivered (process_tick soup_deserialize (\<lambda>_. True) r) = delivered r @ ms"
    using tick_delivers by blast
  have "turned s ms (client_session_step ReaderTurn s)"
    "s_reader (client_session_step ReaderTurn s) = Some (process_tick soup_deserialize (\<lambda>_. True) r)"
    using assms puts_fields [of "s_queue s" ms] ms
    by (simp_all add: turned_def draining_def handed_def reader_turn_def close_enter_def messages_fields
        client_end.messages_queue client_end.messages_sent puts_dispatchers Let_def)
  with ms that show ?thesis by blast
qed

lemma drain_turns:
  assumes "draining ReaderDrain s" "s_reader s = Some r"
    and "r' = reader_run soup_deserialize (\<lambda>_. True) (replicate k Tick) r"
  shows "\<exists>ms. turned s ms (fold client_session_step (replicate k ReaderTurn) s) \<and>
    s_reader (fold client_session_step (replicate k ReaderTurn) s) = Some r' \<and> delivered r' = delivered r @ ms"
  using assms
proof (induction k arbitrary: s r)
  case 0
  then show ?case by (simp add: turned_def reader_run_def)
next
  case (Suc k)
  let ?s = "client_session_step ReaderTurn s" and ?r = "process_tick soup_deserialize (\<lambda>_. True) r"
  obtain ms where ms: "turned s ms ?s" "s_reader ?s = Some ?r" "delivered ?r = delivered r @ ms"
    using drain_turn [OF Suc.prems(1,2)] by blast
  have "draining ReaderDrain ?s" using ms(1) by (simp add: turned_def)
  from Suc.IH [OF this ms(2)] Suc.prems(3) obtain ms' where
    "turned ?s ms' (fold client_session_step (replicate k ReaderTurn) ?s)"
    "s_reader (fold client_session_step (replicate k ReaderTurn) ?s) = Some r'" "delivered r' = delivered ?r @ ms'"
    by (auto simp del: session_step.simps fold_replicate)
  with turned_trans [OF ms(1)] ms(3) show ?case
    by (intro exI [of _ "ms @ ms'"]) (simp del: session_step.simps fold_replicate)
qed

text \<open>Turns of the dispatcher, with a handler that returns or raises.\<close>

definition hands_over :: "nat \<Rightarrow> outcome \<Rightarrow> soup_session \<Rightarrow> soup_session" where
  "hands_over d oc s =
     fold client_session_step [QueueEvent (Takes d), QueueEvent (HandlerEnds d oc)] s"

lemma hands_over_step:
  assumes "draining QueueDrain s" "map_of (q_dispatchers (s_queue s)) d = Some Idle" "oc \<noteq> IsCancelled"
  shows "draining QueueDrain (hands_over d oc s) \<and>
    map_of (q_dispatchers (s_queue (hands_over d oc s))) d = Some Idle \<and>
    q_msg_queue (s_queue (hands_over d oc s)) = tl (q_msg_queue (s_queue s)) \<and>
    handed (hands_over d oc s) @ q_msg_queue (s_queue (hands_over d oc s)) = handed s @ q_msg_queue (s_queue s) \<and>
    s_reader (hands_over d oc s) = s_reader s \<and> s_on_close_coro (hands_over d oc s) = s_on_close_coro s \<and>
    s_sent (hands_over d oc s) = s_sent s"
proof (cases "q_msg_queue (s_queue s)")
  case Nil
  with assms show ?thesis
    by (simp add: hands_over_def draining_def handed_def dispatcher_takes_def handler_ends_def)
next
  case (Cons m ms)
  have "dispatcher_takes d (s_queue s) = (pop m ms (s_queue s))\<lparr>q_dispatchers :=
      dict_set (q_dispatchers (s_queue s)) d (Handling m), q_dispatched := q_dispatched (s_queue s) @ [m]\<rparr>"
    using assms(2) Cons by (simp add: dispatcher_takes_def)
  with assms Cons show ?thesis
    by (simp add: hands_over_def draining_def handed_def handler_ends_def pop_def)
qed

section \<open>The close\<close>

definition drain_schedule :: "nat \<Rightarrow> nat \<Rightarrow> nat \<Rightarrow> outcome \<Rightarrow> SoupMessage sevent list" where
  "drain_schedule k j d oc =
     [ConnectionLost, ClosingTask, CloseStep] @ replicate k ReaderTurn @ [CloseStep] @
     concat (replicate j [QueueEvent (Takes d), QueueEvent (HandlerEnds d oc)]) @ replicate 4 CloseStep"

lemma drain_begins:
  assumes "s_reader s = Some r" "drain_mode r = None" "is_active s" "\<not> s_closing_started s" "s_graceful_shutdown s"
    and "q_buffer_msg_queue (s_queue s) = None"
  shows "let s' = fold client_session_step [ConnectionLost, ClosingTask, CloseStep] s
    in draining ReaderDrain s' \<and> s_reader s' = Some (r\<lparr>drain_mode := Some False, drain_buffer := Some []\<rparr>) \<and>
       s_queue s' = s_queue s \<and> s_on_close_coro s' = s_on_close_coro s \<and>
       s_sent s' = s_sent s @ (if s_transport s then [TransportClosed] else [])"
  using assms
  by (simp add: is_active_def connection_lost_def initiate_close_def closing_task_begins_def close_enter_def
      close_step_def drain_enter_def draining_def Let_def)

lemma drain_switches:
  assumes "draining ReaderDrain s" "s_reader s = Some r" "drain_mode r = Some True"
  shows "draining QueueDrain (close_step s) \<and> q_msg_queue (s_queue (close_step s)) = q_msg_queue (s_queue s) \<and>
    q_dispatchers (s_queue (close_step s)) = q_dispatchers (s_queue s) \<and> handed (close_step s) = handed s \<and>
    s_on_close_coro (close_step s) = s_on_close_coro s \<and> s_sent (close_step s) = s_sent s"
  using assms by (auto simp: close_step_def draining_def buffer_enter_def handed_def)

lemma hands_over_all:
  assumes "draining QueueDrain s" "map_of (q_dispatchers (s_queue s)) d = Some Idle" "oc \<noteq> IsCancelled"
    "length (q_msg_queue (s_queue s)) \<le> j"
  shows "let s' = (hands_over d oc ^^ j) s
    in draining QueueDrain s' \<and> q_msg_queue (s_queue s') = [] \<and> handed s' = handed s @ q_msg_queue (s_queue s) \<and>
       s_on_close_coro s' = s_on_close_coro s \<and> s_sent s' = s_sent s"
proof -
  define P where "P t \<longleftrightarrow> draining QueueDrain t \<and> map_of (q_dispatchers (s_queue t)) d = Some Idle \<and>
      handed t @ q_msg_queue (s_queue t) = handed s @ q_msg_queue (s_queue s) \<and>
      s_on_close_coro t = s_on_close_coro s \<and> s_sent t = s_sent s" for t
  have "P (hands_over d oc t) \<and> q_msg_queue (s_queue (hands_over d oc t)) = tl (q_msg_queue (s_queue t))" if "P t" for t
    using that hands_over_step [of t d oc] assms(3) by (auto simp: P_def)
  from dispatches_drain [of P s "hands_over d oc" "\<lambda>s. q_msg_queue (s_queue s)" j, OF _ this] assms
  show ?thesis by (auto simp: P_def Let_def)
qed

lemma stop_dispatched: "q_dispatched (stop q) = q_dispatched q"
  by (simp add: stop_def stop_dispatcher_def stop_reading_def split: option.split)

lemma drain_ends:
  assumes "draining QueueDrain s" "q_msg_queue (s_queue s) = []"
  shows "let s' = fold client_session_step (replicate 4 CloseStep) s
    in s_phase s' = CloseDone \<and> handed s' = handed s \<and>
       s_sent s' = s_sent s @ (case s_on_close_coro s of None \<Rightarrow> [] | Some h \<Rightarrow> [CalledOnClose h])"
  using assms
  by (simp add: numeral_eq_Suc close_step_def draining_def drained_def buffer_exit_def handed_def stop_dispatched Let_def)

lemma fold_concat_replicate: "fold f (concat (replicate j xs)) s = (fold f xs ^^ j) s"
  by (induction j arbitrary: s) (simp_all add: funpow_swap1)

lemma client_steps: "fold client_step (map ClientSession es) = fold client_session_step es"
  by (induction es) (simp_all add: fun_eq_iff)

lemma hands_over_fold: "fold client_session_step [QueueEvent (Takes d), QueueEvent (HandlerEnds d oc)] = hands_over d oc"
  by (rule ext) (simp add: hands_over_def)

lemma drain_dispatches:
  "fold client_session_step (concat (replicate j [QueueEvent (Takes d), QueueEvent (HandlerEnds d oc)])) s =
     (hands_over d oc ^^ j) s"
  unfolding fold_concat_replicate hands_over_fold ..

lemma drain_schedule_run:
  "fold client_step (map ClientSession (drain_schedule k j d oc)) s =
     fold client_session_step (replicate 4 CloseStep) ((hands_over d oc ^^ j) (close_step
       (fold client_session_step (replicate k ReaderTurn)
         (fold client_session_step [ConnectionLost, ClosingTask, CloseStep] s))))"
  unfolding client_steps drain_schedule_def
  by (simp only: fold_append comp_apply drain_dispatches fold.simps id_apply session_step.simps)

section \<open>Any order of events\<close>

text \<open>After the connection is lost: turns of the reader, of dispatchers and of closing itself.\<close>

fun drain_event :: "SoupMessage sevent \<Rightarrow> bool" where
  "drain_event ReaderTurn = True"
| "drain_event CloseStep = True"
| "drain_event (QueueEvent (Takes d)) = True"
| "drain_event (QueueEvent (HandlerEnds d oc)) = True"
| "drain_event _ = False"

definition resting :: "SoupMessage reader \<Rightarrow> bool" where
  "resting r \<longleftrightarrow> reader_wf r \<and> (\<not> alive r \<or> soup_next (rview r) = None)"

text \<open>What is still to be read is \<open>ms\<close> and the incomplete rest \<open>v\<close>; with it, \<open>tot\<close> will have been
  handed over.\<close>

definition reading :: "bytes \<Rightarrow> SoupMessage list \<Rightarrow> SoupMessage reader \<Rightarrow> soup_session \<Rightarrow> bool" where
  "reading v tot r s \<longleftrightarrow> reader_wf r \<and> alive r \<and>
     (\<exists>ms. rview r = soup_encode_all ms @ v \<and> list_all valid_soup ms \<and> list_all (\<lambda>m. \<not> is_logout m) ms \<and>
        handed s @ q_msg_queue (s_queue s) @ visible ms = tot)"

definition drain_inv :: "bytes \<Rightarrow> SoupMessage list \<Rightarrow> soup_session \<Rightarrow> bool" where
  "drain_inv v tot s \<longleftrightarrow> s_closed s \<and> (\<exists>r. s_reader s = Some r \<and>
     (case s_phase s of
        StopMonitors drain \<Rightarrow> drain \<and> drain_mode r = None \<and> q_buffer_msg_queue (s_queue s) = None \<and> reading v tot r s
      | ReaderDrain \<Rightarrow> q_buffer_msg_queue (s_queue s) = None \<and>
          (drain_mode r = Some False \<and> reading v tot r s \<or>
           drain_mode r = Some True \<and> resting r \<and> handed s @ q_msg_queue (s_queue s) = tot)
      | QueueDrain \<Rightarrow> resting r \<and> handed s @ q_msg_queue (s_queue s) = tot
      | NotClosing \<Rightarrow> False
      | CloseFailed e \<Rightarrow> False
      | _ \<Rightarrow> resting r \<and> handed s = tot \<and> q_msg_queue (s_queue s) = []))"

lemma turn_effect:
  assumes "s_closed s" "s_reader s = Some r" "delivered (process_tick soup_deserialize (\<lambda>_. True) r) = delivered r @ ms"
  shows "s_closed (client_session_step ReaderTurn s) \<and> s_phase (client_session_step ReaderTurn s) = s_phase s \<and>
    s_reader (client_session_step ReaderTurn s) = Some (process_tick soup_deserialize (\<lambda>_. True) r) \<and>
    s_queue (client_session_step ReaderTurn s) = fold put ms (s_queue s)"
  using assms by (simp add: reader_turn_def close_enter_def messages_fields client_end.messages_queue Let_def)

lemma resting_tick:
  assumes "resting r"
  shows "let r' = process_tick soup_deserialize (\<lambda>_. True) r
    in resting r' \<and> delivered r' = delivered r @ [] \<and> (drain_mode r = Some True \<longrightarrow> drain_mode r' = Some True)"
proof (cases "alive r")
  case True
  with assms tick_rest [of r] show ?thesis
    by (auto simp: resting_def alive_def reader_wf_def)
next
  case False
  then show ?thesis using assms
    by (auto simp: resting_def alive_def process_tick_def reader_wf_def)
qed

lemma reading_tick:
  assumes "reading v tot r s" "soup_next v = None" "q_buffer_msg_queue (s_queue s) = None" "s_reader s = Some r" "s_closed s"
  shows "let r' = process_tick soup_deserialize (\<lambda>_. True) r; s' = client_session_step ReaderTurn s
    in q_buffer_msg_queue (s_queue s') = None \<and>
       (drain_mode r' = drain_mode r \<and> reading v tot r' s' \<or>
        drain_mode r = Some False \<and> drain_mode r' = Some True \<and> resting r' \<and> handed s' @ q_msg_queue (s_queue s') = tot)"
proof -
  let ?r = "process_tick soup_deserialize (\<lambda>_. True) r" and ?s = "client_session_step ReaderTurn s"
  from assms(1) obtain ms where ms: "rview r = soup_encode_all ms @ v" "list_all valid_soup ms"
    "list_all (\<lambda>m. \<not> is_logout m) ms" "handed s @ q_msg_queue (s_queue s) @ visible ms = tot"
    and r: "reader_wf r" "alive r" by (auto simp: reading_def)
  show ?thesis
  proof (cases ms)
    case Nil
    with ms r assms(2) tick_rest [of r] have t: "?r = (if drain_mode r = Some False then r\<lparr>drain_mode := Some True\<rparr> else r)"
      by simp
    then have "delivered ?r = delivered r @ []" by simp
    from turn_effect [OF assms(5,4) this] have q: "s_queue ?s = s_queue s" by simp
    with t Nil ms r assms(1-3) show ?thesis
      by (auto simp: reading_def resting_def handed_def reader_wf_def alive_def Let_def simp del: session_step.simps)
  next
    case (Cons m rest)
    with ms r tick_message [of r m "soup_encode_all rest @ v"]
    have t: "reader_wf ?r" "alive ?r" "rview ?r = soup_encode_all rest @ v" "drain_mode ?r = drain_mode r"
      "delivered ?r = delivered r @ (if is_heartbeat m then [] else [m])" by (simp_all add: Let_def)
    from turn_effect [OF assms(5,4) t(5)]
    have q: "s_queue ?s = fold put (if is_heartbeat m then [] else [m]) (s_queue s)" by simp
    have "handed ?s @ q_msg_queue (s_queue ?s) @ visible rest = tot" "q_buffer_msg_queue (s_queue ?s) = None"
      using ms(3,4) assms(3) Cons puts_fields [of "s_queue s" "[m]"]
      by (auto simp: q handed_def simp del: session_step.simps split: if_splits)
    with t ms Cons show ?thesis
      by (auto simp: reading_def Let_def simp del: session_step.simps)
  qed
qed

lemma drain_inv_turn:
  assumes "drain_inv v tot s" "soup_next v = None"
  shows "drain_inv v tot (client_session_step ReaderTurn s)"
proof -
  from assms(1) obtain r where r: "s_closed s" "s_reader s = Some r" by (auto simp: drain_inv_def)
  obtain ms where "delivered (process_tick soup_deserialize (\<lambda>_. True) r) = delivered r @ ms" using tick_delivers by blast
  note t = turn_effect [OF r this]
  have "s_queue (client_session_step ReaderTurn s) = s_queue s" if "resting r"
    using turn_effect [OF r] resting_tick [OF that] by (simp add: Let_def)
  then have rest: "handed (client_session_step ReaderTurn s) = handed s"
    "s_queue (client_session_step ReaderTurn s) = s_queue s" if "resting r"
    using that by (simp_all add: handed_def)
  show ?thesis
    using assms(1) t r rest resting_tick [of r] reading_tick [of v tot r s, OF _ assms(2) _ r(2,1)]
    by (cases "s_phase s") (auto simp: drain_inv_def Let_def simp del: session_step.simps)
qed

lemma resting_exit: "resting r \<Longrightarrow> resting (drain_exit True r) \<and> resting (reader_stop r)"
  by (auto simp: resting_def drain_exit_def reader_stop_def alive_def reader_wf_def rview_def split: rtask.split)

lemma stop_queue: "q_msg_queue (stop q) = q_msg_queue q \<and> q_dispatched (stop q) = q_dispatched q"
  by (simp add: stop_keeps stop_dispatched)

lemma reading_drain: "reading v tot (r\<lparr>drain_mode := a, drain_buffer := b\<rparr>) s = reading v tot r s"
  by (simp add: reading_def reader_wf_def alive_def rview_def)

lemma reading_queue: "s_queue s' = s_queue s \<Longrightarrow> reading v tot r s' = reading v tot r s"
  by (simp add: reading_def handed_def)

lemma drain_inv_close:
  assumes "drain_inv v tot s"
  shows "drain_inv v tot (close_step s)"
proof -
  from assms obtain r where r: "s_closed s" "s_reader s = Some r" by (auto simp: drain_inv_def)
  show ?thesis
  proof (cases "s_phase s")
    case (StopMonitors drain)
    with assms r have a: "drain" "drain_mode r = None" "q_buffer_msg_queue (s_queue s) = None" "reading v tot r s"
      by (simp_all add: drain_inv_def)
    let ?s = "s\<lparr>s_local_hb := map_option monitor_stop (s_local_hb s), s_remote_hb := map_option monitor_stop (s_remote_hb s),
        s_reader := Some (r\<lparr>drain_mode := Some False, drain_buffer := Some []\<rparr>), s_phase := ReaderDrain\<rparr>"
    have "close_step s = ?s" using StopMonitors a(1,2) r(2) by (simp add: close_step_def drain_enter_def Let_def)
    with a r reading_queue [of ?s s v tot r] show ?thesis by (simp add: drain_inv_def reading_drain)
  next
    case ReaderDrain
    show ?thesis
    proof (cases "drain_mode r = Some True")
      case True
      with assms r ReaderDrain show ?thesis
        by (simp add: drain_inv_def close_step_def buffer_enter_def handed_def)
    next
      case False
      with assms r(2) ReaderDrain show ?thesis by (simp add: close_step_def)
    qed
  next
    case QueueDrain
    with assms r resting_exit [of r] show ?thesis
      by (auto simp: drain_inv_def close_step_def drained_def buffer_exit_def handed_def Let_def)
  qed (use assms r resting_exit [of r] stop_queue [of "s_queue s"] in
      \<open>simp_all add: drain_inv_def close_step_def handed_def Let_def\<close>)
qed

text \<open>A dispatcher moves a message from the queue to the handed ones.\<close>

lemma dispatch_conserves:
  "q_dispatched (dispatcher_takes d q) @ q_msg_queue (dispatcher_takes d q) = q_dispatched q @ q_msg_queue q"
  "q_buffer_msg_queue (dispatcher_takes d q) = q_buffer_msg_queue q"
  "q_msg_queue q = [] \<Longrightarrow> q_msg_queue (dispatcher_takes d q) = []"
  "q_dispatched (handler_ends d oc q) = q_dispatched q"
  by (auto simp: dispatcher_takes_def handler_ends_def pop_def split: option.split dispatcher.split list.split)

lemma drain_inv_queue:
  assumes "drain_inv v tot s" "q_dispatched q @ q_msg_queue q = handed s @ q_msg_queue (s_queue s)"
    "q_buffer_msg_queue q = q_buffer_msg_queue (s_queue s)" "q_msg_queue (s_queue s) = [] \<Longrightarrow> q_msg_queue q = []"
  shows "drain_inv v tot (s\<lparr>s_queue := q\<rparr>)"
proof -
  have "reading v tot r (s\<lparr>s_queue := q\<rparr>) = reading v tot r s" for r
    using assms(2) by (simp add: reading_def handed_def flip: append_assoc)
  with assms show ?thesis
    by (cases "s_phase s") (auto simp: drain_inv_def handed_def)
qed

lemma drain_inv_step:
  assumes "drain_inv v tot s" "soup_next v = None" "drain_event e"
  shows "drain_inv v tot (client_session_step e s)"
  using assms(3)
proof (cases e rule: drain_event.cases)
  case 1
  with drain_inv_turn [OF assms(1,2)] show ?thesis by simp
next
  case 2
  with drain_inv_close [OF assms(1)] show ?thesis by simp
next
  case (3 d)
  with drain_inv_queue [OF assms(1), of "dispatcher_takes d (s_queue s)"] dispatch_conserves(1-3) [where d = d and q = "s_queue s"]
  show ?thesis by (simp add: handed_def)
next
  case (4 d oc)
  with drain_inv_queue [OF assms(1), of "handler_ends d oc (s_queue s)"] dispatch_conserves(4) [where d = d and q = "s_queue s" and oc = oc]
  show ?thesis by (simp add: handed_def handler_ends_effect)
qed simp_all

lemma drain_inv_run:
  "drain_inv v tot s \<Longrightarrow> soup_next v = None \<Longrightarrow> list_all drain_event es \<Longrightarrow>
   drain_inv v tot (fold client_session_step es s)"
  by (induction es arbitrary: s) (simp_all add: drain_inv_step del: session_step.simps)

lemma drain_inv_starts:
  assumes "s_reader s = Some r" "alive r" "reader_wf r" "drain_mode r = None" "rview r = soup_encode_all ms @ v"
    "list_all valid_soup ms" "list_all (\<lambda>m. \<not> is_logout m) ms" "is_active s" "\<not> s_closing_started s"
    "s_graceful_shutdown s" "q_buffer_msg_queue (s_queue s) = None"
  shows "drain_inv v (q_dispatched (s_queue s) @ q_msg_queue (s_queue s) @ visible ms)
    (fold client_session_step [ConnectionLost, ClosingTask] s)"
  using assms
  by (auto simp: is_active_def connection_lost_def initiate_close_def closing_task_begins_def close_enter_def
      drain_inv_def reading_def handed_def)

lemma drain_schedule_completes:
  assumes "s_reader s = Some r" and "alive r" and "reader_wf r" and "drain_mode r = None"
    and "rview r = soup_encode_all ms @ v" and "soup_next v = None"
    and "list_all valid_soup ms" and "list_all (\<lambda>m. \<not> is_logout m) ms"
    and "is_active s" and "\<not> s_closing_started s" and "s_graceful_shutdown s"
    and "q_buffer_msg_queue (s_queue s) = None"
    and "map_of (q_dispatchers (s_queue s)) d = Some Idle" and "oc \<noteq> IsCancelled"
    and "length ms < k" and "length (q_msg_queue (s_queue s)) + length ms \<le> j"
  shows "let s' = fold client_step (map ClientSession (drain_schedule k j d oc)) s
    in s_phase s' = CloseDone \<and>
       q_dispatched (s_queue s') = q_dispatched (s_queue s) @ q_msg_queue (s_queue s) @ visible ms \<and>
       s_sent s' = s_sent s @ (if s_transport s then [TransportClosed] else []) @
         (case s_on_close_coro s of None \<Rightarrow> [] | Some h \<Rightarrow> [CalledOnClose h])"
proof -
  let ?r = "r\<lparr>drain_mode := Some False, drain_buffer := Some []\<rparr>"
  let ?r' = "reader_run soup_deserialize (\<lambda>_. True) (replicate k Tick) ?r"
  define s1 where "s1 = fold client_session_step [ConnectionLost, ClosingTask, CloseStep] s"
  define s2 where "s2 = fold client_session_step (replicate k ReaderTurn) s1"
  define s3 where "s3 = (hands_over d oc ^^ j) (close_step s2)"
  note 1 = drain_begins [OF assms(1,4,9-12), unfolded Let_def, folded s1_def]
  have "drain_mode ?r' = Some True \<and> delivered ?r' = delivered ?r @ visible ms"
    using ticks_drain [of ?r ms v k] assms(2,3,5-8,15) by (simp add: reader_wf_def alive_def rview_def Let_def)
  with drain_turns [of s1 ?r ?r' k] 1 have 2: "turned s1 (visible ms) s2" "s_reader s2 = Some ?r'" "drain_mode ?r' = Some True"
    by (auto simp: s2_def)
  note 3 = drain_switches [OF _ 2(2,3)]
  have "draining QueueDrain (close_step s2)" "map_of (q_dispatchers (s_queue (close_step s2))) d = Some Idle"
    "length (q_msg_queue (s_queue (close_step s2))) \<le> j"
    using 1 2(1) 3 assms(13,16) visible_length [of ms] by (simp_all add: turned_def)
  note 4 = hands_over_all [OF this(1,2) assms(14) this(3), unfolded Let_def, folded s3_def]
  have "fold client_step (map ClientSession (drain_schedule k j d oc)) s =
      fold client_session_step (replicate 4 CloseStep) s3"
    unfolding drain_schedule_run s3_def s2_def s1_def ..
  with drain_ends [of s3] 1 2(1) 3 4 show ?thesis by (simp add: turned_def handed_def Let_def)
qed

text \<open>
  C4: a graceful close loses nothing, and completes. The connection of a client is lost while messages
  are unread and queued, no logout among them. In whatever order reader, dispatchers and closing then
  take turns, closing does not fail, and does not stop the queue before every message was handed to the
  handler, in order. After one iteration of the reader more than there are unread messages, and as
  many of the dispatcher as there are messages, with a handler that returns or raises, the session
  has closed, and \<open>on_close_coro\<close> was called once, after that.
\<close>
theorem graceful_close_delivers:
  assumes "s_reader s = Some r" and "alive r" and "reader_wf r" and "drain_mode r = None"
    and "rview r = soup_encode_all ms @ v" and "soup_next v = None"
    and "list_all valid_soup ms" and "list_all (\<lambda>m. \<not> is_logout m) ms"
    and "is_active s" and "\<not> s_closing_started s" and "s_graceful_shutdown s"
    and "q_buffer_msg_queue (s_queue s) = None"
    and "map_of (q_dispatchers (s_queue s)) d = Some Idle" and "oc \<noteq> IsCancelled"
    and "length ms < k" and "length (q_msg_queue (s_queue s)) + length ms \<le> j"
  shows "(list_all drain_event es \<longrightarrow>
      (let s' = fold client_step (map ClientSession ([ConnectionLost, ClosingTask] @ es)) s
       in (\<forall>e. s_phase s' \<noteq> CloseFailed e) \<and>
          (s_phase s' \<in> {StopQueue, StopReader, CallOnClose, CloseDone} \<longrightarrow>
             q_dispatched (s_queue s') = q_dispatched (s_queue s) @ q_msg_queue (s_queue s) @ visible ms))) \<and>
    (let s' = fold client_step (map ClientSession (drain_schedule k j d oc)) s
     in s_phase s' = CloseDone \<and>
       q_dispatched (s_queue s') = q_dispatched (s_queue s) @ q_msg_queue (s_queue s) @ visible ms \<and>
       s_sent s' = s_sent s @ (if s_transport s then [TransportClosed] else []) @
         (case s_on_close_coro s of None \<Rightarrow> [] | Some h \<Rightarrow> [CalledOnClose h]))"
proof (rule conjI)
  have "\<forall>e. s_phase s' \<noteq> CloseFailed e" "s_phase s' \<in> {StopQueue, StopReader, CallOnClose, CloseDone} \<longrightarrow> handed s' = tot"
    if "drain_inv v tot s'" for tot s'
    using that by (auto simp: drain_inv_def split: phase.splits)
  note this [OF drain_inv_run [OF drain_inv_starts [OF assms(1-5,7-12)] assms(6), of es]]
  then show "list_all drain_event es \<longrightarrow>
      (let s' = fold client_step (map ClientSession ([ConnectionLost, ClosingTask] @ es)) s
       in (\<forall>e. s_phase s' \<noteq> CloseFailed e) \<and>
          (s_phase s' \<in> {StopQueue, StopReader, CallOnClose, CloseDone} \<longrightarrow>
             q_dispatched (s_queue s') = q_dispatched (s_queue s) @ q_msg_queue (s_queue s) @ visible ms))"
    unfolding client_steps handed_def fold_append comp_apply Let_def by blast
qed (rule drain_schedule_completes [OF assms])

theorem graceful_close_delivers_witness:
  "let s = (client_new (Some 3) (Some 7) 10 10)\<lparr>s_reader := Some (new_reader\<lparr>rbuffer :=
        soup_encode_all [SequencedData [1], ServerHeartbeat, SequencedData [2]] @ [0]\<rparr>),
        s_queue := create_dispatcher mq_empty, s_transport := True\<rparr>;
      s' = fold client_step (map ClientSession (drain_schedule 4 3 0 Raises)) s
   in s_phase s' = CloseDone \<and> q_dispatched (s_queue s') = [SequencedData [1], SequencedData [2]] \<and>
      s_sent s' = [TransportClosed, CalledOnClose 7]"
proof -
  let ?r = "new_reader\<lparr>rbuffer := soup_encode_all [SequencedData [1], ServerHeartbeat, SequencedData [2]] @ [0]\<rparr>"
  let ?s = "(client_new (Some 3) (Some 7) 10 10)\<lparr>s_reader := Some ?r, s_queue := create_dispatcher mq_empty,
      s_transport := True\<rparr>"
  have r: "alive ?r" "reader_wf ?r" "drain_mode ?r = None"
    "rview ?r = soup_encode_all [SequencedData [1], ServerHeartbeat, SequencedData [2]] @ [0]" "soup_next [0] = None"
    by (simp_all add: new_reader_def alive_def reader_wf_def rview_def soup_next_def)
  have s: "is_active ?s" "\<not> s_closing_started ?s" "s_graceful_shutdown ?s" "q_buffer_msg_queue (s_queue ?s) = None"
    "map_of (q_dispatchers (s_queue ?s)) 0 = Some Idle" "q_dispatched (s_queue ?s) = []" "q_msg_queue (s_queue ?s) = []"
    "s_sent ?s = []" "s_on_close_coro ?s = Some 7"
    by (simp_all add: is_active_def client_new_def extend_soup_def session.defs soup_session.defs session_new_def
        create_dispatcher_def mq_empty_def)
  from graceful_close_delivers [OF _ r _ _ s(1-5), where oc = Raises and k = 4 and j = 3 and es = "[]"] s(6-9) show ?thesis
    by (simp add: Let_def is_logout_def is_heartbeat_def)
qed

end
