(* ===== verification/Spec2Isabelle.thy ===== *)
theory Spec2Isabelle
  imports AppSession FixSessionProps SpecProps FixSpecProps SyncProps NewProject Generators
    FixCollections Asn1Session Draining
begin

text \<open>
  A verification development for nasdaq-protocols, a Python library of market data and order
  entry protocols: SoupBinTCP, the applications carried by it (OUCH, ITCH, SQF, ASN.1) and FIX.
  All paths below are relative to \<open>src/nasdaq_protocols/\<close>.

  The parts and how they interact. Bytes from the network enter \<open>AsyncSession.data_received\<close>,
  which appends them to the buffer of a \<open>Reader\<close>. The reader's task cuts messages out of the
  buffer with the \<open>deserialize\<close> of the protocol, drops heartbeats, stops at a logout and hands the
  rest to the session, which puts them into a \<open>DispatchableMessageQueue\<close>; a dispatcher task gives
  them to the user's handler, or the user reads them with \<open>receive_msg\<close>. Two heartbeat monitors
  watch both directions. An application session sits on a soup client session: it decodes the
  sequenced data with the application's messages and has a queue of its own. Messages are records
  of typed fields; their classes are registered by name and id when they are defined.

  The theories, in the order of the code's dependencies:

  \<^item> \<open>Prelude\<close>: exceptions, results (\<open>exn + 'a\<close>: every raise is a branch), bytes (\<open>8 word\<close>), text
    (code points), Python slices and searches, dictionaries. \<open>PyCodec\<close>: \<open>encode\<close>/\<open>decode\<close>,
    \<open>int.to_bytes\<close>/\<open>from_bytes\<close>, decimal notation.

  \<^item> \<open>SoupCore\<close> (\<open>soup/core.py\<close>): the message classes, \<open>to_bytes\<close>, \<open>unpack\<close>, \<open>from_bytes\<close>. Round
    trip, frame length, the payload limit, the loss of large payloads, the possible exceptions.

  \<^item> \<open>Reader\<close> (\<open>Reader\<close> in \<open>common/session.py\<close>): \<open>process_tick\<close> is one turn of the task's loop, a run
    a list of turns and arriving chunks. The locale \<open>framing\<close> is the contract of \<open>deserialize\<close>; in
    it: after enough turns (as many as there are bytes) exactly the messages before the first
    logout are delivered, whatever the chunks. \<open>SoupReader\<close> (\<open>soup/_reader.py\<close>) and \<open>FixReader\<close>
    (\<open>fix/_reader.py\<close>) interpret it.

  \<^item> \<open>FieldTypes\<close> (\<open>common/message/types.py\<close>), \<open>Structures\<close> and \<open>Records\<close>
    (\<open>common/message/structures.py\<close>): field types, records, arrays, records with a present bit;
    attribute access. The locale \<open>codec\<close> is the law of a packer and its unpacker, interpreted for
    every type and for all structures built from them. Ranges of integers, truncated input,
    overlong strings, defaults, typing of assigned values.

  \<^item> \<open>Messages\<close> (\<open>CommonMessage\<close>, \<open>soup/soup_app.py\<close>, \<open>ouch/\<close>, \<open>itch/\<close>, \<open>sqf/\<close> and \<open>asn1_app/core.py\<close>):
    the registries and the messages. A class statement is \<open>class_statement\<close>; asn1tools is a
    parameter.

  \<^item> \<open>MessageQueue\<close> (\<open>common/message_queue.py\<close>, \<open>common/utils.py\<close>): the queue with its tasks as state;
    every operation between two awaits is a step, and a run is any interleaving. The locale
    \<open>mailbox\<close> is the contract of a queue that loses nothing. \<open>Heartbeat\<close>: the monitors, one step
    per interval.

  \<^item> \<open>Session\<close> (\<open>AsyncSession\<close>): the composition of reader, queue, monitors and transport; \<open>close\<close> is a
    sequence of phases with arbitrary steps in between. The locale \<open>session_class\<close> is what a
    subclass may do. \<open>SoupSession\<close> (\<open>soup/session.py\<close>, \<open>soup/__init__.py\<close>): client and server,
    login, sequence numbers. \<open>AppSession\<close>: the application sessions. \<open>Asn1Session\<close>
    (\<open>asn1_app/soup_session.py\<close>): the session of ASN.1 applications, which has code of its own, shown
    to behave like \<open>AppSession\<close>, and what becomes of data that cannot be decoded.

  \<^item> \<open>Channel\<close>: a server session and an application over a client session, with the bytes between
    them (\<open>world\<close>). The events are everything the modelled code offers: calls, timers, turns of the
    readers and dispatchers, bytes arriving in any pieces. The locale \<open>receiving_session\<close> extends
    those of reader and session and is interpreted for both ends; \<open>connected\<close> is the invariant: what
    an end has received is an initial part of what the other wrote, and the rest is on its way.
    \<open>EndToEnd\<close> has the life of such a connection, from \<open>connection_made\<close> through the login: messages
    come in order and once, and everything arrives after as many turns as there are bytes and
    messages. Two kinds of event are left out there: closing with a drain, and putting into the
    queue of an application from outside. \<open>Draining\<close> has the former: after the connection is lost,
    no order of turns makes closing stop the queue before everything received was handed over
    (\<open>drain_inv\<close>), and a schedule in which it completes.

  \<^item> \<open>FixTypes\<close> (\<open>fix/types.py\<close>, \<open>fix/parser/version_types.py\<close>), \<open>FixCore\<close> and \<open>FixMessage\<close>
    (\<open>fix/core.py\<close>): fields, segments, repeating groups, messages. The generated classes are data
    (\<open>entry_def\<close>, \<open>fix_class\<close>). \<open>FixRoundtrip\<close> and \<open>FixTyping\<close> hold the lemmas for the round trip of
    nested groups and for the types of assigned values.

  \<^item> \<open>FixSession\<close> (\<open>fix/session.py\<close>): completing, sending, login. \<open>FixFrames\<close>: what the session writes
    is a frame for the reader. \<open>FixProps\<close> and \<open>FixSessionProps\<close>: the properties, with a sample
    application for their witnesses. \<open>FixCollections\<close>: \<open>as_collection\<close> and the way back by \<open>from_value\<close>,
    \<open>==\<close>, lengths and indexing.

  \<^item> \<open>SpecParser\<close> (\<open>common/message/parser.py\<close>): the specification of an application - fields, records,
    enums, messages and an imported parent - becomes definitions. \<open>SpecProps\<close>: what a parse returns,
    that it names only defined fields, and what is left behind for the next one.

  \<^item> \<open>FixSpec\<close> (\<open>fix/parser/\<close>): the specification of a FIX version, with components that refer to
    each other. \<open>FixExpansion\<close> has the relation \<open>expands\<close>, the meaning of an entry with every
    component written out, and shows that the parser computes it; \<open>FixNames\<close> treats the names given
    to repeated groups, \<open>FixSpecProps\<close> the properties of a whole specification.

  \<^item> \<open>SyncExecutor\<close> (\<open>common/sync_executor.py\<close>): the event loop in a thread of its own and the calls
    of other threads, as steps. \<open>SyncSession\<close> (\<open>SoupClientSessionSync\<close> and \<open>connect\<close> of
    \<open>soup/__init__.py\<close>): the inductive relation \<open>reachable\<close> of all interleavings of caller, loop and
    handler. \<open>SyncInvariants\<close> has what holds in every reachable state, \<open>SyncProps\<close> what that means
    for \<open>close\<close>: when it returns, when it never does, and what may still be called after it.

  \<^item> \<open>Connecting\<close> (\<open>connect_async\<close> of \<open>soup/\<close>, \<open>ouch/\<close>, \<open>itch/\<close>, \<open>sqf/\<close>, \<open>asn1_app/\<close> and \<open>fix/\<close>): the
    connection, the login and the session the caller gets, or the error.

  \<^item> \<open>Files\<close> (the file system as a map), \<open>NewProject\<close> (\<open>tools/new_project.py\<close>) and \<open>Generators\<close>
    (\<open>common/message/codegen.py\<close>, \<open>fix/parser/generator.py\<close>, \<open>asn1_app/codegen.py\<close>): which files the
    command line tools write, with what data, and what they do when run again.

  Termination and bounds. The reader's loop runs for ever in the code, so it is a step function and
  claims about what is delivered name a sufficient number of steps. The loops of
  \<open>DataSegment.from_bytes\<close> and of cutting a byte stream into frames recurse on the bytes left; where
  an iteration would consume nothing they give \<open>Diverges\<close>, which is shown not to happen (the
  soup frames, FIX segments) or to be the case named in the property (a negative body length).
  The FIX parser follows a component to where it is defined, so it takes fuel, the depth to which
  components may be nested: as many as there are components is enough exactly when none contains
  itself, and otherwise the code runs into Python's limit of recursion.
  Python integers are \<open>int\<close>; the wrap of two-byte lengths is that of \<open>int.to_bytes\<close> and
  \<open>int.from_bytes\<close>.

  Parameters. The text of a floating point number (\<open>float_text\<close>), the clock (\<open>now\<close>), the compiler and
  decoder of asn1tools, the application's \<open>on_login\<close>, the classes an application registers, the
  XML tree (what \<open>ElementTree\<close> gives for the file) and the table of known field types, the outcome of
  \<open>create_connection\<close> and what happens while a login waits for its reply, the text a template is
  rendered to and the list a directory gives. What the
  parsers keep in class attributes between two calls (\<open>FieldDef.Definitions\<close>, \<open>Group.Contexts\<close>) is
  part of the state that is passed on.

  Not modelled: the sockets and the event loop itself, its set-up (\<open>common/_loop.py\<close>), logging and
  formatting for logs, the rendering of templates, and the tools that connect and print what they
  receive. A task that stops itself, by closing the session in its own handler, is not
  cancelled in the model.
\<close>

end
